(* ===== verification/Astra_Prelude.thy ===== *)
theory Astra_Prelude
  imports Main "HOL-Library.Word" "HOL-Library.Multiset"
begin

text \<open>
  Shared vocabulary of the AstraLib development: the machine integer types, the outcome of a
  call that may spin or throw, labelled runs of a concurrent system with the invariant and
  simulation principles every component uses, and the facts about words, residues and lists
  that the components share.
\<close>

section \<open>Types\<close>

type_synonym u64 = "64 word"
type_synonym i64 = "64 word"
type_synonym i32 = "32 word"
type_synonym u32 = "32 word"
type_synonym tid = nat

text \<open>
  What a call does when no other thread runs: it returns a result in a new state, it spins for
  ever in a busy-wait loop (the state is the one it left behind), or an exception leaves it.
\<close>

datatype ('s, 'r) run = Returned 's 'r | Spinning 's | Threw 's

named_theorems ring_arith \<open>residues of ring tickets\<close>

unbundle bit_operations_syntax

section \<open>Labelled runs\<close>

text \<open>
  A concurrent component is a step relation with labels; each step is one atomic action of one
  thread. A run is a finite interleaving of such steps, recorded by its list of labels.
\<close>

inductive lts_run :: "('s \<Rightarrow> 'l \<Rightarrow> 's \<Rightarrow> bool) \<Rightarrow> 's \<Rightarrow> 'l list \<Rightarrow> 's \<Rightarrow> bool"
  for step :: "'s \<Rightarrow> 'l \<Rightarrow> 's \<Rightarrow> bool" and s0 :: 's where
  run_nil: "lts_run step s0 [] s0"
| run_snoc: "lts_run step s0 tr s \<Longrightarrow> step s l s' \<Longrightarrow> lts_run step s0 (tr @ [l]) s'"

inductive_cases lts_run_snocE: "lts_run step s0 (tr @ [l]) s'"

lemma lts_run_cons: "step s l s' \<Longrightarrow> lts_run step s' tr s'' \<Longrightarrow> lts_run step s (l # tr) s''"
proof (rotate_tac, induction rule: lts_run.induct)
  case run_nil
  then show ?case using lts_run.run_snoc [OF lts_run.run_nil, of step s l s'] by simp
next
  case (run_snoc tr u e u')
  then show ?case using lts_run.run_snoc [of step s "l # tr" u e u'] by simp
qed

lemma lts_run_Nil_iff: "lts_run step s [] s' \<longleftrightarrow> s' = s"
  by (auto intro: lts_run.run_nil elim: lts_run.cases)

lemma lts_run_ConsD: "lts_run step s (e # tr) s'' \<Longrightarrow> \<exists>s'. step s e s' \<and> lts_run step s' tr s''"
proof (induction tr arbitrary: s'' rule: rev_induct)
  case Nil
  then show ?case by (cases rule: lts_run.cases) (auto simp: lts_run_Nil_iff)
next
  case (snoc x xs)
  from snoc.prems obtain u where "lts_run step s (e # xs) u" "step u x s''"
    by (cases rule: lts_run.cases) (auto simp flip: append_Cons)
  with snoc.IH show ?case by (blast intro: lts_run.run_snoc)
qed

lemma lts_run_append: "lts_run step s tr s' \<Longrightarrow> lts_run step s' tr' s'' \<Longrightarrow> lts_run step s (tr @ tr') s''"
proof (rotate_tac, induction rule: lts_run.induct)
  case (run_snoc tr' u l u')
  then show ?case using lts_run.run_snoc [of step s "tr @ tr'" u l u'] by simp
qed simp

locale lts_invariant =
  fixes step :: "'s \<Rightarrow> 'l \<Rightarrow> 's \<Rightarrow> bool"
    and start :: "'s \<Rightarrow> bool"
    and inv :: "'l list \<Rightarrow> 's \<Rightarrow> bool"
  assumes inv_start: "start s \<Longrightarrow> inv [] s"
    and inv_step: "inv tr s \<Longrightarrow> step s l s' \<Longrightarrow> inv (tr @ [l]) s'"
begin

lemma inv_run: "lts_run step s0 tr s \<Longrightarrow> start s0 \<Longrightarrow> inv tr s"
  by (induction rule: lts_run.induct) (blast intro: inv_start inv_step)+

end

locale lts_simulation = spec: lts_invariant astep astart ainv
  for astep :: "'a \<Rightarrow> 'l \<Rightarrow> 'a \<Rightarrow> bool" and astart :: "'a \<Rightarrow> bool"
    and ainv :: "'l list \<Rightarrow> 'a \<Rightarrow> bool" +
  fixes cstep :: "'c \<Rightarrow> 'l \<Rightarrow> 'c \<Rightarrow> bool"
    and rel :: "'c \<Rightarrow> 'a \<Rightarrow> bool"
  assumes rel_step:
    "rel c a \<Longrightarrow> ainv tr a \<Longrightarrow> cstep c l c' \<Longrightarrow> \<exists>a'. astep a l a' \<and> rel c' a'"
begin

lemma simulates:
  "lts_run cstep c0 tr c \<Longrightarrow> rel c0 a0 \<Longrightarrow> astart a0 \<Longrightarrow> \<exists>a. lts_run astep a0 tr a \<and> rel c a"
proof (induction rule: lts_run.induct)
  case run_nil
  with lts_run.run_nil [of astep a0] show ?case by metis
next
  case (run_snoc tr c l c')
  then obtain a where a: "lts_run astep a0 tr a" "rel c a" by blast
  then have "ainv tr a" using spec.inv_run run_snoc.prems(2) by blast
  with a run_snoc.hyps(2) obtain a' where "astep a l a'" "rel c' a'"
    using rel_step by blast
  moreover have "lts_run astep a0 (tr @ [l]) a'"
    using a(1) \<open>astep a l a'\<close> by (rule lts_run.run_snoc)
  ultimately show ?case by blast
qed

lemma simulated_inv:
  "lts_run cstep c0 tr c \<Longrightarrow> rel c0 a0 \<Longrightarrow> astart a0 \<Longrightarrow> \<exists>a. rel c a \<and> ainv tr a"
  using simulates spec.inv_run by blast

end

section \<open>Machine words\<close>

lemma unat_add_of_nat:
  "unat (t + of_nat k :: 'a::len word) = (unat t + k) mod 2 ^ LENGTH('a)"
  by (simp add: unat_word_ariths(1) unat_of_nat mod_add_right_eq)

lemma unat_and_mask_pow2:
  fixes t :: "'a::len word"
  assumes "n < LENGTH('a)"
  shows "unat (t AND (of_nat (2 ^ n) - 1)) = unat t mod 2 ^ n"
proof -
  have "t AND (of_nat (2 ^ n) - 1) = take_bit n t"
    by (simp add: mask_eq_exp_minus_1 [symmetric] take_bit_eq_mask [symmetric])
  then show ?thesis
    by (simp add: unsigned_take_bit_eq) (simp add: take_bit_eq_mod)
qed

lemma sint_of_nat_i32: "n < 2 ^ 31 \<Longrightarrow> sint (of_nat n :: i32) = int n"
  by (simp add: sint_uint signed_take_bit_int_eq_self uint_nat unat_of_nat)

lemma sint_ucast_i32:
  fixes w :: u64
  assumes "unat w < 2 ^ 31"
  shows "sint (ucast w :: i32) = int (unat w)"
  using assms sint_of_nat_i32 [of "unat w"] by (metis of_nat_unat)

lemma word_less_Suc: "k < m \<Longrightarrow> unat (k + 1 :: u64) = Suc (unat k) \<and> k + 1 \<le> m"
proof -
  assume "k < m"
  moreover have "unat m < 2 ^ 64" using unsigned_less [of m] by simp
  ultimately show ?thesis by (simp add: word_less_nat_alt word_le_nat_alt unat_word_ariths(1))
qed

text \<open>The classical test \<open>n & (n - 1)\<close> recognises exactly the powers of two.\<close>

lemma and_pred_zero_pow2: "0 < (n::nat) \<Longrightarrow> n AND (n - 1) = 0 \<Longrightarrow> \<exists>k. n = 2 ^ k"
proof (induction n rule: less_induct)
  case (less n)
  have halves: "n div 2 AND (n - 1) div 2 = 0"
    using less.prems(2) and_nat_rec [of n "n - 1"] by simp
  show ?case
  proof (cases "even n")
    case True
    then obtain m where m: "n = 2 * m" by blast
    with less.prems have pos: "0 < m" "m < n" by auto
    have "(n - 1) div 2 = m - 1" using m pos by auto
    with halves m have "m AND (m - 1) = 0" by simp
    with less.IH pos obtain k where "m = 2 ^ k" by blast
    with m have "n = 2 ^ Suc k" by simp
    then show ?thesis by blast
  next
    case False
    then have "(n - 1) div 2 = n div 2" by (auto elim: oddE)
    with halves have "n div 2 = 0" by simp
    with False have "n = 2 ^ 0" by (cases "n = 1") (auto elim: oddE)
    then show ?thesis by blast
  qed
qed

lemma sint_scast_i64: "sint (scast (w :: i32) :: i64) = sint w"
  using sint_greater_eq [of w] sint_lt [of w] by (simp add: signed_scast_eq signed_take_bit_int_eq_self)

lemma sint_add_i64: "- (2 ^ 63) \<le> sint a + sint b \<Longrightarrow> sint a + sint b < 2 ^ 63 \<Longrightarrow> sint (a + b :: i64) = sint a + sint b"
  by (simp add: sint_word_ariths signed_take_bit_int_eq_self)

lemma sint_mult_i64: "- (2 ^ 63) \<le> sint a * sint b \<Longrightarrow> sint a * sint b < 2 ^ 63 \<Longrightarrow> sint (a * b :: i64) = sint a * sint b"
  by (simp add: sint_word_ariths signed_take_bit_int_eq_self)

lemma of_nat_word_inject_close:
  fixes a b :: nat
  assumes "(of_nat a :: 'a::len word) = of_nat b" "a \<le> b" "b - a < 2 ^ LENGTH('a)"
  shows "a = b"
proof -
  have "(of_nat (b - a) :: 'a word) = 0"
    using assms(1,2) by (simp add: of_nat_diff)
  then have "(b - a) mod 2 ^ LENGTH('a) = 0"
    by (metis unat_0 unat_of_nat)
  with assms(2,3) show ?thesis by simp
qed

section \<open>Residues and lists\<close>

lemma mod_eq_add_mult:
  fixes a b S :: nat
  assumes "a mod S = b mod S" "a < b"
  shows "a + S \<le> b"
proof -
  from assms have "S dvd b - a" by (metis less_imp_le mod_eq_dvd_iff_nat)
  then have "S \<le> b - a" using assms(2) by (simp add: dvd_imp_le)
  with assms(2) show ?thesis by simp
qed

lemma Suc_mod_neq:
  fixes t u S :: nat
  assumes "2 \<le> S" "t mod S = u mod S"
  shows "t \<noteq> Suc u"
proof
  assume "t = Suc u"
  with assms(2) have "S dvd Suc u - u" by (metis le_add2 mod_eq_dvd_iff_nat plus_1_eq_Suc)
  with assms(1) show False by simp
qed

lemma add_mod_eq_iff:
  fixes r i j S :: nat
  assumes "i < S" "j < S"
  shows "(r + i) mod S = (r + j) mod S \<longleftrightarrow> i = j"
proof
  assume eq: "(r + i) mod S = (r + j) mod S"
  show "i = j"
  proof (cases i j rule: linorder_cases)
    case less
    then have "r + i + S \<le> r + j" by (intro mod_eq_add_mult) (use eq in auto)
    with assms show ?thesis by simp
  next
    case greater
    then have "r + j + S \<le> r + i" by (intro mod_eq_add_mult) (use eq in auto)
    with assms show ?thesis by simp
  qed
qed simp

lemma mset_map_nth_subset:
  assumes "distinct ts" "\<forall>t \<in> set ts. t < length xs"
  shows "mset (map ((!) xs) ts) \<subseteq># mset xs"
proof -
  have "mset ts \<subseteq># mset [0..<length xs]"
    using assms by (intro mset_subset_eqI) (simp add: distinct_count_atmost_1 count_mset_set')
  then have "image_mset ((!) xs) (mset ts) \<subseteq># image_mset ((!) xs) (mset [0..<length xs])"
    by (rule image_mset_subseteq_mono)
  then show ?thesis by (metis map_nth mset_map)
qed

lemma in_set_update_other: "x \<in> set xs \<Longrightarrow> x \<noteq> xs ! c \<Longrightarrow> x \<in> set (xs[c := p])"
  by (metis in_set_conv_nth length_list_update nth_list_update_neq)

lemma bex_update:
  assumes "\<exists>p \<in> set xs. R p" "R (xs ! c) \<Longrightarrow> R q"
  shows "\<exists>p \<in> set (xs[c := q]). R p"
proof (cases "c < length xs")
  case True
  from assms(1) obtain p where p: "p \<in> set xs" "R p" by blast
  show ?thesis
  proof (cases "p = xs ! c")
    case same: True
    then show ?thesis using p(2) assms(2) True by (intro bexI [of _ q]) (auto intro: set_update_memI)
  next
    case False
    then show ?thesis using p in_set_update_other by metis
  qed
next
  case False
  then show ?thesis using assms(1) by (simp add: list_update_beyond)
qed

lemma length_filter_update:
  "i < length xs \<Longrightarrow> length (filter P (xs[i := x])) + (if P (xs ! i) then 1 else 0) = length (filter P xs) + (if P x then 1 else 0)"
proof (induction xs arbitrary: i)
  case (Cons y ys)
  show ?case
  proof (cases i)
    case 0
    then show ?thesis by simp
  next
    case (Suc k)
    then show ?thesis using Cons.IH [of k] Cons.prems by auto
  qed
qed simp

lemma list_all_update: "list_all P xs \<Longrightarrow> P x \<Longrightarrow> list_all P (xs[i := x])"
  using set_update_subset_insert [of xs i x] by (auto simp: list_all_iff)

lemma sum_list_map_update:
  fixes f :: "'w \<Rightarrow> 'b::comm_monoid_add"
  shows "i < length ws \<Longrightarrow> sum_list (map f (ws[i := w])) + f (ws ! i) = sum_list (map f ws) + f w"
proof (induction ws arbitrary: i)
  case (Cons x xs)
  then show ?case by (cases i) (simp_all add: ac_simps)
qed simp

lemma nth_of_singleton: "set xs \<subseteq> {a} \<Longrightarrow> i < length xs \<Longrightarrow> xs ! i = a"
  using nth_mem [of i xs] by blast

end
