(* ===== verification/Bounded_Queue.thy ===== *)
theory Bounded_Queue
  imports Astra_Prelude
begin

text \<open>
  The contract of a bounded, blocking FIFO queue as its clients use it from one thread: the
  interface the two ring buffers of AstraLib provide and the index pool and the thread pool
  rely on. A call that would have to wait for another thread is a \<open>Spinning\<close> outcome.
\<close>

section \<open>Client loops over a queue\<close>

text \<open>A loop that enqueues the elements of a list one after the other.\<close>

fun enqueue_all :: "('a \<Rightarrow> 'q \<Rightarrow> ('q, unit) run) \<Rightarrow> 'a list \<Rightarrow> 'q \<Rightarrow> ('q, unit) run" where
  "enqueue_all enq [] q = Returned q ()"
| "enqueue_all enq (x # xs) q =
     (case enq x q of
        Returned q' _ \<Rightarrow> enqueue_all enq xs q'
      | Spinning q' \<Rightarrow> Spinning q'
      | Threw q' \<Rightarrow> Threw q')"

text \<open>A loop that dequeues \<open>n\<close> elements and collects them in order.\<close>

fun dequeue_many :: "('q \<Rightarrow> ('q, 'a) run) \<Rightarrow> nat \<Rightarrow> 'q \<Rightarrow> ('q, 'a list) run" where
  "dequeue_many deq 0 q = Returned q []"
| "dequeue_many deq (Suc n) q =
     (case deq q of
        Returned q' x \<Rightarrow>
          (case dequeue_many deq n q' of
             Returned q'' xs \<Rightarrow> Returned q'' (x # xs)
           | Spinning q'' \<Rightarrow> Spinning q''
           | Threw q'' \<Rightarrow> Threw q'')
      | Spinning q' \<Rightarrow> Spinning q'
      | Threw q' \<Rightarrow> Threw q')"

section \<open>The contract\<close>

locale bounded_queue =
  fixes enq :: "'a \<Rightarrow> 'q \<Rightarrow> ('q, unit) run"
    and deq :: "'q \<Rightarrow> ('q, 'a) run"
    and items :: "'q \<Rightarrow> 'a list"
    and cap :: "'q \<Rightarrow> nat"
    and invar :: "'q \<Rightarrow> bool"
  assumes items_bounded: "invar q \<Longrightarrow> length (items q) \<le> cap q"
    and enq_room: "invar q \<Longrightarrow> length (items q) < cap q \<Longrightarrow>
      \<exists>q'. enq x q = Returned q' () \<and> invar q' \<and> items q' = items q @ [x] \<and> cap q' = cap q"
    and enq_full: "invar q \<Longrightarrow> length (items q) = cap q \<Longrightarrow> \<exists>q'. enq x q = Spinning q'"
    and deq_item: "invar q \<Longrightarrow> items q = x # xs \<Longrightarrow>
      \<exists>q'. deq q = Returned q' x \<and> invar q' \<and> items q' = xs \<and> cap q' = cap q"
    and deq_empty: "invar q \<Longrightarrow> items q = [] \<Longrightarrow> \<exists>q'. deq q = Spinning q'"
begin

lemma enqueue_all_room:
  "invar q \<Longrightarrow> length (items q) + length xs \<le> cap q \<Longrightarrow>
    \<exists>q'. enqueue_all enq xs q = Returned q' () \<and> invar q' \<and> items q' = items q @ xs \<and> cap q' = cap q"
proof (induction xs arbitrary: q)
  case Nil
  then show ?case by simp
next
  case (Cons x xs)
  then obtain q1 where q1: "enq x q = Returned q1 ()" "invar q1" "items q1 = items q @ [x]" "cap q1 = cap q"
    using enq_room [of q x] by auto
  with Cons.prems Cons.IH [of q1] show ?case by simp
qed

lemma enqueue_all_overflow:
  "invar q \<Longrightarrow> cap q < length (items q) + length xs \<Longrightarrow> \<exists>q'. enqueue_all enq xs q = Spinning q'"
proof (induction xs arbitrary: q)
  case Nil
  with items_bounded [of q] show ?case by simp
next
  case (Cons x xs)
  show ?case
  proof (cases "length (items q) < cap q")
    case True
    with Cons.prems obtain q1 where "enq x q = Returned q1 ()" "invar q1"
      "items q1 = items q @ [x]" "cap q1 = cap q"
      using enq_room [of q x] by auto
    with Cons.prems Cons.IH [of q1] show ?thesis by simp
  next
    case False
    with Cons.prems items_bounded [of q] have "length (items q) = cap q" by simp
    with Cons.prems enq_full [of q x] show ?thesis by auto
  qed
qed

lemma dequeue_many_take:
  "invar q \<Longrightarrow> n \<le> length (items q) \<Longrightarrow>
    \<exists>q'. dequeue_many deq n q = Returned q' (take n (items q)) \<and> invar q' \<and>
      items q' = drop n (items q) \<and> cap q' = cap q"
proof (induction n arbitrary: q)
  case 0
  then show ?case by simp
next
  case (Suc n)
  then obtain x xs where xs: "items q = x # xs" by (cases "items q") auto
  with Suc.prems obtain q1 where q1: "deq q = Returned q1 x" "invar q1" "items q1 = xs" "cap q1 = cap q"
    using deq_item [of q x xs] by auto
  with xs Suc.prems Suc.IH [of q1] show ?case by auto
qed

text \<open>What goes in comes out, in order: filling an empty queue and draining it is the identity.\<close>

lemma fill_drain:
  assumes "invar q" "items q = []" "length xs \<le> cap q"
  shows "\<exists>q1 q2. enqueue_all enq xs q = Returned q1 () \<and>
    dequeue_many deq (length xs) q1 = Returned q2 xs \<and> invar q2 \<and> items q2 = []"
proof -
  from assms obtain q1 where "enqueue_all enq xs q = Returned q1 ()" "invar q1" "items q1 = xs"
    using enqueue_all_room [of q xs] by auto
  moreover from this obtain q2 where "dequeue_many deq (length xs) q1 = Returned q2 xs" "invar q2" "items q2 = []"
    using dequeue_many_take [of q1 "length xs"] by auto
  ultimately show ?thesis by blast
qed

end

end
