(* ===== verification/Atomic_Ring_Buffer.thy ===== *)
theory Atomic_Ring_Buffer
  imports Bounded_Queue
begin

text \<open>
  \<open>AtomicRingBuffer\<close> (include/AstraLib/Buffers/atomicRingBuffer.hpp): the data of the class, the
  atomic actions its operations are made of, and the operations themselves as a single thread
  runs them. The interleaved executions are in the theory \<open>Ring_Concurrent\<close>.

  Tickets and slot sequence numbers are 64-bit words: \<open>fetch_add\<close> on the \<open>int64_t\<close> atomics wraps,
  and the comparisons of the source convert the sequence number to \<open>uint64_t\<close>, so equality of
  words is equality of the source. The template parameters \<open>SIZE\<close> and \<open>BATCH_SIZE\<close> are the
  lengths of the two arrays, which no operation changes.
\<close>

section \<open>Data\<close>

record ('t, 'a) Slot =
  seq :: 't
  data :: 'a

record 'a AtomicRingBuffer =
  batchDequeueArray :: "'a list"
  buffer :: "(u64, 'a) Slot list"
  writeTicket :: u64
  readTicket :: u64

abbreviation SIZE :: "'a AtomicRingBuffer \<Rightarrow> nat" where
  "SIZE s \<equiv> length (buffer s)"

abbreviation BATCH_SIZE :: "'a AtomicRingBuffer \<Rightarrow> nat" where
  "BATCH_SIZE s \<equiv> length (batchDequeueArray s)"

text \<open>The two static assertions on \<open>SIZE\<close>, executable.\<close>

definition size_asserts :: "nat \<Rightarrow> bool" where
  "size_asserts n \<longleftrightarrow> n \<noteq> 0 \<and> n AND (n - 1) = 0 \<and> 2 \<le> n"

text \<open>
  The loop of \<open>prepareBuffer\<close> counts with an \<open>int\<close> and every operation keeps the slot index in an
  \<open>int\<close>, so a ring has fewer than \<open>2 ^ 31\<close> slots.
\<close>

definition ring_size_ok :: "nat \<Rightarrow> bool" where
  "ring_size_ok n \<longleftrightarrow> size_asserts n \<and> n < 2 ^ 31"

section \<open>Atomic actions\<close>

definition claim_write :: "'a AtomicRingBuffer \<Rightarrow> u64 \<times> 'a AtomicRingBuffer" where
  "claim_write s = (writeTicket s, s\<lparr>writeTicket := writeTicket s + 1\<rparr>)"

definition claim_read :: "'a AtomicRingBuffer \<Rightarrow> u64 \<times> 'a AtomicRingBuffer" where
  "claim_read s = (readTicket s, s\<lparr>readTicket := readTicket s + 1\<rparr>)"

text \<open>\<open>int index = ticket & (SIZE - 1)\<close>: the mask on 64 bits, then the conversion to \<open>int\<close>.\<close>

definition ring_index :: "nat \<Rightarrow> u64 \<Rightarrow> nat" where
  "ring_index n ticket = nat (sint (ucast (ticket AND (of_nat n - 1)) :: i32))"

text \<open>The exit conditions of the two busy-wait loops.\<close>

definition can_write :: "'a AtomicRingBuffer \<Rightarrow> u64 \<Rightarrow> bool" where
  "can_write s ticket \<longleftrightarrow> seq (buffer s ! ring_index (SIZE s) ticket) = ticket"

definition can_read :: "'a AtomicRingBuffer \<Rightarrow> u64 \<Rightarrow> bool" where
  "can_read s ticket \<longleftrightarrow> seq (buffer s ! ring_index (SIZE s) ticket) = ticket + 1"

definition upd_slot :: "nat \<Rightarrow> ((u64, 'a) Slot \<Rightarrow> (u64, 'a) Slot) \<Rightarrow> 'a AtomicRingBuffer \<Rightarrow> 'a AtomicRingBuffer" where
  "upd_slot i f s = s\<lparr>buffer := (buffer s)[i := f (buffer s ! i)]\<rparr>"

definition write_slot :: "u64 \<Rightarrow> 'a \<Rightarrow> 'a AtomicRingBuffer \<Rightarrow> 'a AtomicRingBuffer" where
  "write_slot ticket d s = upd_slot (ring_index (SIZE s) ticket) (\<lambda>sl. sl\<lparr>data := d\<rparr>) s"

definition publish_slot :: "u64 \<Rightarrow> 'a AtomicRingBuffer \<Rightarrow> 'a AtomicRingBuffer" where
  "publish_slot ticket s = upd_slot (ring_index (SIZE s) ticket) (\<lambda>sl. sl\<lparr>seq := ticket + 1\<rparr>) s"

text \<open>
  \<open>std::move(buffer[index].data)\<close> hands the value out and leaves the moved-from residue \<open>mv v\<close> of
  the payload type in the slot (\<open>mv\<close> is the identity for \<open>int\<close>, empty for \<open>std::function\<close>).
\<close>

definition take_slot :: "('a \<Rightarrow> 'a) \<Rightarrow> u64 \<Rightarrow> 'a AtomicRingBuffer \<Rightarrow> 'a \<times> 'a AtomicRingBuffer" where
  "take_slot mv ticket s =
     (data (buffer s ! ring_index (SIZE s) ticket),
      upd_slot (ring_index (SIZE s) ticket) (\<lambda>sl. sl\<lparr>data := mv (data sl)\<rparr>) s)"

definition release_slot :: "u64 \<Rightarrow> 'a AtomicRingBuffer \<Rightarrow> 'a AtomicRingBuffer" where
  "release_slot ticket s =
     upd_slot (ring_index (SIZE s) ticket) (\<lambda>sl. sl\<lparr>seq := ticket + of_nat (SIZE s)\<rparr>) s"

section \<open>Operations\<close>

definition prepareBuffer :: "'a AtomicRingBuffer \<Rightarrow> 'a AtomicRingBuffer" where
  "prepareBuffer s = fold (\<lambda>i. upd_slot i (\<lambda>sl. sl\<lparr>seq := of_nat i\<rparr>)) [0..<SIZE s] s"

text \<open>
  The constructor. The payload of the slots and of the batch array is default-initialised, which
  for \<open>int\<close> is indeterminate: both are arguments.
\<close>

definition new_AtomicRingBuffer :: "'a list \<Rightarrow> 'a list \<Rightarrow> 'a AtomicRingBuffer" where
  "new_AtomicRingBuffer batch ds =
     prepareBuffer \<lparr>batchDequeueArray = batch, buffer = map (\<lambda>d. \<lparr>seq = 0, data = d\<rparr>) ds,
       writeTicket = 0, readTicket = 0\<rparr>"

definition enqueue :: "'a \<Rightarrow> 'a AtomicRingBuffer \<Rightarrow> ('a AtomicRingBuffer, unit) run" where
  "enqueue d s =
     (let (ticket, s1) = claim_write s in
      if can_write s1 ticket then Returned (publish_slot ticket (write_slot ticket d s1)) ()
      else Spinning s1)"

text \<open>\<open>enqueue(const A&)\<close> copies the payload; the copy assignment may throw (\<open>None\<close>).\<close>

definition enqueue_copy :: "('a \<Rightarrow> 'a option) \<Rightarrow> 'a \<Rightarrow> 'a AtomicRingBuffer \<Rightarrow> ('a AtomicRingBuffer, unit) run" where
  "enqueue_copy copy d s =
     (let (ticket, s1) = claim_write s in
      if can_write s1 ticket then
        (case copy d of
           Some d' \<Rightarrow> Returned (publish_slot ticket (write_slot ticket d' s1)) ()
         | None \<Rightarrow> Threw s1)
      else Spinning s1)"

text \<open>
  \<open>emplaceEnqueue\<close> constructs the payload in the slot; a payload that is not trivially
  destructible is destroyed first (\<open>dead\<close> is what its storage holds then). The constructor may
  throw.
\<close>

definition emplaceEnqueue ::
  "bool \<Rightarrow> ('a \<Rightarrow> 'a) \<Rightarrow> ('args \<Rightarrow> 'a option) \<Rightarrow> 'args \<Rightarrow> 'a AtomicRingBuffer \<Rightarrow> ('a AtomicRingBuffer, unit) run" where
  "emplaceEnqueue trivially_destructible dead ctor args s =
     (let (ticket, s1) = claim_write s in
      if can_write s1 ticket then
        (let s2 = (if trivially_destructible then s1
                   else upd_slot (ring_index (SIZE s1) ticket) (\<lambda>sl. sl\<lparr>data := dead (data sl)\<rparr>) s1)
         in case ctor args of
              Some d \<Rightarrow> Returned (publish_slot ticket (write_slot ticket d s2)) ()
            | None \<Rightarrow> Threw s2)
      else Spinning s1)"

definition dequeue :: "('a \<Rightarrow> 'a) \<Rightarrow> 'a AtomicRingBuffer \<Rightarrow> ('a AtomicRingBuffer, 'a) run" where
  "dequeue mv s =
     (let (ticket, s1) = claim_read s in
      if can_read s1 ticket then
        (let (d, s2) = take_slot mv ticket s1 in Returned (release_slot ticket s2) d)
      else Spinning s1)"

definition clearBuffer :: "'a AtomicRingBuffer \<Rightarrow> 'a AtomicRingBuffer" where
  "clearBuffer s = prepareBuffer (s\<lparr>writeTicket := 0, readTicket := 0\<rparr>)"

definition isEmpty :: "'a AtomicRingBuffer \<Rightarrow> bool" where
  "isEmpty s \<longleftrightarrow> writeTicket s = readTicket s"

text \<open>
  \<open>claimPtrNoSync\<close> hands out the address of a slot's payload, here the slot number; an \<open>index\<close>
  outside the array is undefined behaviour (\<open>None\<close>). \<open>ptr_write\<close> is a store through it.
\<close>

definition claimPtrNoSync :: "i32 \<Rightarrow> 'a AtomicRingBuffer \<Rightarrow> nat option" where
  "claimPtrNoSync index s =
     (if 0 \<le> sint index \<and> sint index < int (SIZE s) then Some (nat (sint index)) else None)"

definition ptr_write :: "nat \<Rightarrow> 'a \<Rightarrow> 'a AtomicRingBuffer \<Rightarrow> 'a AtomicRingBuffer" where
  "ptr_write p d s = upd_slot p (\<lambda>sl. sl\<lparr>data := d\<rparr>) s"

text \<open>
  \<open>if (count > BATCH_SIZE) count = BATCH_SIZE\<close>: the comparison is between an \<open>int\<close> and a
  \<open>std::size_t\<close>, so \<open>count\<close> is sign-extended to 64 bits and compared unsigned.
\<close>

definition batch_count :: "nat \<Rightarrow> i32 \<Rightarrow> i32" where
  "batch_count batch cnt = (if of_nat batch < (scast cnt :: u64) then of_nat batch else cnt)"

fun batch_loop :: "('a \<Rightarrow> 'a) \<Rightarrow> nat \<Rightarrow> nat \<Rightarrow> 'a AtomicRingBuffer \<Rightarrow> ('a AtomicRingBuffer, unit) run" where
  "batch_loop mv i 0 s = Returned s ()"
| "batch_loop mv i (Suc n) s =
     (let (ticket, s1) = claim_read s in
      if can_read s1 ticket then
        (let (d, s2) = take_slot mv ticket s1;
             s3 = s2\<lparr>batchDequeueArray := (batchDequeueArray s2)[i := d]\<rparr>
         in batch_loop mv (Suc i) n (release_slot ticket s3))
      else Spinning s1)"

definition batchDequeue :: "('a \<Rightarrow> 'a) \<Rightarrow> i32 \<Rightarrow> 'a AtomicRingBuffer \<Rightarrow> ('a AtomicRingBuffer, 'a list) run" where
  "batchDequeue mv cnt s =
     (case batch_loop mv 0 (nat (sint (batch_count (BATCH_SIZE s) cnt))) s of
        Returned s' _ \<Rightarrow> Returned s' (batchDequeueArray s')
      | Spinning s' \<Rightarrow> Spinning s'
      | Threw s' \<Rightarrow> Threw s')"

section \<open>Slot indices\<close>

lemma ring_size_okE:
  assumes "ring_size_ok n"
  obtains k where "n = 2 ^ k" "1 \<le> k" "k < 31"
proof -
  from assms obtain k where k: "n = 2 ^ k"
    using and_pred_zero_pow2 [of n] by (auto simp: ring_size_ok_def size_asserts_def)
  have "(2::nat) ^ k < 2 ^ 31" "2 \<le> (2::nat) ^ k"
    using assms k by (auto simp: ring_size_ok_def size_asserts_def)
  then have "k < 31" "k \<noteq> 0" using power_less_imp_less_exp [of "2::nat" k 31] by (cases "k = 0"; auto)+
  then show ?thesis using that k by auto
qed

lemma ring_size_okD [dest]:
  assumes "ring_size_ok n"
  shows "2 \<le> n" "n < 2 ^ 31" "0 < n"
  using assms by (auto simp: ring_size_ok_def size_asserts_def)

lemma ring_index_eq:
  assumes "ring_size_ok n"
  shows "ring_index n t = unat t mod n"
proof -
  from assms obtain k where k: "n = 2 ^ k" "1 \<le> k" "k < 31" by (rule ring_size_okE)
  then have m: "unat (t AND (of_nat n - 1)) = unat t mod n"
    using unat_and_mask_pow2 [of k t] by simp
  moreover have "unat t mod n < 2 ^ 31"
    using assms by (meson mod_less_divisor order_less_trans ring_size_okD)
  ultimately show ?thesis by (simp add: ring_index_def sint_ucast_i32)
qed

lemma ring_index_less [simp]: "ring_size_ok n \<Longrightarrow> ring_index n t < n"
  by (simp add: ring_index_eq ring_size_okD)

lemma ring_index_of_nat:
  assumes "ring_size_ok n"
  shows "ring_index n (of_nat t) = t mod n"
proof -
  from assms obtain k where k: "n = 2 ^ k" "k < 31" by (rule ring_size_okE)
  then have "n dvd 2 ^ 64" using le_imp_power_dvd [of k 64 "2::nat"] by simp
  then show ?thesis using assms by (simp add: ring_index_eq unat_of_nat mod_mod_cancel)
qed

lemma ring_index_add:
  assumes "ring_size_ok n"
  shows "ring_index n (t + of_nat k) = (ring_index n t + k) mod n"
proof -
  have "t + of_nat k = of_nat (unat t + k)" by simp
  then show ?thesis
    using assms by (metis mod_add_left_eq ring_index_eq ring_index_of_nat)
qed

lemma ring_index_add_inj:
  assumes "ring_size_ok n" "i < n" "j < n"
  shows "ring_index n (t + of_nat i) = ring_index n (t + of_nat j) \<longleftrightarrow> i = j"
  using assms by (simp add: ring_index_add add_mod_eq_iff)

section \<open>The representation invariant\<close>

definition fill :: "'a AtomicRingBuffer \<Rightarrow> nat" where
  "fill s = unat (writeTicket s - readTicket s)"

definition slot_at :: "'a AtomicRingBuffer \<Rightarrow> nat \<Rightarrow> (u64, 'a) Slot" where
  "slot_at s k = buffer s ! ring_index (SIZE s) (readTicket s + of_nat k)"

definition ring_inv :: "'a AtomicRingBuffer \<Rightarrow> bool" where
  "ring_inv s \<longleftrightarrow> ring_size_ok (SIZE s) \<and> fill s \<le> SIZE s \<and>
     (\<forall>k < SIZE s. seq (slot_at s k) = readTicket s + of_nat k + (if k < fill s then 1 else 0))"

definition contents :: "'a AtomicRingBuffer \<Rightarrow> 'a list" where
  "contents s = map (\<lambda>k. data (slot_at s k)) [0..<fill s]"

lemma length_contents [simp]: "length (contents s) = fill s"
  by (simp add: contents_def)

lemma SIZE_upd_slot [simp]: "length (buffer (upd_slot i f s)) = SIZE s"
  by (simp add: upd_slot_def)

lemma upd_slot_simps [simp]:
  "writeTicket (upd_slot i f s) = writeTicket s"
  "readTicket (upd_slot i f s) = readTicket s"
  "batchDequeueArray (upd_slot i f s) = batchDequeueArray s"
  by (simp_all add: upd_slot_def)

lemma writeTicket_eq: "writeTicket s = readTicket s + of_nat (fill s)"
  by (simp add: fill_def)

lemma Slot_update_both [simp]: "sl\<lparr>data := d, seq := t\<rparr> = \<lparr>seq = t, data = d\<rparr>"
  for sl :: "('t, 'a) Slot"
  by (cases sl) simp

lemma upd_slot_upd_slot: "i < SIZE s \<Longrightarrow> upd_slot i f (upd_slot i g s) = upd_slot i (\<lambda>sl. f (g sl)) s"
  by (simp add: upd_slot_def)

lemmas enqueue_defs = claim_write_def can_write_def write_slot_def publish_slot_def
lemmas dequeue_defs = claim_read_def can_read_def take_slot_def release_slot_def

lemma enqueue_step:
  fixes s :: "'a AtomicRingBuffer" and d :: 'a
  assumes "ring_inv s" "fill s < SIZE s"
  defines "i \<equiv> ring_index (SIZE s) (writeTicket s)"
  defines "s' \<equiv> s\<lparr>writeTicket := writeTicket s + 1, buffer := (buffer s)[i := \<lparr>seq = writeTicket s + 1, data = d\<rparr>]\<rparr>"
  shows "can_write (snd (claim_write s)) (writeTicket s)"
    and "publish_slot (writeTicket s) (write_slot (writeTicket s) d (snd (claim_write s))) = s'"
    and "ring_inv s'" and "contents s' = contents s @ [d]" 
proof -
  have ok: "ring_size_ok (SIZE s)" using assms(1) by (simp add: ring_inv_def)
  have seq: "seq (slot_at s (fill s)) = writeTicket s"
    using assms(1,2) by (simp add: ring_inv_def writeTicket_eq)
  have il: "i < SIZE s" using ok by (simp add: i_def)
  show "can_write (snd (claim_write s)) (writeTicket s)"
    using seq by (simp add: can_write_def claim_write_def slot_at_def writeTicket_eq)
  show "publish_slot (writeTicket s) (write_slot (writeTicket s) d (snd (claim_write s))) = s'"
    using il by (simp add: enqueue_defs upd_slot_def s'_def flip: i_def)
  have "fill s < 2 ^ 31" using ok assms(2) by (meson order_less_trans ring_size_okD(2))
  then have f: "fill s' = Suc (fill s)"
  proof -
    have "writeTicket s' - readTicket s' = of_nat (Suc (fill s))"
      by (simp add: s'_def writeTicket_eq [of s])
    then show ?thesis using \<open>fill s < 2 ^ 31\<close> by (simp add: fill_def unat_of_nat del: of_nat_Suc)
  qed
  have at: "slot_at s' k = (if k = fill s then \<lparr>seq = writeTicket s + 1, data = d\<rparr> else slot_at s k)"
    if "k < SIZE s" for k
  proof -
    have "ring_index (SIZE s) (readTicket s + of_nat k) = i \<longleftrightarrow> k = fill s"
      unfolding i_def writeTicket_eq using ring_index_add_inj [OF ok that assms(2)] .
    then show ?thesis using il by (auto simp: slot_at_def s'_def nth_list_update)
  qed
  show "ring_inv s'"
    using assms(1,2) ok f at by (auto simp: ring_inv_def s'_def writeTicket_eq [of s])
  show "contents s' = contents s @ [d]"
    using assms(2) f at by (simp add: contents_def)
qed


lemma dequeue_step:
  fixes s :: "'a AtomicRingBuffer" and mv :: "'a \<Rightarrow> 'a"
  assumes "ring_inv s" "0 < fill s"
  defines "i \<equiv> ring_index (SIZE s) (readTicket s)"
  defines "s' \<equiv> s\<lparr>readTicket := readTicket s + 1, buffer := (buffer s)[i :=
      \<lparr>seq = readTicket s + of_nat (SIZE s), data = mv (data (slot_at s 0))\<rparr>]\<rparr>"
  shows "can_read (snd (claim_read s)) (readTicket s)"
    and "fst (take_slot mv (readTicket s) (snd (claim_read s))) = hd (contents s)"
    and "release_slot (readTicket s) (snd (take_slot mv (readTicket s) (snd (claim_read s)))) = s'"
    and "ring_inv s'" and "contents s' = tl (contents s)"
proof -
  have ok: "ring_size_ok (SIZE s)" and le: "fill s \<le> SIZE s" using assms(1) by (auto simp: ring_inv_def)
  have seq: "seq (slot_at s 0) = readTicket s + 1"
    using assms(1,2) by (auto simp: ring_inv_def)
  have il: "i < SIZE s" using ok by (simp add: i_def)
  have i0: "buffer s ! i = slot_at s 0" by (simp add: slot_at_def i_def)
  show "can_read (snd (claim_read s)) (readTicket s)"
    using seq i0 by (simp add: can_read_def claim_read_def i_def)
  have hd: "hd (contents s) = data (slot_at s 0)"
    using assms(2) by (simp add: contents_def upt_conv_Cons)
  show "fst (take_slot mv (readTicket s) (snd (claim_read s))) = hd (contents s)"
    using i0 hd by (simp add: take_slot_def claim_read_def i_def)
  show "release_slot (readTicket s) (snd (take_slot mv (readTicket s) (snd (claim_read s)))) = s'"
    using il i0 by (simp add: dequeue_defs upd_slot_def s'_def flip: i_def)
  have f: "fill s' = fill s - 1"
  proof -
    have "writeTicket s' - readTicket s' = of_nat (fill s - 1)"
      using assms(2) by (simp add: s'_def writeTicket_eq [of s])
    moreover have "fill s - 1 < 2 ^ 64" using ok le ring_size_okD(2) [OF ok] by simp
    ultimately show ?thesis by (simp add: fill_def unat_of_nat)
  qed
  have at: "slot_at s' k = (if Suc k = SIZE s then
      \<lparr>seq = readTicket s + of_nat (SIZE s), data = mv (data (slot_at s 0))\<rparr> else slot_at s (Suc k))"
    if "k < SIZE s" for k
  proof -
    have "ring_index (SIZE s) (readTicket s + of_nat (Suc k)) = i \<longleftrightarrow> Suc k = SIZE s"
    proof (cases "Suc k = SIZE s")
      case True
      then show ?thesis using ok by (simp add: i_def ring_index_add del: of_nat_Suc)
    next
      case False
      then show ?thesis
        using that ring_index_add_inj [OF ok, of "Suc k" 0 "readTicket s"] ring_size_okD(3) [OF ok]
        by (simp add: i_def del: length_greater_0_conv)
    qed
    then show ?thesis using il by (auto simp: slot_at_def s'_def nth_list_update add.assoc)
  qed
  have "seq (slot_at s' k) = readTicket s' + of_nat k + (if k < fill s' then 1 else 0)" if "k < SIZE s'" for k
  proof -
    have k: "k < SIZE s" using that by (simp add: s'_def)
    show ?thesis
    proof (cases "Suc k = SIZE s")
      case True
      then have "of_nat (SIZE s) = (1 + of_nat k :: u64)" by (metis of_nat_Suc)
      with True le f at [OF k] show ?thesis by (simp add: s'_def)
    next
      case False
      then have "Suc k < SIZE s" using k by simp
      then have "seq (slot_at s (Suc k)) = readTicket s + of_nat (Suc k) + (if Suc k < fill s then 1 else 0)"
        using assms(1) by (simp add: ring_inv_def)
      moreover have "k < fill s - 1 \<longleftrightarrow> Suc k < fill s" by auto
      ultimately show ?thesis using False at [OF k] f by (simp add: s'_def)
    qed
  qed
  then show "ring_inv s'"
    using ok f le by (auto simp: ring_inv_def s'_def)
  have "contents s' = map (\<lambda>k. data (slot_at s (Suc k))) [0..<fill s - 1]"
    unfolding contents_def f by (rule map_cong) (use le assms(2) at in auto)
  also have "\<dots> = tl (contents s)"
    by (rule nth_equalityI) (simp_all add: contents_def nth_tl less_diff_conv)
  finally show "contents s' = tl (contents s)" .
qed


section \<open>Operations against the FIFO contract\<close>

lemma enqueue_room:
  assumes "ring_inv s" "fill s < SIZE s"
  shows "\<exists>s'. enqueue d s = Returned s' () \<and> ring_inv s' \<and> contents s' = contents s @ [d] \<and> SIZE s' = SIZE s"
  using enqueue_step [OF assms] by (simp add: enqueue_def split_def claim_write_def)

lemma full_cannot_write:
  assumes "ring_inv s" "fill s = SIZE s"
  shows "\<not> can_write (snd (claim_write s)) (writeTicket s)"
proof -
  have ok: "ring_size_ok (SIZE s)" and sq: "seq (slot_at s 0) = readTicket s + 1"
    using assms by (auto simp: ring_inv_def)
  have "ring_index (SIZE s) (writeTicket s) = ring_index (SIZE s) (readTicket s + of_nat 0)"
    using ok assms(2) by (simp add: writeTicket_eq ring_index_add)
  then have "can_write (snd (claim_write s)) (writeTicket s) \<longleftrightarrow> readTicket s + 1 = writeTicket s"
    using sq by (simp add: can_write_def claim_write_def slot_at_def)
  also have "\<dots> \<longleftrightarrow> (of_nat 1 :: u64) = of_nat (SIZE s)"
    using assms(2) by (simp add: writeTicket_eq)
  also have "\<dots> \<longleftrightarrow> False"
  proof -
    have "SIZE s - 1 < 2 ^ LENGTH(64)" using ring_size_okD(2) [OF ok] by simp
    then show ?thesis
      using of_nat_word_inject_close [of 1 "SIZE s", where 'a = 64] ring_size_okD(1) [OF ok] by force
  qed
  finally show ?thesis by simp
qed

lemma enqueue_full:
  assumes "ring_inv s" "fill s = SIZE s"
  shows "enqueue d s = Spinning (snd (claim_write s))"
  using full_cannot_write [OF assms] by (simp add: enqueue_def split_def claim_write_def)

lemma dequeue_item:
  assumes "ring_inv s" "contents s = x # xs"
  shows "\<exists>s'. dequeue mv s = Returned s' x \<and> ring_inv s' \<and> contents s' = xs \<and> SIZE s' = SIZE s"
proof -
  have "0 < fill s" using assms(2) by (metis length_contents length_greater_0_conv list.discI)
  from dequeue_step(1) [OF assms(1) this] dequeue_step(2-5) [OF assms(1) this, where mv = mv] assms(2)
  show ?thesis
    by (simp add: dequeue_def split_def claim_read_def)
qed

lemma empty_cannot_read:
  assumes "ring_inv s" "fill s = 0"
  shows "\<not> can_read (snd (claim_read s)) (readTicket s)"
proof -
  have "0 < SIZE s" using assms(1) by (auto simp: ring_inv_def)
  then have "seq (slot_at s 0) = readTicket s"
    using assms by (auto simp: ring_inv_def)
  then show ?thesis by (simp add: can_read_def claim_read_def slot_at_def)
qed

lemma dequeue_empty:
  assumes "ring_inv s" "contents s = []"
  shows "dequeue mv s = Spinning (snd (claim_read s))"
proof -
  have "fill s = 0" using assms(2) by (metis length_contents list.size(3))
  with empty_cannot_read [OF assms(1)] show ?thesis
    by (simp add: dequeue_def split_def claim_read_def)
qed

interpretation arb: bounded_queue enqueue "dequeue mv" contents "\<lambda>s. SIZE s" ring_inv
  for mv :: "'a \<Rightarrow> 'a"
proof unfold_locales
  show "ring_inv q \<Longrightarrow> length (contents q) \<le> SIZE q" for q :: "'a AtomicRingBuffer"
    by (simp add: ring_inv_def)
qed (simp_all add: enqueue_room enqueue_full dequeue_item dequeue_empty)

lemma prepareBuffer_seq:
  "buffer (prepareBuffer s) = map (\<lambda>i. \<lparr>seq = of_nat i, data = data (buffer s ! i)\<rparr>) [0..<SIZE s]"
  "writeTicket (prepareBuffer s) = writeTicket s" "readTicket (prepareBuffer s) = readTicket s"
  "batchDequeueArray (prepareBuffer s) = batchDequeueArray s"
proof -
  have loop: "n \<le> SIZE s \<Longrightarrow>
      fold (\<lambda>i. upd_slot i (\<lambda>sl. sl\<lparr>seq := of_nat i\<rparr>)) [0..<n] s =
      s\<lparr>buffer := map (\<lambda>i. \<lparr>seq = of_nat i, data = data (buffer s ! i)\<rparr>) [0..<n] @ drop n (buffer s)\<rparr>" for n
  proof (induction n)
    case (Suc n)
    have "(buffer s ! n)\<lparr>seq := of_nat n\<rparr> = \<lparr>seq = of_nat n, data = data (buffer s ! n)\<rparr>"
      by (cases "buffer s ! n") simp
    with Suc show ?case
      by (simp add: upd_slot_def nth_append list_update_append Cons_nth_drop_Suc [symmetric])
  qed simp
  show "buffer (prepareBuffer s) = map (\<lambda>i. \<lparr>seq = of_nat i, data = data (buffer s ! i)\<rparr>) [0..<SIZE s]"
    "writeTicket (prepareBuffer s) = writeTicket s" "readTicket (prepareBuffer s) = readTicket s"
    "batchDequeueArray (prepareBuffer s) = batchDequeueArray s"
    by (simp_all add: prepareBuffer_def loop)
qed

lemma prepared_inv:
  assumes "ring_size_ok (SIZE s)" "writeTicket s = 0" "readTicket s = 0"
  shows "ring_inv (prepareBuffer s)" "contents (prepareBuffer s) = []"
proof -
  have "fill (prepareBuffer s) = 0" by (simp add: fill_def prepareBuffer_seq assms)
  then show "ring_inv (prepareBuffer s)" "contents (prepareBuffer s) = []"
    using assms by (simp_all add: ring_inv_def contents_def slot_at_def prepareBuffer_seq ring_index_of_nat)
qed

lemma new_AtomicRingBuffer_inv:
  assumes "ring_size_ok (length ds)"
  shows "ring_inv (new_AtomicRingBuffer batch ds)" "contents (new_AtomicRingBuffer batch ds) = []"
    "SIZE (new_AtomicRingBuffer batch ds) = length ds"
  using assms by (simp_all add: new_AtomicRingBuffer_def prepareBuffer_seq prepared_inv)

lemma clearBuffer_inv:
  assumes "ring_size_ok (SIZE s)"
  shows "ring_inv (clearBuffer s)" "contents (clearBuffer s) = []" "SIZE (clearBuffer s) = SIZE s"
  using assms by (simp_all add: clearBuffer_def prepareBuffer_seq prepared_inv)

lemma isEmpty_contents:
  assumes "ring_inv s"
  shows "isEmpty s \<longleftrightarrow> contents s = []"
proof -
  have "isEmpty s \<longleftrightarrow> fill s = 0" by (simp add: isEmpty_def fill_def unat_eq_zero)
  then show ?thesis by (metis length_0_conv length_contents)
qed

section \<open>Batches\<close>

lemma ring_inv_batch [simp]:
  "ring_inv (s\<lparr>batchDequeueArray := b\<rparr>) = ring_inv s"
  "contents (s\<lparr>batchDequeueArray := b\<rparr>) = contents s"
  by (simp_all add: ring_inv_def contents_def fill_def slot_at_def)

lemma release_slot_batch:
  "release_slot t (s\<lparr>batchDequeueArray := b\<rparr>) = (release_slot t s)\<lparr>batchDequeueArray := b\<rparr>"
  by (simp add: release_slot_def upd_slot_def)

lemma batch_loop_Suc:
  assumes "ring_inv s" "0 < fill s"
  shows "\<exists>s'. batch_loop mv i (Suc n) s =
      batch_loop mv (Suc i) n (s'\<lparr>batchDequeueArray := (batchDequeueArray s)[i := hd (contents s)]\<rparr>) \<and>
    ring_inv s' \<and> contents s' = tl (contents s) \<and> SIZE s' = SIZE s"
proof -
  note st = dequeue_step(1) [OF assms] dequeue_step(2-5) [OF assms, where mv = mv]
  have "batchDequeueArray (snd (take_slot mv t (snd (claim_read s)))) = batchDequeueArray s" for t
    by (simp add: take_slot_def claim_read_def)
  with st show ?thesis
    by (intro exI [of _ "release_slot (readTicket s) (snd (take_slot mv (readTicket s) (snd (claim_read s))))"])
      (simp add: split_def claim_read_def release_slot_batch)
qed

lemma batch_loop_spec:
  "ring_inv s \<Longrightarrow> n \<le> fill s \<Longrightarrow> i + n \<le> BATCH_SIZE s \<Longrightarrow>
    \<exists>s'. batch_loop mv i n s = Returned s' () \<and> ring_inv s' \<and> contents s' = drop n (contents s) \<and>
      batchDequeueArray s' = take i (batchDequeueArray s) @ take n (contents s) @ drop (i + n) (batchDequeueArray s)"
proof (induction n arbitrary: i s)
  case 0
  then show ?case by simp
next
  case (Suc n)
  then have pos: "0 < fill s" by simp
  from batch_loop_Suc [OF Suc.prems(1) pos, of mv i n] obtain s1 where
    s1: "batch_loop mv i (Suc n) s =
      batch_loop mv (Suc i) n (s1\<lparr>batchDequeueArray := (batchDequeueArray s)[i := hd (contents s)]\<rparr>)"
    "ring_inv s1" "contents s1 = tl (contents s)" by auto
  let ?s1 = "s1\<lparr>batchDequeueArray := (batchDequeueArray s)[i := hd (contents s)]\<rparr>"
  have "fill s1 = fill s - 1" using s1(3) by (metis length_contents length_tl)
  with Suc.prems have "n \<le> fill ?s1" "Suc i + n \<le> BATCH_SIZE ?s1"
    by (auto simp: fill_def)
  with Suc.IH [of ?s1 "Suc i"] s1 obtain s' where
    s': "batch_loop mv i (Suc n) s = Returned s' ()" "ring_inv s'" "contents s' = drop n (tl (contents s))"
    "batchDequeueArray s' = take (Suc i) ((batchDequeueArray s)[i := hd (contents s)]) @
       take n (tl (contents s)) @ drop (Suc i + n) ((batchDequeueArray s)[i := hd (contents s)])"
    by auto
  obtain x xs where x: "contents s = x # xs" using pos by (metis length_contents length_greater_0_conv list.exhaust)
  with s' Suc.prems(3) show ?case by (simp add: take_Suc_conv_app_nth)
qed

lemma batch_loop_short:
  "ring_inv s \<Longrightarrow> fill s < n \<Longrightarrow> \<exists>s'. batch_loop mv i n s = Spinning s'"
proof (induction n arbitrary: i s)
  case 0
  then show ?case by simp
next
  case (Suc n)
  show ?case
  proof (cases "fill s = 0")
    case True
    with empty_cannot_read [OF Suc.prems(1)] show ?thesis by (simp add: split_def claim_read_def)
  next
    case False
    with batch_loop_Suc [OF Suc.prems(1), of mv i n] obtain s1 where
      s1: "batch_loop mv i (Suc n) s =
        batch_loop mv (Suc i) n (s1\<lparr>batchDequeueArray := (batchDequeueArray s)[i := hd (contents s)]\<rparr>)"
      "ring_inv s1" "contents s1 = tl (contents s)" by auto
    have "fill s1 = fill s - 1" using s1(3) by (metis length_contents length_tl)
    with Suc.prems False have "fill (s1\<lparr>batchDequeueArray := (batchDequeueArray s)[i := hd (contents s)]\<rparr>) < n"
      by (simp add: fill_def)
    with Suc.IH s1 show ?thesis by simp
  qed
qed

lemma uint_scast_u64:
  fixes c :: i32
  shows "uint (scast c :: u64) = (if 0 \<le> sint c then sint c else sint c + 2 ^ 64)"
proof -
  have r: "- (2 ^ 31) \<le> sint c" "sint c < 2 ^ 31"
    using sint_range_size [of c] by (simp_all add: word_size)
  have "uint (scast c :: u64) = sint c mod 2 ^ 64"
    by (subst scast_eq, subst uint_word_of_int) simp
  moreover have "sint c mod 2 ^ 64 = sint c + 2 ^ 64" if "sint c < 0"
    using r that mod_pos_pos_trivial [of "sint c + 2 ^ 64" "2 ^ 64"] by simp
  moreover have "sint c mod 2 ^ 64 = sint c" if "0 \<le> sint c"
    using r that by (intro mod_pos_pos_trivial) auto
  ultimately show ?thesis by auto
qed

lemma batch_count_nonneg:
  assumes "0 \<le> sint c" "b < 2 ^ 31"
  shows "nat (sint (batch_count b c)) = min (nat (sint c)) b"
proof -
  have "uint (of_nat b :: u64) = int b" using assms(2) by (simp add: uint_nat unat_of_nat)
  then have "(of_nat b :: u64) < scast c \<longleftrightarrow> int b < sint c"
    using assms(1) by (simp add: word_less_def uint_scast_u64)
  then show ?thesis using assms by (simp add: batch_count_def sint_of_nat_i32)
qed

lemma batch_count_negative:
  assumes "sint c < 0" "b < 2 ^ 31"
  shows "batch_count b c = of_nat b"
proof -
  have "- (2 ^ 31) \<le> sint c" using sint_range_size [of c] by (simp add: word_size)
  moreover have "uint (of_nat b :: u64) = int b" using assms(2) by (simp add: uint_nat unat_of_nat)
  ultimately have "(of_nat b :: u64) < scast c"
    using assms by (simp add: word_less_def uint_scast_u64)
  then show ?thesis by (simp add: batch_count_def)
qed

section \<open>Properties\<close>

text \<open>A ring of two slots and a batch array of two, the concrete instance of the witnesses.\<close>

definition ring2 :: "int AtomicRingBuffer" where
  "ring2 = new_AtomicRingBuffer [0, 0] [7, 7]"

lemma ring_size_ok_2 [simp]: "ring_size_ok 2" "ring_size_ok (Suc (Suc 0))"
  by (simp_all add: ring_size_ok_def size_asserts_def numeral_2_eq_2 [symmetric] del: One_nat_def)

lemma ring2_inv [simp]: "ring_inv ring2" "contents ring2 = []" "SIZE ring2 = 2" "fill ring2 = 0"
  "BATCH_SIZE ring2 = 2"
proof -
  show "ring_inv ring2" "contents ring2 = []" "SIZE ring2 = 2"
    by (simp_all add: ring2_def new_AtomicRingBuffer_inv)
  then show "fill ring2 = 0" by (metis length_contents list.size(3))
  show "BATCH_SIZE ring2 = 2" by (simp add: ring2_def new_AtomicRingBuffer_def prepareBuffer_seq)
qed

text \<open>C31: Slot indices. Whatever 64-bit value a ticket has, also after the ticket counter wrapped
  round, the \<open>int\<close> index computed by \<open>ticket & (SIZE - 1)\<close> is a valid slot number, and consecutive
  tickets use consecutive slots modulo \<open>SIZE\<close>.\<close>

theorem ring_index_in_range:
  assumes "ring_size_ok n"
  shows "ring_index n t < n \<and> ring_index n (t + 1) = (ring_index n t + 1) mod n"
  using ring_index_less [OF assms, of t] ring_index_add [OF assms, of t 1] by simp

theorem ring_index_in_range_witness:
  "ring_index 2 (- 1) < 2 \<and> ring_index 2 (- 1 + 1) = (ring_index 2 (- 1) + 1) mod 2"
  using ring_index_in_range [OF ring_size_ok_2(1), of "- 1"] by simp

text \<open>C19: \<open>enqueue\<close> and \<open>dequeue\<close> refine the bounded FIFO queue on all branches: with a free slot \<open>enqueue\<close> returns and
  appends the element, on a full ring it never leaves its busy-wait loop; \<open>dequeue\<close> returns the oldest element and removes it, on an
  empty ring it never leaves its busy-wait loop.\<close>

theorem ring_refines_fifo:
  assumes "ring_inv s"
  shows "(if length (contents s) < SIZE s
          then \<exists>s'. enqueue d s = Returned s' () \<and> ring_inv s' \<and> contents s' = contents s @ [d] \<and> SIZE s' = SIZE s
          else \<exists>s'. enqueue d s = Spinning s') \<and>
    (case contents s of
      [] \<Rightarrow> \<exists>s'. dequeue mv s = Spinning s'
    | x # xs \<Rightarrow> \<exists>s'. dequeue mv s = Returned s' x \<and> ring_inv s' \<and> contents s' = xs \<and> SIZE s' = SIZE s)"
proof
  have "length (contents s) \<le> SIZE s" using assms by (rule arb.items_bounded)
  then show "if length (contents s) < SIZE s
      then \<exists>s'. enqueue d s = Returned s' () \<and> ring_inv s' \<and> contents s' = contents s @ [d] \<and> SIZE s' = SIZE s
      else \<exists>s'. enqueue d s = Spinning s'"
    using arb.enq_room [OF assms] arb.enq_full [OF assms] by auto
  show "case contents s of
      [] \<Rightarrow> \<exists>s'. dequeue mv s = Spinning s'
    | x # xs \<Rightarrow> \<exists>s'. dequeue mv s = Returned s' x \<and> ring_inv s' \<and> contents s' = xs \<and> SIZE s' = SIZE s"
    using arb.deq_item [OF assms] arb.deq_empty [OF assms] by (cases "contents s") auto
qed

theorem ring_refines_fifo_witness:
  "(\<exists>s'. enqueue 5 ring2 = Returned s' () \<and> contents s' = [5]) \<and> (\<exists>s'. dequeue id ring2 = Spinning s')"
  using ring_refines_fifo [OF ring2_inv(1), of 5 id] by auto

text \<open>C21: Round trip. Up to \<open>SIZE\<close> elements enqueued into a newly constructed ring are dequeued again in
  the same order, and the ring is empty afterwards.\<close>

theorem fill_then_drain:
  assumes "ring_size_ok (length ds)" "length xs \<le> length ds"
  shows "\<exists>s1 s2. enqueue_all enqueue xs (new_AtomicRingBuffer batch ds) = Returned s1 () \<and>
    dequeue_many (dequeue mv) (length xs) s1 = Returned s2 xs \<and> ring_inv s2 \<and> isEmpty s2"
proof -
  note new = new_AtomicRingBuffer_inv [OF assms(1), of batch]
  from arb.fill_drain [OF new(1,2), of xs mv] assms(2) new(3)
  show ?thesis by (metis isEmpty_contents)
qed

theorem fill_then_drain_witness:
  "\<exists>s1 s2. enqueue_all enqueue [3, 4] (new_AtomicRingBuffer [] [0, 0 :: int]) = Returned s1 () \<and>
    dequeue_many (dequeue id) (length [3, 4 :: int]) s1 = Returned s2 [3, 4] \<and> ring_inv s2 \<and> isEmpty s2"
  by (rule fill_then_drain) simp_all

text \<open>C22: \<open>batchDequeue\<close> with a non-negative count. It takes \<open>min count BATCH_SIZE\<close> elements, stores them at the
  front of the batch array in queue order, keeps the rest of the array, and spins when the ring
  holds fewer.\<close>

theorem batchDequeue_spec:
  assumes "ring_inv s" "0 \<le> sint cnt" "BATCH_SIZE s < 2 ^ 31"
  defines "n \<equiv> min (nat (sint cnt)) (BATCH_SIZE s)"
  shows "(n \<le> length (contents s) \<longrightarrow>
      (\<exists>s'. batchDequeue mv cnt s =
          Returned s' (take n (contents s) @ drop n (batchDequeueArray s)) \<and>
        ring_inv s' \<and> contents s' = drop n (contents s)))
    \<and> (\<not> n \<le> length (contents s) \<longrightarrow> (\<exists>s'. batchDequeue mv cnt s = Spinning s'))"
proof -
  have n: "nat (sint (batch_count (BATCH_SIZE s) cnt)) = n"
    using batch_count_nonneg [OF assms(2,3)] by (simp add: n_def)
  moreover have "n \<le> BATCH_SIZE s" by (simp add: n_def)
  ultimately show ?thesis
    using batch_loop_spec [OF assms(1), of n 0 mv] batch_loop_short [OF assms(1), of n mv 0]
    by (auto simp: batchDequeue_def simp flip: n_def)
qed

theorem batchDequeue_spec_witness: "\<exists>s'. batchDequeue id 5 ring2 = Spinning s'"
  using batchDequeue_spec [of ring2 5 id] by simp

text \<open>The same ring filled with two elements.\<close>

definition ring2_full :: "int AtomicRingBuffer" where
  "ring2_full = (case enqueue_all enqueue [3, 4] ring2 of Returned s _ \<Rightarrow> s | _ \<Rightarrow> ring2)"

lemma ring2_full_inv [simp]: "ring_inv ring2_full" "contents ring2_full = [3, 4]"
  using arb.enqueue_all_room [OF ring2_inv(1), of "[3, 4]"] by (auto simp: ring2_full_def)

lemma enqueue_batch: "enqueue d s = Returned s' u \<Longrightarrow> batchDequeueArray s' = batchDequeueArray s"
  by (auto simp: enqueue_def Let_def split_def enqueue_defs split: if_splits)

lemma ring2_full_batch [simp]: "BATCH_SIZE ring2_full = 2"
  by (auto simp: ring2_full_def split: run.splits) (metis enqueue_batch ring2_inv(5))

text \<open>A negative count does not dequeue nothing: the mixed-sign comparison replaces it by
  \<open>BATCH_SIZE\<close>, so the call takes a whole batch.\<close>

theorem batchDequeue_negative_takes_full_batch:
  assumes "ring_inv s" "sint cnt < 0" "BATCH_SIZE s < 2 ^ 31" "BATCH_SIZE s \<le> length (contents s)"
  shows "\<exists>s'. batchDequeue mv cnt s = Returned s' (take (BATCH_SIZE s) (contents s)) \<and>
    ring_inv s' \<and> contents s' = drop (BATCH_SIZE s) (contents s)"
proof -
  have "nat (sint (batch_count (BATCH_SIZE s) cnt)) = BATCH_SIZE s"
    using batch_count_negative [OF assms(2,3)] assms(3) by (simp add: sint_of_nat_i32)
  then show ?thesis
    using batch_loop_spec [OF assms(1), of "BATCH_SIZE s" 0 mv] assms(4) by (auto simp: batchDequeue_def)
qed

theorem batchDequeue_negative_takes_full_batch_witness:
  "\<exists>s'. batchDequeue id (- 1) ring2_full = Returned s' [3, 4] \<and> ring_inv s' \<and> contents s' = []"
  using batchDequeue_negative_takes_full_batch [of ring2_full "- 1" id] by simp

text \<open>\<open>clearBuffer\<close> makes any ring usable again, whatever state it is in (in particular after calls
  that were abandoned while spinning): the invariant holds and the ring is empty.\<close>

theorem clearBuffer_resets:
  assumes "ring_size_ok (SIZE s)"
  shows "ring_inv (clearBuffer s) \<and> contents (clearBuffer s) = [] \<and> isEmpty (clearBuffer s) \<and>
    SIZE (clearBuffer s) = SIZE s"
  using clearBuffer_inv [OF assms] isEmpty_contents by blast

theorem clearBuffer_resets_witness:
  "ring_inv (clearBuffer ring2_full) \<and> contents (clearBuffer ring2_full) = [] \<and>
    isEmpty (clearBuffer ring2_full) \<and> SIZE (clearBuffer ring2_full) = SIZE ring2_full"
  by (rule clearBuffer_resets) (use ring2_full_inv(1) in \<open>simp add: ring_inv_def\<close>)

text \<open>\<open>isEmpty\<close> tells the truth on a ring no consumer waits on, but a consumer that waits on an empty
  ring has already advanced the read ticket, and then \<open>isEmpty\<close> answers false although the ring
  holds nothing.\<close>

theorem isEmpty_with_waiting_consumer:
  assumes "ring_inv s"
  shows "(isEmpty s \<longleftrightarrow> contents s = []) \<and>
    (contents s = [] \<longrightarrow> (\<exists>s'. dequeue mv s = Spinning s' \<and> \<not> isEmpty s'))"
proof -
  have "\<not> isEmpty (snd (claim_read s))" if "contents s = []"
    using isEmpty_contents [OF assms] that by (simp add: isEmpty_def claim_read_def)
  then show ?thesis using isEmpty_contents [OF assms] dequeue_empty [OF assms] by blast
qed

theorem isEmpty_with_waiting_consumer_witness:
  "isEmpty ring2 \<and> (\<exists>s'. dequeue id ring2 = Spinning s' \<and> \<not> isEmpty s')"
  using isEmpty_with_waiting_consumer [OF ring2_inv(1), of id] by simp

text \<open>C23: \<open>enqueue(const A&)\<close> and \<open>emplaceEnqueue\<close> do what \<open>enqueue(A&&)\<close> does with the copied or constructed
  value, for trivially destructible payloads and others, as long as the copy or the constructor
  does not throw.\<close>

theorem enqueue_variants_agree:
  assumes "ring_inv s" "copy d = Some d'" "ctor args = Some d'"
  shows "enqueue_copy copy d s = enqueue d' s \<and> emplaceEnqueue td dead ctor args s = enqueue d' s"
proof -
  have "ring_index (SIZE s) (writeTicket s) < SIZE s"
    using assms(1) by (simp add: ring_inv_def)
  then show ?thesis
    using assms(2,3)
    by (simp add: enqueue_copy_def emplaceEnqueue_def enqueue_def split_def Let_def enqueue_defs upd_slot_upd_slot)
qed

theorem enqueue_variants_agree_witness:
  "enqueue_copy Some 5 ring2 = enqueue 5 ring2 \<and>
    emplaceEnqueue False (\<lambda>_. 0) (\<lambda>(x, y). Some (x + y)) (2, 3) ring2 = enqueue 5 ring2"
  by (rule enqueue_variants_agree) simp_all




text \<open>Wiring slots through \<open>claimPtrNoSync\<close> before use changes neither the tickets nor the sequence
  numbers: the ring stays valid and empty, and an index outside the array is the only failure.\<close>

theorem claimPtrNoSync_preserves_ring:
  assumes "ring_inv s" "contents s = []"
  shows "case claimPtrNoSync index s of
      Some p \<Rightarrow> data (buffer (ptr_write p d s) ! p) = d \<and> ring_inv (ptr_write p d s) \<and> contents (ptr_write p d s) = []
    | None \<Rightarrow> sint index < 0 \<or> int (SIZE s) \<le> sint index"
proof -
  have f0: "fill s = 0" using assms(2) by (metis length_contents list.size(3))
  have "ring_inv (ptr_write p d s) \<and> contents (ptr_write p d s) = []" for p
  proof -
    have "fill (ptr_write p d s) = 0" using f0 by (simp add: fill_def ptr_write_def)
    moreover have "seq (slot_at (ptr_write p d s) k) = seq (slot_at s k)" for k
      by (cases "p < SIZE s") (simp_all add: slot_at_def ptr_write_def upd_slot_def nth_list_update list_update_beyond)
    ultimately show ?thesis using assms(1) f0 by (simp add: ring_inv_def contents_def ptr_write_def)
  qed
  then show ?thesis
    by (auto simp: claimPtrNoSync_def ptr_write_def upd_slot_def nat_less_iff)
qed

theorem claimPtrNoSync_preserves_ring_witness:
  "data (buffer (ptr_write 1 9 ring2) ! 1) = 9 \<and> ring_inv (ptr_write 1 9 ring2) \<and> contents (ptr_write 1 9 ring2) = []"
  using claimPtrNoSync_preserves_ring [OF ring2_inv(1,2), of 1 9] by (simp add: claimPtrNoSync_def)

end
