(* ===== verification/Ring_Threads.thy ===== *)
theory Ring_Threads
  imports Atomic_Ring_Buffer
begin

text \<open>
  Interleaved execution of \<open>AtomicRingBuffer\<close>: any number of threads call the operations of one
  ring, and a step is one atomic action of one thread (a \<open>fetch_add\<close>, a load of a sequence number
  in a busy-wait loop, the plain store or load of the payload, the store of a sequence number).
  The execution is sequentially consistent: the acquire and release orders of the source are what
  makes the plain payload accesses between the claim and the publication of a slot ordered.
\<close>

text \<open>
  Where a thread stands inside an operation: the ticket it claimed and, for an enqueue, the value
  it carries. \<open>EmplWait\<close> and \<open>EmplDestroy\<close> are the branch of \<open>emplaceEnqueue\<close> for payloads that are
  not trivially destructible; the batch positions carry the loop counter and the clamped count.
  The two loads of \<open>isEmpty\<close> are evaluated in an unspecified order.
\<close>

datatype 'a pc =
    Idle
  | EnqWait u64 'a
  | EmplWait u64 'a
  | EmplDestroy u64 'a
  | EnqStore u64 'a
  | EnqPublish u64
  | DeqWait u64
  | DeqTake u64
  | DeqRelease u64 'a
  | BatchNext nat nat
  | BatchWait nat nat u64
  | BatchTake nat nat u64
  | BatchRelease nat nat u64 'a
  | EmptyW u64
  | EmptyR u64
  | EmptyDone bool

record 'a ring_sys =
  shared :: "'a AtomicRingBuffer"
  pcs :: "'a pc list"

text \<open>
  What an observer sees: \<open>EnqCall\<close> and \<open>DeqCall\<close> are the \<open>fetch_add\<close> on the write and the read ticket,
  \<open>EnqRet\<close> the publication of a slot, \<open>DeqRet\<close> the release of a slot with the value taken from it.
\<close>

datatype 'a ring_ev =
    EnqCall tid 'a
  | EnqRet tid
  | DeqCall tid
  | DeqRet tid 'a
  | BatchCall tid i32
  | BatchRet tid "'a list"
  | EmptyCall tid
  | EmptyRet tid bool
  | Tau tid

text \<open>One atomic action of a thread that is inside an operation.\<close>

fun exec :: "('a \<Rightarrow> 'a) \<Rightarrow> ('a \<Rightarrow> 'a) \<Rightarrow> 'a AtomicRingBuffer \<Rightarrow> 'a pc \<Rightarrow> 'a AtomicRingBuffer \<times> 'a pc" where
  "exec mv dead r Idle = (r, Idle)"
| "exec mv dead r (EnqWait t d) = (r, if can_write r t then EnqStore t d else EnqWait t d)"
| "exec mv dead r (EmplWait t d) = (r, if can_write r t then EmplDestroy t d else EmplWait t d)"
| "exec mv dead r (EmplDestroy t d) =
     (upd_slot (ring_index (SIZE r) t) (\<lambda>sl. sl\<lparr>data := dead (data sl)\<rparr>) r, EnqStore t d)"
| "exec mv dead r (EnqStore t d) = (write_slot t d r, EnqPublish t)"
| "exec mv dead r (EnqPublish t) = (publish_slot t r, Idle)"
| "exec mv dead r (DeqWait t) = (r, if can_read r t then DeqTake t else DeqWait t)"
| "exec mv dead r (DeqTake t) = (let (d, r') = take_slot mv t r in (r', DeqRelease t d))"
| "exec mv dead r (DeqRelease t d) = (release_slot t r, Idle)"
| "exec mv dead r (BatchNext i n) =
     (if i < n then (let (t, r') = claim_read r in (r', BatchWait i n t)) else (r, Idle))"
| "exec mv dead r (BatchWait i n t) = (r, if can_read r t then BatchTake i n t else BatchWait i n t)"
| "exec mv dead r (BatchTake i n t) =
     (let (d, r') = take_slot mv t r
      in (r'\<lparr>batchDequeueArray := (batchDequeueArray r')[i := d]\<rparr>, BatchRelease i n t d))"
| "exec mv dead r (BatchRelease i n t d) = (release_slot t r, BatchNext (Suc i) n)"
| "exec mv dead r (EmptyW w) = (r, EmptyDone (w = readTicket r))"
| "exec mv dead r (EmptyR w) = (r, EmptyDone (writeTicket r = w))"
| "exec mv dead r (EmptyDone b) = (r, Idle)"

fun pc_event :: "tid \<Rightarrow> 'a AtomicRingBuffer \<Rightarrow> 'a pc \<Rightarrow> 'a ring_ev" where
  "pc_event i r (EnqPublish t) = EnqRet i"
| "pc_event i r (DeqRelease t d) = DeqRet i d"
| "pc_event i r (BatchNext k n) = (if k < n then DeqCall i else BatchRet i (batchDequeueArray r))"
| "pc_event i r (BatchRelease k n t d) = DeqRet i d"
| "pc_event i r (EmptyDone b) = EmptyRet i b"
| "pc_event i r p = Tau i"

inductive ring_step :: "('a \<Rightarrow> 'a) \<Rightarrow> ('a \<Rightarrow> 'a) \<Rightarrow> 'a ring_sys \<Rightarrow> 'a ring_ev \<Rightarrow> 'a ring_sys \<Rightarrow> bool"
  for mv dead :: "'a \<Rightarrow> 'a" where
  call_enqueue:
    "i < length (pcs s) \<Longrightarrow> pcs s ! i = Idle \<Longrightarrow> claim_write (shared s) = (t, r) \<Longrightarrow>
     ring_step mv dead s (EnqCall i d) (s\<lparr>shared := r, pcs := (pcs s)[i := EnqWait t d]\<rparr>)"
| call_emplaceEnqueue:
    "i < length (pcs s) \<Longrightarrow> pcs s ! i = Idle \<Longrightarrow> claim_write (shared s) = (t, r) \<Longrightarrow>
     ring_step mv dead s (EnqCall i d) (s\<lparr>shared := r, pcs := (pcs s)[i := EmplWait t d]\<rparr>)"
| call_dequeue:
    "i < length (pcs s) \<Longrightarrow> pcs s ! i = Idle \<Longrightarrow> claim_read (shared s) = (t, r) \<Longrightarrow>
     ring_step mv dead s (DeqCall i) (s\<lparr>shared := r, pcs := (pcs s)[i := DeqWait t]\<rparr>)"
| call_batchDequeue:
    "i < length (pcs s) \<Longrightarrow> pcs s ! i = Idle \<Longrightarrow>
     n = nat (sint (batch_count (BATCH_SIZE (shared s)) c)) \<Longrightarrow>
     ring_step mv dead s (BatchCall i c) (s\<lparr>pcs := (pcs s)[i := BatchNext 0 n]\<rparr>)"
| call_isEmpty_write_first:
    "i < length (pcs s) \<Longrightarrow> pcs s ! i = Idle \<Longrightarrow>
     ring_step mv dead s (EmptyCall i) (s\<lparr>pcs := (pcs s)[i := EmptyW (writeTicket (shared s))]\<rparr>)"
| call_isEmpty_read_first:
    "i < length (pcs s) \<Longrightarrow> pcs s ! i = Idle \<Longrightarrow>
     ring_step mv dead s (EmptyCall i) (s\<lparr>pcs := (pcs s)[i := EmptyR (readTicket (shared s))]\<rparr>)"
| run:
    "i < length (pcs s) \<Longrightarrow> pcs s ! i \<noteq> Idle \<Longrightarrow> exec mv dead (shared s) (pcs s ! i) = (r, p) \<Longrightarrow>
     ring_step mv dead s (pc_event i (shared s) (pcs s ! i)) (s\<lparr>shared := r, pcs := (pcs s)[i := p]\<rparr>)"

text \<open>\<open>n\<close> threads around a newly constructed ring.\<close>

definition ring_start :: "nat \<Rightarrow> 'a list \<Rightarrow> 'a list \<Rightarrow> 'a ring_sys" where
  "ring_start n batch ds = \<lparr>shared = new_AtomicRingBuffer batch ds, pcs = replicate n Idle\<rparr>"

text \<open>The values handed to and returned by the ring, and who claimed which read ticket, in a run.\<close>

fun enq_val :: "'a ring_ev \<Rightarrow> 'a list" where
  "enq_val (EnqCall i d) = [d]"
| "enq_val _ = []"

fun deq_val :: "'a ring_ev \<Rightarrow> 'a list" where
  "deq_val (DeqRet i d) = [d]"
| "deq_val _ = []"

fun deq_claim :: "'a ring_ev \<Rightarrow> tid list" where
  "deq_claim (DeqCall i) = [i]"
| "deq_claim _ = []"

definition enq_vals :: "'a ring_ev list \<Rightarrow> 'a list" where
  "enq_vals tr = concat (map enq_val tr)"

definition deq_vals :: "'a ring_ev list \<Rightarrow> 'a list" where
  "deq_vals tr = concat (map deq_val tr)"

definition deq_claims :: "'a ring_ev list \<Rightarrow> tid list" where
  "deq_claims tr = concat (map deq_claim tr)"

lemma event_lists_Nil [simp]: "enq_vals [] = []" "deq_vals [] = []" "deq_claims [] = []"
  by (simp_all add: enq_vals_def deq_vals_def deq_claims_def)

lemma event_lists_snoc [simp]:
  "enq_vals (tr @ [e]) = enq_vals tr @ enq_val e"
  "deq_vals (tr @ [e]) = deq_vals tr @ deq_val e"
  "deq_claims (tr @ [e]) = deq_claims tr @ deq_claim e"
  by (simp_all add: enq_vals_def deq_vals_def deq_claims_def)

section \<open>Uninterrupted calls\<close>

text \<open>A call that no other thread interrupts is the sequential function.\<close>

lemma solo_enqueue:
  assumes i: "i < length ps" "ps ! i = Idle" and e: "enqueue d r = Returned r' ()"
  shows "lts_run (ring_step mv dead) \<lparr>shared = r, pcs = ps\<rparr> [EnqCall i d, Tau i, Tau i, EnqRet i] \<lparr>shared = r', pcs = ps\<rparr>"
proof -
  obtain t r1 where c: "claim_write r = (t, r1)" by (cases "claim_write r")
  have w: "can_write r1 t" "r' = publish_slot t (write_slot t d r1)" using e by (auto simp: enqueue_def c split: if_splits)
  let ?s = "\<lambda>r p. \<lparr>shared = r, pcs = ps[i := p]\<rparr>"
  have "ring_step mv dead \<lparr>shared = r, pcs = ps\<rparr> (EnqCall i d) (?s r1 (EnqWait t d))"
    using call_enqueue [of i "\<lparr>shared = r, pcs = ps\<rparr>" t r1 mv dead d] i c by simp
  moreover have "ring_step mv dead (?s r1 (EnqWait t d)) (Tau i) (?s r1 (EnqStore t d))"
    using run [of i "?s r1 (EnqWait t d)" mv dead] i w(1) by simp
  moreover have "ring_step mv dead (?s r1 (EnqStore t d)) (Tau i) (?s (write_slot t d r1) (EnqPublish t))"
    using run [of i "?s r1 (EnqStore t d)" mv dead] i by simp
  moreover have "ring_step mv dead (?s (write_slot t d r1) (EnqPublish t)) (EnqRet i) \<lparr>shared = r', pcs = ps\<rparr>"
    using run [of i "?s (write_slot t d r1) (EnqPublish t)" mv dead] i w(2) list_update_id [of ps i] by simp
  ultimately show ?thesis by (blast intro: lts_run_cons lts_run.run_nil)
qed

lemma solo_dequeue:
  assumes i: "i < length ps" "ps ! i = Idle" and e: "dequeue mv r = Returned r' d"
  shows "lts_run (ring_step mv dead) \<lparr>shared = r, pcs = ps\<rparr> [DeqCall i, Tau i, Tau i, DeqRet i d] \<lparr>shared = r', pcs = ps\<rparr>"
proof -
  obtain t r1 where c: "claim_read r = (t, r1)" by (cases "claim_read r")
  obtain x r2 where k: "take_slot mv t r1 = (x, r2)" by (cases "take_slot mv t r1")
  have w: "can_read r1 t" "x = d" "r' = release_slot t r2" using e by (auto simp: dequeue_def c k split: if_splits)
  let ?s = "\<lambda>r p. \<lparr>shared = r, pcs = ps[i := p]\<rparr>"
  have "ring_step mv dead \<lparr>shared = r, pcs = ps\<rparr> (DeqCall i) (?s r1 (DeqWait t))"
    using call_dequeue [of i "\<lparr>shared = r, pcs = ps\<rparr>" t r1 mv dead] i c by simp
  moreover have "ring_step mv dead (?s r1 (DeqWait t)) (Tau i) (?s r1 (DeqTake t))"
    using run [of i "?s r1 (DeqWait t)" mv dead] i w(1) by simp
  moreover have "ring_step mv dead (?s r1 (DeqTake t)) (Tau i) (?s r2 (DeqRelease t d))"
    using run [of i "?s r1 (DeqTake t)" mv dead] i k w(2) by simp
  moreover have "ring_step mv dead (?s r2 (DeqRelease t d)) (DeqRet i d) \<lparr>shared = r', pcs = ps\<rparr>"
    using run [of i "?s r2 (DeqRelease t d)" mv dead] i w(3) list_update_id [of ps i] by simp
  ultimately show ?thesis by (blast intro: lts_run_cons lts_run.run_nil)
qed

end
