(* ===== verification/Ticket_Protocol.thy ===== *)
theory Ticket_Protocol
  imports Ring_Threads
begin

text \<open>
  The ticket protocol behind the ring, as an abstract machine: tickets are unbounded numbers, there
  is no payload memory, and a consumer that holds read ticket \<open>t\<close> receives the value of the
  enqueue with write ticket \<open>t\<close> by definition. Its invariant says which tickets are outstanding at
  every slot. The concrete ring is shown to implement this machine in the theory
  \<open>Ring_Concurrent\<close>.
\<close>

section \<open>The machine\<close>

datatype 't tpc =
    TIdle
  | TEnqWait 't
  | TEnqStore 't
  | TEnqPublish 't
  | TDeqWait 't
  | TDeqTake 't
  | TDeqRelease 't

record 'a tk =
  tkR :: nat
  tkseq :: "nat list"
  tkvals :: "'a list"
  tkdone :: "nat list"
  tkpcs :: "nat tpc list"

abbreviation tkW :: "'a tk \<Rightarrow> nat" where "tkW s \<equiv> length (tkvals s)"
abbreviation tkS :: "'a tk \<Rightarrow> nat" where "tkS s \<equiv> length (tkseq s)"
abbreviation seq_of :: "'a tk \<Rightarrow> nat \<Rightarrow> nat" where "seq_of s t \<equiv> tkseq s ! (t mod tkS s)"

fun protocol_ev :: "'a ring_ev \<Rightarrow> bool" where
  "protocol_ev (EnqCall i d) = True"
| "protocol_ev (EnqRet i) = True"
| "protocol_ev (DeqCall i) = True"
| "protocol_ev (DeqRet i d) = True"
| "protocol_ev _ = False"

inductive tk_step :: "'a tk \<Rightarrow> 'a ring_ev \<Rightarrow> 'a tk \<Rightarrow> bool" where
  tk_enq_call: "i < length (tkpcs s) \<Longrightarrow> tkpcs s ! i = TIdle \<Longrightarrow>
     tk_step s (EnqCall i d) (s\<lparr>tkvals := tkvals s @ [d], tkpcs := (tkpcs s)[i := TEnqWait (tkW s)]\<rparr>)"
| tk_enq_enter: "i < length (tkpcs s) \<Longrightarrow> tkpcs s ! i = TEnqWait t \<Longrightarrow> seq_of s t = t \<Longrightarrow>
     tk_step s (Tau i) (s\<lparr>tkpcs := (tkpcs s)[i := TEnqStore t]\<rparr>)"
| tk_enq_store: "i < length (tkpcs s) \<Longrightarrow> tkpcs s ! i = TEnqStore t \<Longrightarrow>
     tk_step s (Tau i) (s\<lparr>tkpcs := (tkpcs s)[i := TEnqPublish t]\<rparr>)"
| tk_enq_publish: "i < length (tkpcs s) \<Longrightarrow> tkpcs s ! i = TEnqPublish t \<Longrightarrow>
     tk_step s (EnqRet i)
       (s\<lparr>tkseq := (tkseq s)[t mod tkS s := Suc t], tkpcs := (tkpcs s)[i := TIdle]\<rparr>)"
| tk_deq_call: "i < length (tkpcs s) \<Longrightarrow> tkpcs s ! i = TIdle \<Longrightarrow>
     tk_step s (DeqCall i) (s\<lparr>tkR := Suc (tkR s), tkpcs := (tkpcs s)[i := TDeqWait (tkR s)]\<rparr>)"
| tk_deq_enter: "i < length (tkpcs s) \<Longrightarrow> tkpcs s ! i = TDeqWait t \<Longrightarrow> seq_of s t = Suc t \<Longrightarrow>
     tk_step s (Tau i) (s\<lparr>tkpcs := (tkpcs s)[i := TDeqTake t]\<rparr>)"
| tk_deq_take: "i < length (tkpcs s) \<Longrightarrow> tkpcs s ! i = TDeqTake t \<Longrightarrow>
     tk_step s (Tau i) (s\<lparr>tkpcs := (tkpcs s)[i := TDeqRelease t]\<rparr>)"
| tk_deq_release: "i < length (tkpcs s) \<Longrightarrow> tkpcs s ! i = TDeqRelease t \<Longrightarrow>
     tk_step s (DeqRet i (tkvals s ! t))
       (s\<lparr>tkseq := (tkseq s)[t mod tkS s := t + tkS s], tkdone := tkdone s @ [t],
          tkpcs := (tkpcs s)[i := TIdle]\<rparr>)"
| tk_skip: "\<not> protocol_ev e \<Longrightarrow> tk_step s e s"

definition tk_start :: "nat \<Rightarrow> nat \<Rightarrow> 'a tk" where
  "tk_start n S = \<lparr>tkR = 0, tkseq = [0..<S], tkvals = [], tkdone = [], tkpcs = replicate n TIdle\<rparr>"

section \<open>Outstanding tickets\<close>

text \<open>The write or read ticket a thread holds, and whether it is inside its slot.\<close>

fun wtk :: "'t tpc \<Rightarrow> 't option" where
  "wtk (TEnqWait t) = Some t"
| "wtk (TEnqStore t) = Some t"
| "wtk (TEnqPublish t) = Some t"
| "wtk _ = None"

fun rtk :: "'t tpc \<Rightarrow> 't option" where
  "rtk (TDeqWait t) = Some t"
| "rtk (TDeqTake t) = Some t"
| "rtk (TDeqRelease t) = Some t"
| "rtk _ = None"

fun inside :: "'t tpc \<Rightarrow> bool" where
  "inside (TEnqStore t) = True"
| "inside (TEnqPublish t) = True"
| "inside (TDeqTake t) = True"
| "inside (TDeqRelease t) = True"
| "inside _ = False"

text \<open>
  A slot is free for write ticket \<open>t\<close> (its sequence number is \<open>t\<close>) or full with the value of
  ticket \<open>t\<close> (its sequence number is \<open>t + 1\<close>); \<open>t\<close> belongs to the slot, and the previous round of the
  slot is over.
\<close>

definition slot_phase :: "'a tk \<Rightarrow> nat \<Rightarrow> bool" where
  "slot_phase s i \<longleftrightarrow> (\<exists>t. t mod tkS s = i \<and>
     (tkseq s ! i = t \<or> tkseq s ! i = Suc t \<and> t < tkW s) \<and>
     (tkS s \<le> t \<longrightarrow> t - tkS s < tkW s \<and> t - tkS s < tkR s))"

definition writers_ok :: "'a tk \<Rightarrow> bool" where
  "writers_ok s \<longleftrightarrow> (\<forall>k < length (tkpcs s). \<forall>t. wtk (tkpcs s ! k) = Some t \<longrightarrow>
     t < tkW s \<and> seq_of s t \<le> t \<and> (inside (tkpcs s ! k) \<longrightarrow> seq_of s t = t))"

definition readers_ok :: "'a tk \<Rightarrow> bool" where
  "readers_ok s \<longleftrightarrow> (\<forall>k < length (tkpcs s). \<forall>t. rtk (tkpcs s ! k) = Some t \<longrightarrow>
     t < tkR s \<and> seq_of s t \<le> Suc t \<and> (inside (tkpcs s ! k) \<longrightarrow> seq_of s t = Suc t))"

definition tickets_unique :: "'a tk \<Rightarrow> bool" where
  "tickets_unique s \<longleftrightarrow> (\<forall>k < length (tkpcs s). \<forall>l < length (tkpcs s). \<forall>t.
     (wtk (tkpcs s ! k) = Some t \<and> wtk (tkpcs s ! l) = Some t \<longrightarrow> k = l) \<and>
     (rtk (tkpcs s ! k) = Some t \<and> rtk (tkpcs s ! l) = Some t \<longrightarrow> k = l))"

text \<open>A claimed ticket whose turn at its slot is not over is held by some thread.\<close>

definition claims_held :: "'a tk \<Rightarrow> bool" where
  "claims_held s \<longleftrightarrow>
     (\<forall>t < tkW s. seq_of s t \<le> t \<longrightarrow> (\<exists>k < length (tkpcs s). wtk (tkpcs s ! k) = Some t)) \<and>
     (\<forall>t < tkR s. seq_of s t \<le> Suc t \<longrightarrow> (\<exists>k < length (tkpcs s). rtk (tkpcs s ! k) = Some t))"

definition done_ok :: "'a tk \<Rightarrow> bool" where
  "done_ok s \<longleftrightarrow> distinct (tkdone s) \<and>
     (\<forall>t. t \<in> set (tkdone s) \<longleftrightarrow> t < tkR s \<and> Suc t < seq_of s t)"

definition tk_inv :: "'a tk \<Rightarrow> bool" where
  "tk_inv s \<longleftrightarrow> 2 \<le> tkS s \<and> (\<forall>i < tkS s. slot_phase s i) \<and> writers_ok s \<and> readers_ok s \<and>
     tickets_unique s \<and> claims_held s \<and> done_ok s"

section \<open>Arithmetic of one slot\<close>

lemma later_writer: "t2 mod S = t mod S \<Longrightarrow> t \<le> t2 \<Longrightarrow> t2 \<noteq> t \<Longrightarrow> t + S \<le> t2" for t t2 S :: nat
  by (rule mod_eq_add_mult) auto

lemma later_reader:
  fixes t t2 S :: nat
  assumes "2 \<le> S" "t2 mod S = t mod S" "t \<le> Suc t2"
  shows "t \<le> t2"
  using Suc_mod_neq [OF assms(1), of t t2] assms(2,3) by linarith

lemma writer_after_full:
  fixes t t2 S :: nat
  assumes "t2 mod S = t mod S" "Suc t \<le> t2"
  shows "t + S \<le> t2"
  using assms by (intro mod_eq_add_mult) auto

lemma slot_phaseE:
  assumes "slot_phase s i"
  obtains t where "t mod tkS s = i" "tkseq s ! i = t \<or> tkseq s ! i = Suc t \<and> t < tkW s"
    "tkS s \<le> t \<longrightarrow> t - tkS s < tkW s \<and> t - tkS s < tkR s"
  using assms unfolding slot_phase_def by (elim exE conjE) (rule that)

lemma slot_phase_bounds:
  assumes "slot_phase s (u mod tkS s)" "2 \<le> tkS s"
  shows "u = tkW s \<Longrightarrow> seq_of s u \<le> u" "u = tkR s \<Longrightarrow> seq_of s u \<le> Suc u"
proof -
  from assms(1) obtain t where t: "t mod tkS s = u mod tkS s"
    "seq_of s u = t \<or> seq_of s u = Suc t \<and> t < tkW s"
    "tkS s \<le> t \<Longrightarrow> t - tkS s < tkW s \<and> t - tkS s < tkR s"
    by (auto simp: slot_phase_def)
  have le: "t \<le> u" if "tkS s \<le> t \<Longrightarrow> t - tkS s < u"
  proof (rule ccontr)
    assume "\<not> t \<le> u"
    then have "u + tkS s \<le> t" using mod_eq_add_mult [of u "tkS s" t] t(1) by simp
    with that show False by simp
  qed
  show "u = tkW s \<Longrightarrow> seq_of s u \<le> u" "u = tkR s \<Longrightarrow> seq_of s u \<le> Suc u"
    using le t(2,3) by auto
qed

lemma tk_inv_phase:
  assumes "tk_inv s"
  shows "slot_phase s (t mod tkS s)"
proof -
  have "t mod tkS s < tkS s" by (rule mod_less_divisor) (use assms in \<open>auto simp: tk_inv_def\<close>)
  with assms show ?thesis by (simp add: tk_inv_def)
qed

lemma tk_inv_next_write: "tk_inv s \<Longrightarrow> seq_of s (tkW s) \<le> tkW s"
  by (rule slot_phase_bounds) (use tk_inv_phase in \<open>auto simp: tk_inv_def\<close>)

lemma tk_inv_next_read: "tk_inv s \<Longrightarrow> seq_of s (tkR s) \<le> Suc (tkR s)"
  by (rule slot_phase_bounds) (use tk_inv_phase in \<open>auto simp: tk_inv_def\<close>)

lemma slot_phase_mono:
  assumes "slot_phase s i" "tkseq s' = tkseq s" "tkW s \<le> tkW s'" "tkR s \<le> tkR s'"
  shows "slot_phase s' i"
proof -
  from assms(1) obtain t where "t mod tkS s = i" "tkseq s ! i = t \<or> tkseq s ! i = Suc t \<and> t < tkW s"
    "tkS s \<le> t \<longrightarrow> t - tkS s < tkW s \<and> t - tkS s < tkR s"
    by (auto simp: slot_phase_def)
  with assms(2-4) show ?thesis
    unfolding slot_phase_def by (intro exI [of _ t]) auto
qed

lemma tickets_unique_update:
  assumes u: "tickets_unique s" and s': "tkpcs s' = (tkpcs s)[i := p]"
    and w: "\<And>k t. k < length (tkpcs s) \<Longrightarrow> k \<noteq> i \<Longrightarrow> wtk (tkpcs s ! k) = Some t \<Longrightarrow> wtk p \<noteq> Some t"
    and r: "\<And>k t. k < length (tkpcs s) \<Longrightarrow> k \<noteq> i \<Longrightarrow> rtk (tkpcs s ! k) = Some t \<Longrightarrow> rtk p \<noteq> Some t"
  shows "tickets_unique s'"
  unfolding tickets_unique_def
proof (intro allI impI)
  fix k l t assume "k < length (tkpcs s')" "l < length (tkpcs s')"
  then have kl: "k < length (tkpcs s)" "l < length (tkpcs s)" by (simp_all add: s')
  show "(wtk (tkpcs s' ! k) = Some t \<and> wtk (tkpcs s' ! l) = Some t \<longrightarrow> k = l) \<and>
    (rtk (tkpcs s' ! k) = Some t \<and> rtk (tkpcs s' ! l) = Some t \<longrightarrow> k = l)"
  proof (cases "k = i"; cases "l = i")
    assume "k \<noteq> i" "l \<noteq> i"
    then show ?thesis using u kl by (simp add: s' tickets_unique_def)
  qed (use w r kl in \<open>auto simp: s'\<close>)
qed

lemma claims_held_call:
  assumes h: "claims_held s" and i: "i < length (tkpcs s)" "tkpcs s ! i = TIdle"
    and s': "tkpcs s' = (tkpcs s)[i := p]" "tkseq s' = tkseq s"
    and w: "\<And>t. t < tkW s' \<Longrightarrow> t < tkW s \<or> wtk p = Some t"
    and r: "\<And>t. t < tkR s' \<Longrightarrow> t < tkR s \<or> rtk p = Some t"
  shows "claims_held s'"
  unfolding claims_held_def
proof (intro conjI allI impI)
  fix t assume t: "t < tkW s'" "seq_of s' t \<le> t"
  show "\<exists>k < length (tkpcs s'). wtk (tkpcs s' ! k) = Some t"
  proof (cases "wtk p = Some t")
    case False
    with w [OF t(1)] t(2) h s'(2) obtain k where "k < length (tkpcs s)" "wtk (tkpcs s ! k) = Some t"
      by (auto simp: claims_held_def)
    with i s'(1) show ?thesis by (metis length_list_update nth_list_update_neq option.distinct(1) wtk.simps(4))
  qed (use i s'(1) in auto)
next
  fix t assume t: "t < tkR s'" "seq_of s' t \<le> Suc t"
  show "\<exists>k < length (tkpcs s'). rtk (tkpcs s' ! k) = Some t"
  proof (cases "rtk p = Some t")
    case False
    with r [OF t(1)] t(2) h s'(2) obtain k where "k < length (tkpcs s)" "rtk (tkpcs s ! k) = Some t"
      by (auto simp: claims_held_def)
    with i s'(1) show ?thesis by (metis length_list_update nth_list_update_neq option.distinct(1) rtk.simps(4))
  qed (use i s'(1) in auto)
qed

section \<open>Preservation\<close>

lemma tk_inv_start: "2 \<le> S \<Longrightarrow> tk_inv (tk_start n S)"
  by (auto simp: tk_inv_def tk_start_def slot_phase_def writers_ok_def readers_ok_def
      tickets_unique_def claims_held_def done_ok_def)

lemma tk_inv_move:
  assumes inv: "tk_inv s" and i: "i < length (tkpcs s)"
    and same: "wtk p = wtk (tkpcs s ! i)" "rtk p = rtk (tkpcs s ! i)"
    and enter: "inside p \<Longrightarrow> inside (tkpcs s ! i) \<or>
      (\<forall>t. wtk p = Some t \<longrightarrow> seq_of s t = t) \<and> (\<forall>t. rtk p = Some t \<longrightarrow> seq_of s t = Suc t)"
  shows "tk_inv (s\<lparr>tkpcs := (tkpcs s)[i := p]\<rparr>)"
proof -
  let ?s = "s\<lparr>tkpcs := (tkpcs s)[i := p]\<rparr>"
  have w: "wtk (tkpcs ?s ! k) = wtk (tkpcs s ! k)" "rtk (tkpcs ?s ! k) = rtk (tkpcs s ! k)" for k
    using i same by (cases "k = i"; simp)+
  have "writers_ok ?s"
    using inv enter i same by (auto simp: tk_inv_def writers_ok_def nth_list_update)
  moreover have "readers_ok ?s"
    using inv enter i same by (auto simp: tk_inv_def readers_ok_def nth_list_update)
  moreover have "tickets_unique ?s" "claims_held ?s"
    using inv w by (auto simp: tk_inv_def tickets_unique_def claims_held_def)
  moreover have "slot_phase ?s k = slot_phase s k" for k by (simp add: slot_phase_def)
  moreover have "done_ok ?s" using inv by (simp add: tk_inv_def done_ok_def)
  ultimately show ?thesis using inv by (simp add: tk_inv_def)
qed

lemma tk_inv_enq_call:
  assumes inv: "tk_inv s" and i: "i < length (tkpcs s)" "tkpcs s ! i = TIdle"
  shows "tk_inv (s\<lparr>tkvals := tkvals s @ [d], tkpcs := (tkpcs s)[i := TEnqWait (tkW s)]\<rparr>)" (is "tk_inv ?s")
proof -
  note next_ok = tk_inv_next_write [OF inv]
  have "slot_phase ?s k" if "k < tkS ?s" for k
    by (rule slot_phase_mono [of s]) (use inv that in \<open>auto simp: tk_inv_def\<close>)
  moreover have "writers_ok ?s"
    using inv next_ok i by (auto simp: tk_inv_def writers_ok_def nth_list_update less_Suc_eq)
  moreover have "readers_ok ?s"
    using inv i by (auto simp: tk_inv_def readers_ok_def nth_list_update)
  moreover have "tickets_unique ?s"
    by (rule tickets_unique_update [of s]) (use inv in \<open>auto simp: tk_inv_def writers_ok_def\<close>)
  moreover have "claims_held ?s"
    by (rule claims_held_call [of s i]) (use inv i in \<open>auto simp: tk_inv_def less_Suc_eq\<close>)
  moreover have "done_ok ?s" using inv by (simp add: tk_inv_def done_ok_def)
  ultimately show ?thesis using inv by (simp add: tk_inv_def)
qed

lemma tk_inv_deq_call:
  assumes inv: "tk_inv s" and i: "i < length (tkpcs s)" "tkpcs s ! i = TIdle"
  shows "tk_inv (s\<lparr>tkR := Suc (tkR s), tkpcs := (tkpcs s)[i := TDeqWait (tkR s)]\<rparr>)" (is "tk_inv ?s")
proof -
  note next_ok = tk_inv_next_read [OF inv]
  have "slot_phase ?s k" if "k < tkS ?s" for k
    by (rule slot_phase_mono [of s]) (use inv that in \<open>auto simp: tk_inv_def\<close>)
  moreover have "writers_ok ?s"
    using inv i by (auto simp: tk_inv_def writers_ok_def nth_list_update)
  moreover have "readers_ok ?s"
    using inv next_ok i by (auto simp: tk_inv_def readers_ok_def nth_list_update less_Suc_eq)
  moreover have "tickets_unique ?s"
    by (rule tickets_unique_update [of s]) (use inv in \<open>auto simp: tk_inv_def readers_ok_def\<close>)
  moreover have "claims_held ?s"
    by (rule claims_held_call [of s i]) (use inv i in \<open>auto simp: tk_inv_def less_Suc_eq\<close>)
  moreover have "done_ok ?s" using inv next_ok by (auto simp: tk_inv_def done_ok_def less_Suc_eq)
  ultimately show ?thesis using inv by (simp add: tk_inv_def)
qed


text \<open>The two steps that move a slot to its next phase, after which the thread is idle.\<close>

definition tk_advance :: "'a tk \<Rightarrow> nat \<Rightarrow> nat \<Rightarrow> nat \<Rightarrow> nat list \<Rightarrow> 'a tk" where
  "tk_advance s i t v ts =
     s\<lparr>tkseq := (tkseq s)[t mod tkS s := v], tkdone := tkdone s @ ts, tkpcs := (tkpcs s)[i := TIdle]\<rparr>"

lemma tk_advance_simps [simp]:
  "tkS (tk_advance s i t v ts) = tkS s" "tkW (tk_advance s i t v ts) = tkW s"
  "tkR (tk_advance s i t v ts) = tkR s" "tkdone (tk_advance s i t v ts) = tkdone s @ ts"
  "tkvals (tk_advance s i t v ts) = tkvals s"
  "tkpcs (tk_advance s i t v ts) = (tkpcs s)[i := TIdle]"
  by (simp_all add: tk_advance_def)

lemma tk_advance_seq:
  assumes "2 \<le> tkS s"
  shows "tkseq (tk_advance s i t v ts) ! (u mod tkS s) = (if u mod tkS s = t mod tkS s then v else seq_of s u)"
proof -
  have "t mod tkS s < tkS s" by (rule mod_less_divisor) (use assms in auto)
  then show ?thesis by (auto simp: tk_advance_def)
qed

lemma tk_inv_writer:
  assumes "tk_inv s" "k < length (tkpcs s)" "wtk (tkpcs s ! k) = Some t"
  shows "t < tkW s" "seq_of s t \<le> t" "inside (tkpcs s ! k) \<Longrightarrow> seq_of s t = t"
  using assms by (auto simp: tk_inv_def writers_ok_def)

lemma tk_inv_reader:
  assumes "tk_inv s" "k < length (tkpcs s)" "rtk (tkpcs s ! k) = Some t"
  shows "t < tkR s" "seq_of s t \<le> Suc t" "inside (tkpcs s ! k) \<Longrightarrow> seq_of s t = Suc t"
  using assms by (auto simp: tk_inv_def readers_ok_def)

lemma tk_inv_unique:
  assumes "tk_inv s" "k < length (tkpcs s)" "l < length (tkpcs s)"
  shows "wtk (tkpcs s ! k) = Some t \<Longrightarrow> wtk (tkpcs s ! l) = Some t \<Longrightarrow> k = l"
    "rtk (tkpcs s ! k) = Some t \<Longrightarrow> rtk (tkpcs s ! l) = Some t \<Longrightarrow> k = l"
  using assms by (auto simp: tk_inv_def tickets_unique_def)

lemma tk_inv_held:
  assumes "tk_inv s"
  shows "t < tkW s \<Longrightarrow> seq_of s t \<le> t \<Longrightarrow> \<exists>k < length (tkpcs s). wtk (tkpcs s ! k) = Some t"
    "t < tkR s \<Longrightarrow> seq_of s t \<le> Suc t \<Longrightarrow> \<exists>k < length (tkpcs s). rtk (tkpcs s ! k) = Some t"
  using assms by (simp_all add: tk_inv_def claims_held_def)

lemma tk_inv_size: "tk_inv s \<Longrightarrow> 2 \<le> tkS s"
  by (simp add: tk_inv_def)

lemma phase_of_free:
  assumes "tk_inv s" "seq_of s t = t" "tkS s \<le> t"
  shows "t - tkS s < tkW s \<and> t - tkS s < tkR s"
proof -
  from tk_inv_phase [OF assms(1), of t] obtain u where u: "u mod tkS s = t mod tkS s"
    "seq_of s t = u \<or> seq_of s t = Suc u \<and> u < tkW s"
    "tkS s \<le> u \<longrightarrow> u - tkS s < tkW s \<and> u - tkS s < tkR s"
    by (rule slot_phaseE)
  have "t \<noteq> Suc u" using Suc_mod_neq [OF tk_inv_size [OF assms(1)] u(1) [symmetric]] .
  with u(2) assms(2) have "u = t" by presburger
  with u(3) assms(3) show ?thesis by simp
qed

lemma full_is_claimed:
  assumes "tk_inv s" "seq_of s t = Suc t"
  shows "t < tkW s"
proof -
  from tk_inv_phase [OF assms(1), of t] obtain u where u: "u mod tkS s = t mod tkS s"
    "seq_of s t = u \<or> seq_of s t = Suc u \<and> u < tkW s"
    by (rule slot_phaseE)
  have "u \<noteq> Suc t" using Suc_mod_neq [OF tk_inv_size [OF assms(1)] u(1)] .
  with u(2) assms(2) show ?thesis by presburger
qed

lemma slot_phase_advance:
  assumes "tk_inv s" "k < tkS s"
    and here: "\<exists>u. u mod tkS s = t mod tkS s \<and> (v = u \<or> v = Suc u \<and> u < tkW s) \<and>
      (tkS s \<le> u \<longrightarrow> u - tkS s < tkW s \<and> u - tkS s < tkR s)"
  shows "slot_phase (tk_advance s i t v ts) k"
proof (cases "k = t mod tkS s")
  case True
  have "tkseq (tk_advance s i t v ts) ! k = v"
    using tk_advance_seq [OF tk_inv_size [OF assms(1)], of i t v ts t] True by simp
  with here True show ?thesis by (simp add: slot_phase_def)
next
  case False
  then have "tkseq (tk_advance s i t v ts) ! k = tkseq s ! k" by (simp add: tk_advance_def)
  with assms(1,2) show ?thesis by (simp add: slot_phase_def tk_inv_def)
qed

lemma tk_inv_publish:
  assumes inv: "tk_inv s" and i: "i < length (tkpcs s)" "tkpcs s ! i = TEnqPublish t"
  shows "tk_inv (tk_advance s i t (Suc t) [])" (is "tk_inv ?s")
proof -
  note S2 = tk_inv_size [OF inv]
  note sq = tk_advance_seq [OF S2, of i t "Suc t" "[]"]
  have w: "t < tkW s" "seq_of s t = t" using tk_inv_writer [OF inv i(1), of t] i(2) by auto
  have slot: "seq_of s u = t" if "u mod tkS s = t mod tkS s" for u using w(2) that by simp
  have "slot_phase ?s k" if "k < tkS s" for k
    by (rule slot_phase_advance [OF inv that]) (use w phase_of_free [OF inv w(2)] in blast)
  moreover have "writers_ok ?s"
    unfolding writers_ok_def
  proof (intro allI impI)
    fix k u assume k: "k < length (tkpcs ?s)" "wtk (tkpcs ?s ! k) = Some u"
    then have ki: "k \<noteq> i" "k < length (tkpcs s)" "wtk (tkpcs s ! k) = Some u" using i(1) by (auto simp: nth_list_update split: if_splits)
    note u = tk_inv_writer [OF inv ki(2,3)]
    have "u \<noteq> t" using tk_inv_unique(1) [OF inv ki(2) i(1), of t] ki(1,3) i(2) by auto
    then show "u < tkW ?s \<and> seq_of ?s u \<le> u \<and> (inside (tkpcs ?s ! k) \<longrightarrow> seq_of ?s u = u)"
      using u slot [of u] ki(1) sq [of u] by auto
  qed
  moreover have "readers_ok ?s"
    unfolding readers_ok_def
  proof (intro allI impI)
    fix k u assume k: "k < length (tkpcs ?s)" "rtk (tkpcs ?s ! k) = Some u"
    then have ki: "k \<noteq> i" "k < length (tkpcs s)" "rtk (tkpcs s ! k) = Some u" using i(1) by (auto simp: nth_list_update split: if_splits)
    note u = tk_inv_reader [OF inv ki(2,3)]
    show "u < tkR ?s \<and> seq_of ?s u \<le> Suc u \<and> (inside (tkpcs ?s ! k) \<longrightarrow> seq_of ?s u = Suc u)"
      using u slot [of u] ki(1) sq [of u] later_reader [OF S2, of u t] Suc_mod_neq [OF S2, of t u] by auto
  qed
  moreover have "tickets_unique ?s"
    by (rule tickets_unique_update [of s _ i TIdle]) (use inv in \<open>auto simp: tk_inv_def\<close>)
  moreover have "claims_held ?s"
    unfolding claims_held_def
  proof (intro conjI allI impI)
    fix u assume "u < tkW ?s" "seq_of ?s u \<le> u"
    then have "u < tkW s" "seq_of s u \<le> u" "u \<noteq> t" using slot [of u] sq [of u] by (auto split: if_splits)
    then obtain k where "k < length (tkpcs s)" "wtk (tkpcs s ! k) = Some u"
      using tk_inv_held(1) [OF inv] by blast
    moreover from this \<open>u \<noteq> t\<close> i(2) have "k \<noteq> i" by auto
    ultimately show "\<exists>k < length (tkpcs ?s). wtk (tkpcs ?s ! k) = Some u" by auto
  next
    fix u assume "u < tkR ?s" "seq_of ?s u \<le> Suc u"
    then have "u < tkR s" "seq_of s u \<le> Suc u" using slot [of u] sq [of u] by (auto split: if_splits)
    then obtain k where "k < length (tkpcs s)" "rtk (tkpcs s ! k) = Some u"
      using tk_inv_held(2) [OF inv] by blast
    moreover from this i(2) have "k \<noteq> i" by auto
    ultimately show "\<exists>k < length (tkpcs ?s). rtk (tkpcs ?s ! k) = Some u" by auto
  qed
  moreover have "Suc u < seq_of ?s u \<longleftrightarrow> Suc u < seq_of s u" for u
    using slot [of u] sq [of u] Suc_mod_neq [OF S2, of t u] by (auto simp: less_Suc_eq)
  then have "done_ok ?s" using inv by (simp add: tk_inv_def done_ok_def)
  ultimately show ?thesis using S2 by (simp add: tk_inv_def)
qed


lemma tk_inv_release:
  assumes inv: "tk_inv s" and i: "i < length (tkpcs s)" "tkpcs s ! i = TDeqRelease t"
  shows "tk_inv (tk_advance s i t (t + tkS s) [t])" (is "tk_inv ?s")
proof -
  note S2 = tk_inv_size [OF inv]
  note sq = tk_advance_seq [OF S2, of i t "t + tkS s" "[t]"]
  have r: "t < tkR s" "seq_of s t = Suc t" using tk_inv_reader [OF inv i(1), of t] i(2) by auto
  have slot: "seq_of s u = Suc t" if "u mod tkS s = t mod tkS s" for u using r(2) that by simp
  have "slot_phase ?s k" if "k < tkS s" for k
    by (rule slot_phase_advance [OF inv that])
      (use r full_is_claimed [OF inv r(2)] in \<open>intro exI [of _ "t + tkS s"], simp\<close>)
  moreover have "writers_ok ?s"
    unfolding writers_ok_def
  proof (intro allI impI)
    fix k u assume k: "k < length (tkpcs ?s)" "wtk (tkpcs ?s ! k) = Some u"
    then have ki: "k \<noteq> i" "k < length (tkpcs s)" "wtk (tkpcs s ! k) = Some u" using i(1) by (auto simp: nth_list_update split: if_splits)
    note u = tk_inv_writer [OF inv ki(2,3)]
    show "u < tkW ?s \<and> seq_of ?s u \<le> u \<and> (inside (tkpcs ?s ! k) \<longrightarrow> seq_of ?s u = u)"
      using u slot [of u] ki(1) sq [of u] writer_after_full [of u "tkS s" t] Suc_mod_neq [OF S2, of u t] by auto
  qed
  moreover have "readers_ok ?s"
    unfolding readers_ok_def
  proof (intro allI impI)
    fix k u assume k: "k < length (tkpcs ?s)" "rtk (tkpcs ?s ! k) = Some u"
    then have ki: "k \<noteq> i" "k < length (tkpcs s)" "rtk (tkpcs s ! k) = Some u" using i(1) by (auto simp: nth_list_update split: if_splits)
    note u = tk_inv_reader [OF inv ki(2,3)]
    have "u \<noteq> t" using tk_inv_unique(2) [OF inv ki(2) i(1), of t] ki(1,3) i(2) by auto
    then show "u < tkR ?s \<and> seq_of ?s u \<le> Suc u \<and> (inside (tkpcs ?s ! k) \<longrightarrow> seq_of ?s u = Suc u)"
      using u slot [of u] ki(1) sq [of u] later_writer [of u "tkS s" t] by auto
  qed
  moreover have "tickets_unique ?s"
    by (rule tickets_unique_update [of s _ i TIdle]) (use inv in \<open>auto simp: tk_inv_def\<close>)
  moreover have "claims_held ?s"
    unfolding claims_held_def
  proof (intro conjI allI impI)
    fix u assume "u < tkW ?s" "seq_of ?s u \<le> u"
    then have "u < tkW s" "seq_of s u \<le> u" using slot [of u] sq [of u] S2 by (auto split: if_splits)
    then obtain k where "k < length (tkpcs s)" "wtk (tkpcs s ! k) = Some u"
      using tk_inv_held(1) [OF inv] by blast
    moreover from this i(2) have "k \<noteq> i" by auto
    ultimately show "\<exists>k < length (tkpcs ?s). wtk (tkpcs ?s ! k) = Some u" by auto
  next
    fix u assume "u < tkR ?s" "seq_of ?s u \<le> Suc u"
    then have "u < tkR s" "seq_of s u \<le> Suc u" "u \<noteq> t" using slot [of u] sq [of u] S2 by (auto split: if_splits)
    then obtain k where "k < length (tkpcs s)" "rtk (tkpcs s ! k) = Some u"
      using tk_inv_held(2) [OF inv] by blast
    moreover from this \<open>u \<noteq> t\<close> i(2) have "k \<noteq> i" by auto
    ultimately show "\<exists>k < length (tkpcs ?s). rtk (tkpcs ?s ! k) = Some u" by auto
  qed
  moreover have "Suc u < seq_of ?s u \<longleftrightarrow> Suc u < seq_of s u \<or> u = t" for u
  proof (cases "u mod tkS s = t mod tkS s")
    case True
    then have "u < t \<or> u = t \<or> t + tkS s \<le> u" using later_writer [OF True] by linarith
    with True slot [OF True] sq [of u] S2 show ?thesis by auto
  qed (use sq [of u] in auto)
  then have "done_ok ?s" using inv r by (auto simp: tk_inv_def done_ok_def)
  ultimately show ?thesis using S2 by (simp add: tk_inv_def)
qed

lemma tk_inv_step: "tk_step s e s' \<Longrightarrow> tk_inv s \<Longrightarrow> tk_inv s'"
proof (induction rule: tk_step.induct)
  case (tk_enq_publish i s t)
  then show ?case using tk_inv_publish [of s i t] by (simp add: tk_advance_def)
next
  case (tk_deq_release i s t)
  then show ?case using tk_inv_release [of s i t] by (simp add: tk_advance_def)
qed (auto intro: tk_inv_enq_call tk_inv_deq_call tk_inv_move)


lemma tk_inv_done_claimed:
  assumes "tk_inv s" "t \<in> set (tkdone s)"
  shows "t < tkW s"
proof -
  have d: "Suc t < seq_of s t" using assms by (auto simp: tk_inv_def done_ok_def)
  from tk_inv_phase [OF assms(1), of t] obtain u where u: "u mod tkS s = t mod tkS s"
    "seq_of s t = u \<or> seq_of s t = Suc u \<and> u < tkW s"
    "tkS s \<le> u \<longrightarrow> u - tkS s < tkW s \<and> u - tkS s < tkR s"
    by (rule slot_phaseE)
  have "t < u" using d u(2) by presburger
  then have "t + tkS s \<le> u" using mod_eq_add_mult [of t "tkS s" u] u(1) by simp
  with u(3) show ?thesis by linarith
qed

section \<open>The protocol against its trace\<close>

text \<open>
  The history of a run determines the tickets: write ticket \<open>t\<close> belongs to the \<open>t\<close>-th enqueue, read
  ticket \<open>t\<close> to the \<open>t\<close>-th claim of a dequeue, and a thread holds the ticket of its latest claim.
\<close>

definition latest_claim :: "'a ring_ev list \<Rightarrow> tid \<Rightarrow> nat \<Rightarrow> bool" where
  "latest_claim tr k t \<longleftrightarrow> t < length (deq_claims tr) \<and> deq_claims tr ! t = k \<and>
     (\<forall>j. t < j \<and> j < length (deq_claims tr) \<longrightarrow> deq_claims tr ! j \<noteq> k)"

definition tk_trace :: "'a ring_ev list \<Rightarrow> 'a tk \<Rightarrow> bool" where
  "tk_trace tr s \<longleftrightarrow> tkvals s = enq_vals tr \<and> tkR s = length (deq_claims tr) \<and>
     deq_vals tr = map ((!) (enq_vals tr)) (tkdone s) \<and>
     (\<forall>k < length (tkpcs s). \<forall>t. rtk (tkpcs s ! k) = Some t \<longrightarrow> latest_claim tr k t)"

lemma not_protocol_ev: "\<not> protocol_ev e \<Longrightarrow> enq_val e = [] \<and> deq_val e = [] \<and> deq_claim e = []"
  by (cases e) auto

lemma latest_claim_quiet: "deq_claim e = [] \<Longrightarrow> latest_claim (tr @ [e]) k t = latest_claim tr k t"
  by (simp add: latest_claim_def)

lemma latest_claim_self: "latest_claim (tr @ [DeqCall k]) k (length (deq_claims tr))"
  by (simp add: latest_claim_def)

lemma latest_claim_other: "k \<noteq> i \<Longrightarrow> latest_claim tr k t \<Longrightarrow> latest_claim (tr @ [DeqCall i]) k t"
  by (auto simp: latest_claim_def nth_append less_Suc_eq)

lemma tk_trace_step:
  assumes "tk_step s e s'" "tk_inv s" "tk_trace tr s"
  shows "tk_trace (tr @ [e]) s'"
  using assms
proof (induction rule: tk_step.induct)
  case (tk_enq_call i s d)
  have "map ((!) (enq_vals tr @ [d])) (tkdone s) = map ((!) (enq_vals tr)) (tkdone s)"
    using tk_inv_done_claimed [OF tk_enq_call.prems(1)] tk_enq_call.prems(2)
    by (auto simp: tk_trace_def nth_append)
  with tk_enq_call show ?case
    by (auto simp: tk_trace_def latest_claim_quiet nth_list_update)
next
  case (tk_deq_call i s)
  then show ?case
    by (auto simp: tk_trace_def nth_list_update latest_claim_self intro: latest_claim_other)
next
  case (tk_skip e s)
  then show ?case using not_protocol_ev [of e] by (simp add: tk_trace_def latest_claim_quiet)
qed (auto simp: tk_trace_def latest_claim_quiet nth_list_update split: if_splits)

definition tk_initial :: "'a tk \<Rightarrow> bool" where
  "tk_initial s \<longleftrightarrow> (\<exists>n S. 2 \<le> S \<and> s = tk_start n S)"

interpretation tkm: lts_invariant tk_step tk_initial "\<lambda>tr s. tk_inv s \<and> tk_trace tr s"
proof unfold_locales
  show "tk_inv s \<and> tk_trace [] s" if "tk_initial s" for s :: "'a tk"
    using that tk_inv_start by (auto simp: tk_initial_def tk_trace_def tk_start_def)
qed (use tk_inv_step tk_trace_step in blast)


section \<open>How far a waiting ticket can be ahead of its slot\<close>

lemma held_tickets_close:
  fixes h :: "nat \<Rightarrow> nat option"
  assumes held: "\<And>u. u mod S = t mod S \<Longrightarrow> a \<le> u \<Longrightarrow> u \<le> t \<Longrightarrow> \<exists>k < n. h k = Some u"
    and "0 < S" "a \<le> t"
  shows "t - a < n * S"
proof -
  define m where "m = (t - a) div S"
  have jS: "j * S \<le> t - a" if "j \<le> m" for j
  proof -
    have "j * S \<le> (t - a) div S * S" using that by (simp add: m_def)
    also have "\<dots> \<le> t - a" by (rule div_times_less_eq_dividend)
    finally show ?thesis .
  qed
  have "\<exists>k < n. h k = Some (t - j * S)" if "j \<le> m" for j
  proof (rule held)
    have "j * S \<le> t" using jS [OF that] by simp
    then show "(t - j * S) mod S = t mod S" by (metis le_add_diff_inverse2 mod_mult_self1)
  qed (use jS [OF that] \<open>a \<le> t\<close> in auto)
  then obtain g where g: "\<And>j. j \<le> m \<Longrightarrow> g j < n \<and> h (g j) = Some (t - j * S)" by metis
  have "inj_on g {..m}"
  proof (rule inj_onI)
    fix i j assume ij: "i \<in> {..m}" "j \<in> {..m}" "g i = g j"
    then have "t - i * S = t - j * S" using g [of i] g [of j] by simp
    moreover have "i * S \<le> t" "j * S \<le> t" using jS [of i] jS [of j] ij by auto
    ultimately have "i * S = j * S" by linarith
    with \<open>0 < S\<close> show "i = j" by simp
  qed
  then have "card {..m} \<le> card {..<n}" by (rule card_inj_on_le) (use g in auto)
  then have "m < n" by simp
  have "t - a < Suc m * S" using \<open>0 < S\<close> by (simp add: m_def dividend_less_div_times)
  also have "\<dots> \<le> n * S" using \<open>m < n\<close> by (intro mult_le_mono1) simp
  finally show ?thesis .
qed

lemma writer_distance:
  assumes "tk_inv s" "k < length (tkpcs s)" "wtk (tkpcs s ! k) = Some t"
  shows "t - seq_of s t < length (tkpcs s) * tkS s"
proof (rule held_tickets_close [where h = "\<lambda>k. wtk (tkpcs s ! k)"])
  fix u assume "u mod tkS s = t mod tkS s" "seq_of s t \<le> u" "u \<le> t"
  then show "\<exists>k < length (tkpcs s). wtk (tkpcs s ! k) = Some u"
    using tk_inv_held(1) [OF assms(1), of u] tk_inv_writer(1) [OF assms] by simp
qed (use tk_inv_size [OF assms(1)] tk_inv_writer(2) [OF assms] in auto)

lemma reader_distance:
  assumes "tk_inv s" "k < length (tkpcs s)" "rtk (tkpcs s ! k) = Some t"
  shows "Suc t - seq_of s t \<le> length (tkpcs s) * tkS s"
proof (cases "seq_of s t \<le> t")
  case True
  have "t - seq_of s t < length (tkpcs s) * tkS s"
  proof (rule held_tickets_close [where h = "\<lambda>k. rtk (tkpcs s ! k)"])
    fix u assume "u mod tkS s = t mod tkS s" "seq_of s t \<le> u" "u \<le> t"
    then show "\<exists>k < length (tkpcs s). rtk (tkpcs s ! k) = Some u"
      using tk_inv_held(2) [OF assms(1), of u] tk_inv_reader(1) [OF assms] by simp
  qed (use tk_inv_size [OF assms(1)] True in auto)
  with True show ?thesis by simp
qed (use tk_inv_reader(2) [OF assms] in auto)

section \<open>Progress\<close>

text \<open>A thread inside an operation can move on: it is not waiting, or its slot has its turn.\<close>

fun tk_ready :: "'a tk \<Rightarrow> nat tpc \<Rightarrow> bool" where
  "tk_ready s TIdle = False"
| "tk_ready s (TEnqWait t) = (seq_of s t = t)"
| "tk_ready s (TDeqWait t) = (seq_of s t = Suc t)"
| "tk_ready s _ = True"

lemma not_ready_writer:
  "wtk p = Some t \<Longrightarrow> \<not> tk_ready s p \<Longrightarrow> seq_of s t \<noteq> t"
  by (cases p) auto

lemma not_ready_reader:
  "rtk p = Some t \<Longrightarrow> \<not> tk_ready s p \<Longrightarrow> seq_of s t \<noteq> Suc t"
  by (cases p) auto

lemma stuck_writer_full:
  assumes inv: "tk_inv s" and stuck: "\<And>j. j < length (tkpcs s) \<Longrightarrow> \<not> tk_ready s (tkpcs s ! j)"
    and k: "k < length (tkpcs s)" "wtk (tkpcs s ! k) = Some t"
  shows "tkR s + tkS s \<le> t"
proof -
  from tk_inv_phase [OF inv, of t] obtain u where u: "u mod tkS s = t mod tkS s"
    "seq_of s t = u \<or> seq_of s t = Suc u \<and> u < tkW s"
    by (rule slot_phaseE)
  have same: "seq_of s u = seq_of s t" using u(1) by simp
  note w = tk_inv_writer(1,2) [OF inv k]
  have ne: "seq_of s t \<noteq> t" using not_ready_writer [OF k(2) stuck [OF k(1)]] .
  have "seq_of s t \<noteq> u"
  proof
    assume "seq_of s t = u"
    with w ne same tk_inv_held(1) [OF inv, of u] obtain j where
      "j < length (tkpcs s)" "wtk (tkpcs s ! j) = Some u" by auto
    with not_ready_writer stuck same \<open>seq_of s t = u\<close> show False by metis
  qed
  with u(2) have full: "seq_of s t = Suc u" by simp
  have "tkR s \<le> u"
  proof (rule ccontr)
    assume "\<not> tkR s \<le> u"
    with full same tk_inv_held(2) [OF inv, of u] obtain j where
      "j < length (tkpcs s)" "rtk (tkpcs s ! j) = Some u" by auto
    with not_ready_reader stuck same full show False by metis
  qed
  moreover have "u + tkS s \<le> t"
    by (rule writer_after_full) (use u(1) w(2) full in auto)
  ultimately show ?thesis by simp
qed

lemma stuck_reader_empty:
  assumes inv: "tk_inv s" and stuck: "\<And>j. j < length (tkpcs s) \<Longrightarrow> \<not> tk_ready s (tkpcs s ! j)"
    and k: "k < length (tkpcs s)" "rtk (tkpcs s ! k) = Some t"
  shows "tkW s \<le> t"
proof -
  from tk_inv_phase [OF inv, of t] obtain u where u: "u mod tkS s = t mod tkS s"
    "seq_of s t = u \<or> seq_of s t = Suc u \<and> u < tkW s"
    by (rule slot_phaseE)
  have same: "seq_of s u = seq_of s t" using u(1) by simp
  note r = tk_inv_reader(1,2) [OF inv k]
  have ne: "seq_of s t \<noteq> Suc t" using not_ready_reader [OF k(2) stuck [OF k(1)]] .
  have "seq_of s t \<noteq> Suc u"
  proof
    assume full: "seq_of s t = Suc u"
    with r ne same tk_inv_held(2) [OF inv, of u] obtain j where
      "j < length (tkpcs s)" "rtk (tkpcs s ! j) = Some u" by auto
    with not_ready_reader stuck same full show False by metis
  qed
  with u(2) have free: "seq_of s t = u" by simp
  have "tkW s \<le> u"
  proof (rule ccontr)
    assume "\<not> tkW s \<le> u"
    with free same tk_inv_held(1) [OF inv, of u] obtain j where
      "j < length (tkpcs s)" "wtk (tkpcs s ! j) = Some u" by auto
    with not_ready_writer stuck same free show False by metis
  qed
  with free r ne show ?thesis by simp
qed

end
