(* ===== verification/Ring_Concurrent.thy ===== *)
theory Ring_Concurrent
  imports Ticket_Protocol
begin

text \<open>
  The ring implements the ticket protocol: every interleaved run of the ring is a run of the
  abstract ticket machine with the same labels. The relation is \<open>of_nat\<close> on tickets and sequence
  numbers, so the wrap-around of the 64-bit counters is covered; the payload memory holds the
  value of every published ticket. From it follow the properties of concurrent use.
\<close>

section \<open>The refinement relation\<close>

fun core :: "'a pc \<Rightarrow> u64 tpc" where
  "core (EnqWait t d) = TEnqWait t"
| "core (EmplWait t d) = TEnqWait t"
| "core (EmplDestroy t d) = TEnqStore t"
| "core (EnqStore t d) = TEnqStore t"
| "core (EnqPublish t) = TEnqPublish t"
| "core (DeqWait t) = TDeqWait t"
| "core (DeqTake t) = TDeqTake t"
| "core (DeqRelease t d) = TDeqRelease t"
| "core (BatchWait i n t) = TDeqWait t"
| "core (BatchTake i n t) = TDeqTake t"
| "core (BatchRelease i n t d) = TDeqRelease t"
| "core _ = TIdle"

fun carried :: "'a pc \<Rightarrow> 'a option" where
  "carried (EnqWait t d) = Some d"
| "carried (EmplWait t d) = Some d"
| "carried (EmplDestroy t d) = Some d"
| "carried (EnqStore t d) = Some d"
| "carried (DeqRelease t d) = Some d"
| "carried (BatchRelease i n t d) = Some d"
| "carried _ = None"

fun tkt :: "'t tpc \<Rightarrow> 't option" where
  "tkt TIdle = None"
| "tkt (TEnqWait t) = Some t"
| "tkt (TEnqStore t) = Some t"
| "tkt (TEnqPublish t) = Some t"
| "tkt (TDeqWait t) = Some t"
| "tkt (TDeqTake t) = Some t"
| "tkt (TDeqRelease t) = Some t"

definition pc_rel :: "'a list \<Rightarrow> 'a pc \<Rightarrow> nat tpc \<Rightarrow> bool" where
  "pc_rel vals p q \<longleftrightarrow> core p = map_tpc of_nat q \<and>
     (\<forall>d. carried p = Some d \<longrightarrow> (\<exists>t. tkt q = Some t \<and> d = vals ! t))"

definition mem_rel :: "'a AtomicRingBuffer \<Rightarrow> 'a tk \<Rightarrow> bool" where
  "mem_rel r a \<longleftrightarrow> ring_size_ok (SIZE r) \<and> SIZE r = tkS a \<and>
     writeTicket r = of_nat (tkW a) \<and> readTicket r = of_nat (tkR a) \<and>
     (\<forall>i < SIZE r. seq (buffer r ! i) = of_nat (tkseq a ! i))"

text \<open>
  The payload of ticket \<open>t\<close> sits in its slot from the plain store until a consumer has moved it out.
\<close>

definition data_rel :: "'a AtomicRingBuffer \<Rightarrow> 'a tk \<Rightarrow> bool" where
  "data_rel r a \<longleftrightarrow>
     (\<forall>k < length (tkpcs a). \<forall>t. tkpcs a ! k = TEnqPublish t \<longrightarrow>
        data (buffer r ! (t mod tkS a)) = tkvals a ! t) \<and>
     (\<forall>t. seq_of a t = Suc t \<and> (\<forall>k < length (tkpcs a). tkpcs a ! k \<noteq> TDeqRelease t) \<longrightarrow>
        data (buffer r ! (t mod tkS a)) = tkvals a ! t)"

text \<open>Fewer than \<open>2 ^ 32\<close> threads: then no two outstanding tickets of a slot are equal modulo \<open>2 ^ 64\<close>.\<close>

definition ring_rel :: "'a ring_sys \<Rightarrow> 'a tk \<Rightarrow> bool" where
  "ring_rel c a \<longleftrightarrow> length (pcs c) = length (tkpcs a) \<and> length (pcs c) < 2 ^ 32 \<and>
     (\<forall>k < length (tkpcs a). pc_rel (tkvals a) (pcs c ! k) (tkpcs a ! k)) \<and>
     mem_rel (shared c) a \<and> data_rel (shared c) a"

section \<open>Guards\<close>

lemma threads_times_slots:
  assumes "n < 2 ^ 32" "ring_size_ok S"
  shows "n * S < 2 ^ 64 - 1"
proof -
  have "n * S \<le> (2 ^ 32 - 1) * 2 ^ 31"
    using assms ring_size_okD(2) [OF assms(2)] by (intro mult_le_mono) auto
  then show ?thesis by simp
qed

lemma seq_at_ticket:
  assumes "mem_rel r a"
  shows "seq (buffer r ! ring_index (SIZE r) (of_nat t)) = of_nat (seq_of a t)"
proof -
  have ok: "ring_size_ok (SIZE r)" "SIZE r = tkS a" using assms by (auto simp: mem_rel_def)
  have "t mod tkS a < tkS a" using ring_size_okD(3) [OF ok(1)] ok(2) by simp
  then show ?thesis using assms ok by (simp add: mem_rel_def ring_index_of_nat)
qed

lemma ring_rel_mem: "ring_rel c a \<Longrightarrow> mem_rel (shared c) a"
  by (simp add: ring_rel_def)

lemma can_write_iff:
  assumes "ring_rel c a" "tk_inv a" "k < length (tkpcs a)" "tkpcs a ! k = TEnqWait t"
  shows "can_write (shared c) (of_nat t) \<longleftrightarrow> seq_of a t = t"
proof
  assume "can_write (shared c) (of_nat t)"
  then have eq: "(of_nat (seq_of a t) :: u64) = of_nat t"
    using seq_at_ticket [OF ring_rel_mem [OF assms(1)], of t] by (simp add: can_write_def)
  have "seq_of a t \<le> t" "t - seq_of a t < length (tkpcs a) * tkS a"
    using tk_inv_writer(2) [OF assms(2,3)] writer_distance [OF assms(2,3)] assms(4) by auto
  moreover have "length (tkpcs a) * tkS a < 2 ^ 64 - 1"
    using assms(1) threads_times_slots by (auto simp: ring_rel_def mem_rel_def)
  ultimately show "seq_of a t = t" using of_nat_word_inject_close [OF eq] by simp
qed (use seq_at_ticket [OF ring_rel_mem [OF assms(1)], of t] in \<open>simp add: can_write_def\<close>)

lemma can_read_iff:
  assumes "ring_rel c a" "tk_inv a" "k < length (tkpcs a)" "tkpcs a ! k = TDeqWait t"
  shows "can_read (shared c) (of_nat t) \<longleftrightarrow> seq_of a t = Suc t"
proof
  assume "can_read (shared c) (of_nat t)"
  then have eq: "(of_nat (seq_of a t) :: u64) = of_nat (Suc t)"
    using seq_at_ticket [OF ring_rel_mem [OF assms(1)], of t] by (simp add: can_read_def add.commute)
  have "seq_of a t \<le> Suc t" "Suc t - seq_of a t \<le> length (tkpcs a) * tkS a"
    using tk_inv_reader(2) [OF assms(2,3)] reader_distance [OF assms(2,3)] assms(4) by auto
  moreover have "length (tkpcs a) * tkS a < 2 ^ 64 - 1"
    using assms(1) threads_times_slots by (auto simp: ring_rel_def mem_rel_def)
  ultimately show "seq_of a t = Suc t" using of_nat_word_inject_close [OF eq] by simp
qed (use seq_at_ticket [OF ring_rel_mem [OF assms(1)], of t] in \<open>simp add: can_read_def add.commute\<close>)


section \<open>Memory effects\<close>

lemma pc_rel_cases:
  assumes "pc_rel vals p q"
  shows "core p = TIdle \<Longrightarrow> q = TIdle"
    "core p = TEnqWait w \<Longrightarrow> \<exists>t. q = TEnqWait t \<and> w = of_nat t"
    "core p = TEnqStore w \<Longrightarrow> \<exists>t. q = TEnqStore t \<and> w = of_nat t"
    "core p = TEnqPublish w \<Longrightarrow> \<exists>t. q = TEnqPublish t \<and> w = of_nat t"
    "core p = TDeqWait w \<Longrightarrow> \<exists>t. q = TDeqWait t \<and> w = of_nat t"
    "core p = TDeqTake w \<Longrightarrow> \<exists>t. q = TDeqTake t \<and> w = of_nat t"
    "core p = TDeqRelease w \<Longrightarrow> \<exists>t. q = TDeqRelease t \<and> w = of_nat t"
  using assms by (cases q; auto simp: pc_rel_def)+

lemma mem_rel_index:
  assumes "mem_rel r a"
  shows "ring_index (SIZE r) (of_nat t) = t mod tkS a" "t mod tkS a < SIZE r" "SIZE r = tkS a"
proof -
  have ok: "ring_size_ok (SIZE r)" and S: "SIZE r = tkS a" using assms by (auto simp: mem_rel_def)
  show "ring_index (SIZE r) (of_nat t) = t mod tkS a" using ring_index_of_nat [OF ok] S by simp
  show "t mod tkS a < SIZE r" using ring_size_okD(3) [OF ok] S by simp
  show "SIZE r = tkS a" by (rule S)
qed

lemma mem_rel_data_upd:
  assumes "mem_rel r a"
  shows "mem_rel (upd_slot i (\<lambda>sl. sl\<lparr>data := f (data sl)\<rparr>) r) a"
  using assms by (cases "i < SIZE r") (auto simp: mem_rel_def upd_slot_def nth_list_update list_update_beyond)

lemma mem_rel_pcs [simp]: "mem_rel r (a\<lparr>tkpcs := q\<rparr>) = mem_rel r a"
  by (simp add: mem_rel_def)

lemma mem_rel_seq_upd:
  assumes "mem_rel r a" "w = of_nat v"
  shows "mem_rel (upd_slot (t mod tkS a) (\<lambda>sl. sl\<lparr>seq := w\<rparr>) r) (tk_advance a i t v ts)"
  using assms mem_rel_index(1,2) [OF assms(1), of t]
  by (auto simp: mem_rel_def upd_slot_def tk_advance_def nth_list_update)

lemma ring_rel_intro:
  assumes "ring_rel c a" "i < length (pcs c)"
    and "pc_rel (tkvals a') p q" "tkpcs a' = (tkpcs a)[i := q]"
    and "\<And>k. k < length (tkpcs a) \<Longrightarrow> pc_rel (tkvals a) (pcs c ! k) (tkpcs a ! k) \<Longrightarrow> pc_rel (tkvals a') (pcs c ! k) (tkpcs a ! k)"
    and "mem_rel r a'" "data_rel r a'"
  shows "ring_rel (c\<lparr>shared := r, pcs := (pcs c)[i := p]\<rparr>) a'"
  using assms by (auto simp: ring_rel_def nth_list_update)


lemma data_rel_publishing:
  assumes "data_rel r a" "k < length (tkpcs a)" "tkpcs a ! k = TEnqPublish t"
  shows "data (buffer r ! (t mod tkS a)) = tkvals a ! t"
  using assms by (auto simp: data_rel_def)

lemma data_rel_full:
  assumes "data_rel r a" "seq_of a t = Suc t" "\<And>k. k < length (tkpcs a) \<Longrightarrow> tkpcs a ! k \<noteq> TDeqRelease t"
  shows "data (buffer r ! (t mod tkS a)) = tkvals a ! t"
  using assms by (auto simp: data_rel_def)

lemma data_relI:
  assumes "\<And>k t. k < length (tkpcs a) \<Longrightarrow> tkpcs a ! k = TEnqPublish t \<Longrightarrow> data (buffer r ! (t mod tkS a)) = tkvals a ! t"
    and "\<And>t. seq_of a t = Suc t \<Longrightarrow> (\<And>k. k < length (tkpcs a) \<Longrightarrow> tkpcs a ! k \<noteq> TDeqRelease t) \<Longrightarrow>
      data (buffer r ! (t mod tkS a)) = tkvals a ! t"
  shows "data_rel r a"
  using assms by (auto simp: data_rel_def)

lemma data_rel_move:
  assumes "data_rel r a" "i < length (tkpcs a)" "\<And>t. q \<noteq> TEnqPublish t" "\<And>t. tkpcs a ! i \<noteq> TDeqRelease t"
  shows "data_rel r (a\<lparr>tkpcs := (tkpcs a)[i := q]\<rparr>)"
proof (rule data_relI)
  fix k t assume "k < length (tkpcs (a\<lparr>tkpcs := (tkpcs a)[i := q]\<rparr>))"
    "tkpcs (a\<lparr>tkpcs := (tkpcs a)[i := q]\<rparr>) ! k = TEnqPublish t"
  then have "k < length (tkpcs a)" "tkpcs a ! k = TEnqPublish t"
    using assms(2,3) by (auto simp: nth_list_update split: if_splits)
  then show "data (buffer r ! (t mod tkS (a\<lparr>tkpcs := (tkpcs a)[i := q]\<rparr>))) = tkvals (a\<lparr>tkpcs := (tkpcs a)[i := q]\<rparr>) ! t"
    using data_rel_publishing [OF assms(1)] by simp
next
  fix t assume full: "seq_of (a\<lparr>tkpcs := (tkpcs a)[i := q]\<rparr>) t = Suc t"
    and free: "\<And>k. k < length (tkpcs (a\<lparr>tkpcs := (tkpcs a)[i := q]\<rparr>)) \<Longrightarrow>
      tkpcs (a\<lparr>tkpcs := (tkpcs a)[i := q]\<rparr>) ! k \<noteq> TDeqRelease t"
  have "tkpcs a ! k \<noteq> TDeqRelease t" if "k < length (tkpcs a)" for k
    using free [of k] that assms(4) by (cases "k = i") auto
  then show "data (buffer r ! (t mod tkS (a\<lparr>tkpcs := (tkpcs a)[i := q]\<rparr>))) = tkvals (a\<lparr>tkpcs := (tkpcs a)[i := q]\<rparr>) ! t"
    using data_rel_full [OF assms(1), of t] full by simp
qed

lemma data_upd_slot:
  assumes "i < SIZE r"
  shows "data (buffer (upd_slot i f r) ! j) = (if j = i then data (f (buffer r ! i)) else data (buffer r ! j))"
  using assms by (simp add: upd_slot_def nth_list_update)

text \<open>
  While a producer is inside its slot the slot is neither full nor published by another thread, so
  changing its payload disturbs nobody.
\<close>

lemma data_rel_writer_inside:
  assumes rel: "data_rel r a" "mem_rel r a" and inv: "tk_inv a"
    and i: "i < length (tkpcs a)" "tkpcs a ! i = TEnqStore t"
  shows "data_rel (upd_slot (t mod tkS a) (\<lambda>sl. sl\<lparr>data := f (data sl)\<rparr>) r) a" (is "data_rel ?r a")
proof (rule data_relI)
  note S2 = tk_inv_size [OF inv]
  have sq: "seq_of a t = t" using tk_inv_writer(3) [OF inv i(1), of t] i(2) by simp
  note upd = data_upd_slot [OF mem_rel_index(2) [OF rel(2)]]
  {
    fix k u assume k: "k < length (tkpcs a)" "tkpcs a ! k = TEnqPublish u"
    then have "seq_of a u = u" using tk_inv_writer(3) [OF inv k(1), of u] by simp
    moreover have "u \<noteq> t" using tk_inv_unique(1) [OF inv k(1) i(1), of t] k(2) i(2) by auto
    ultimately have "u mod tkS a \<noteq> t mod tkS a" using sq by auto
    then show "data (buffer ?r ! (u mod tkS a)) = tkvals a ! u"
      using data_rel_publishing [OF rel(1) k] by (simp add: upd)
  next
    fix u assume full: "seq_of a u = Suc u" "\<And>k. k < length (tkpcs a) \<Longrightarrow> tkpcs a ! k \<noteq> TDeqRelease u"
    have "u mod tkS a \<noteq> t mod tkS a"
      using full(1) sq Suc_mod_neq [OF S2, of t u] by auto
    then show "data (buffer ?r ! (u mod tkS a)) = tkvals a ! u"
      using data_rel_full [OF rel(1) full] by (simp add: upd)
  }
qed

lemma data_rel_store:
  assumes rel: "data_rel r a" "mem_rel r a" and inv: "tk_inv a"
    and i: "i < length (tkpcs a)" "tkpcs a ! i = TEnqStore t"
  shows "data_rel (upd_slot (t mod tkS a) (\<lambda>sl. sl\<lparr>data := tkvals a ! t\<rparr>) r)
    (a\<lparr>tkpcs := (tkpcs a)[i := TEnqPublish t]\<rparr>)" (is "data_rel ?r ?a")
proof (rule data_relI)
  have r: "data_rel ?r a" using data_rel_writer_inside [OF assms, of "\<lambda>_. tkvals a ! t"] .
  {
    fix k u assume k: "k < length (tkpcs ?a)" "tkpcs ?a ! k = TEnqPublish u"
    show "data (buffer ?r ! (u mod tkS ?a)) = tkvals ?a ! u"
    proof (cases "k = i")
      case True
      then have "u = t" using k i(1) by simp
      then show ?thesis by (simp add: data_upd_slot mem_rel_index(2) [OF rel(2)])
    next
      case False
      then show ?thesis using k data_rel_publishing [OF r, of k u] by simp
    qed
  next
    fix u assume full: "seq_of ?a u = Suc u" "\<And>k. k < length (tkpcs ?a) \<Longrightarrow> tkpcs ?a ! k \<noteq> TDeqRelease u"
    have "tkpcs a ! k \<noteq> TDeqRelease u" if "k < length (tkpcs a)" for k
      using full(2) [of k] that i(2) by (cases "k = i") auto
    then show "data (buffer ?r ! (u mod tkS ?a)) = tkvals ?a ! u"
      using data_rel_full [OF r, of u] full(1) by simp
  }
qed

lemma data_rel_take:
  assumes rel: "data_rel r a" "mem_rel r a" and inv: "tk_inv a"
    and i: "i < length (tkpcs a)" "tkpcs a ! i = TDeqTake t"
  shows "data (buffer r ! (t mod tkS a)) = tkvals a ! t"
    and "data_rel (upd_slot (t mod tkS a) (\<lambda>sl. sl\<lparr>data := f (data sl)\<rparr>) r)
      (a\<lparr>tkpcs := (tkpcs a)[i := TDeqRelease t]\<rparr>)" (is "data_rel ?r ?a")
proof -
  note S2 = tk_inv_size [OF inv]
  have sq: "seq_of a t = Suc t" using tk_inv_reader(3) [OF inv i(1), of t] i(2) by simp
  note upd = data_upd_slot [OF mem_rel_index(2) [OF rel(2)]]
  have "tkpcs a ! k \<noteq> TDeqRelease t" if "k < length (tkpcs a)" for k
    using tk_inv_unique(2) [OF inv that i(1), of t] i(2) by auto
  then show "data (buffer r ! (t mod tkS a)) = tkvals a ! t"
    using data_rel_full [OF rel(1) sq] by blast
  show "data_rel ?r ?a"
  proof (rule data_relI)
    fix k u assume k': "k < length (tkpcs ?a)" "tkpcs ?a ! k = TEnqPublish u"
    then have k: "k < length (tkpcs a)" "tkpcs a ! k = TEnqPublish u"
      using i(1) by (auto simp: nth_list_update split: if_splits)
    then have "seq_of a u = u" using tk_inv_writer(3) [OF inv k(1), of u] by simp
    then have "u mod tkS a \<noteq> t mod tkS a" using sq Suc_mod_neq [OF S2, of u t] by auto
    then show "data (buffer ?r ! (u mod tkS ?a)) = tkvals ?a ! u"
      using data_rel_publishing [OF rel(1) k] by (simp add: upd)
  next
    fix u assume full: "seq_of ?a u = Suc u" "\<And>k. k < length (tkpcs ?a) \<Longrightarrow> tkpcs ?a ! k \<noteq> TDeqRelease u"
    have "u \<noteq> t" using full(2) [of i] i(1) by auto
    then have "u mod tkS a \<noteq> t mod tkS a" using full(1) sq by auto
    moreover have "tkpcs a ! k \<noteq> TDeqRelease u" if "k < length (tkpcs a)" for k
      using full(2) [of k] that i(2) by (cases "k = i") auto
    ultimately show "data (buffer ?r ! (u mod tkS ?a)) = tkvals ?a ! u"
      using data_rel_full [OF rel(1), of u] full(1) by (simp add: upd)
  qed
qed


lemma data_seq_upd [simp]: "data (buffer (upd_slot i (\<lambda>sl. sl\<lparr>seq := w\<rparr>) r) ! j) = data (buffer r ! j)"
  by (cases "i < SIZE r") (simp_all add: upd_slot_def nth_list_update list_update_beyond)

lemma data_rel_publish:
  assumes rel: "data_rel r a" and inv: "tk_inv a"
    and i: "i < length (tkpcs a)" "tkpcs a ! i = TEnqPublish t"
  shows "data_rel (upd_slot j (\<lambda>sl. sl\<lparr>seq := w\<rparr>) r) (tk_advance a i t (Suc t) [])" (is "data_rel ?r ?a")
proof (rule data_relI)
  note sq = tk_advance_seq [OF tk_inv_size [OF inv], of i t "Suc t" "[]"]
  {
    fix k u assume "k < length (tkpcs ?a)" "tkpcs ?a ! k = TEnqPublish u"
    then have "k < length (tkpcs a)" "tkpcs a ! k = TEnqPublish u"
      using i(1) by (auto simp: nth_list_update split: if_splits)
    then show "data (buffer ?r ! (u mod tkS ?a)) = tkvals ?a ! u"
      using data_rel_publishing [OF rel] by simp
  next
    fix u assume full: "seq_of ?a u = Suc u" "\<And>k. k < length (tkpcs ?a) \<Longrightarrow> tkpcs ?a ! k \<noteq> TDeqRelease u"
    show "data (buffer ?r ! (u mod tkS ?a)) = tkvals ?a ! u"
    proof (cases "u mod tkS a = t mod tkS a")
      case True
      then have "u = t" using full(1) sq [of u] by simp
      then show ?thesis using data_rel_publishing [OF rel i] by simp
    next
      case False
      then have "seq_of a u = Suc u" using full(1) sq [of u] by simp
      moreover have "tkpcs a ! k \<noteq> TDeqRelease u" if "k < length (tkpcs a)" for k
        using full(2) [of k] that i(2) by (cases "k = i") auto
      ultimately show ?thesis using data_rel_full [OF rel, of u] by simp
    qed
  }
qed

lemma data_rel_release:
  assumes rel: "data_rel r a" and inv: "tk_inv a"
    and i: "i < length (tkpcs a)" "tkpcs a ! i = TDeqRelease t"
  shows "data_rel (upd_slot j (\<lambda>sl. sl\<lparr>seq := w\<rparr>) r) (tk_advance a i t (t + tkS a) [t])" (is "data_rel ?r ?a")
proof (rule data_relI)
  note S2 = tk_inv_size [OF inv]
  note sq = tk_advance_seq [OF S2, of i t "t + tkS a" "[t]"]
  {
    fix k u assume "k < length (tkpcs ?a)" "tkpcs ?a ! k = TEnqPublish u"
    then have "k < length (tkpcs a)" "tkpcs a ! k = TEnqPublish u"
      using i(1) by (auto simp: nth_list_update split: if_splits)
    then show "data (buffer ?r ! (u mod tkS ?a)) = tkvals ?a ! u"
      using data_rel_publishing [OF rel] by simp
  next
    fix u assume full: "seq_of ?a u = Suc u" "\<And>k. k < length (tkpcs ?a) \<Longrightarrow> tkpcs ?a ! k \<noteq> TDeqRelease u"
    have ne: "u mod tkS a \<noteq> t mod tkS a"
    proof
      assume eq: "u mod tkS a = t mod tkS a"
      then have "t + tkS a = Suc u" using full(1) sq [of u] by simp
      moreover have "(t + tkS a) mod tkS a = u mod tkS a" using eq by simp
      ultimately show False using Suc_mod_neq [OF S2] by blast
    qed
    then have "seq_of a u = Suc u" using full(1) sq [of u] by simp
    moreover have "tkpcs a ! k \<noteq> TDeqRelease u" if "k < length (tkpcs a)" for k
      using full(2) [of k] that i(2) ne by (cases "k = i") auto
    ultimately show "data (buffer ?r ! (u mod tkS ?a)) = tkvals ?a ! u"
      using data_rel_full [OF rel, of u] by simp
  }
qed

lemma data_rel_enq_call:
  assumes rel: "data_rel r a" and inv: "tk_inv a" and i: "i < length (tkpcs a)" "tkpcs a ! i = TIdle"
  shows "data_rel (r\<lparr>writeTicket := w\<rparr>) (a\<lparr>tkvals := tkvals a @ [d], tkpcs := (tkpcs a)[i := TEnqWait (tkW a)]\<rparr>)"
    (is "data_rel ?r ?a")
proof (rule data_relI)
  have r': "data_rel r (a\<lparr>tkpcs := (tkpcs a)[i := TEnqWait (tkW a)]\<rparr>)" (is "data_rel r ?b")
    by (rule data_rel_move [OF rel]) (use i in auto)
  {
    fix k u assume k: "k < length (tkpcs ?a)" "tkpcs ?a ! k = TEnqPublish u"
    then have "k \<noteq> i" using i(1) by auto
    then have "u < tkW a" using k tk_inv_writer(1) [OF inv, of k u] by simp
    then show "data (buffer ?r ! (u mod tkS ?a)) = tkvals ?a ! u"
      using data_rel_publishing [OF r', of k u] k by (simp add: nth_append)
  next
    fix u assume full: "seq_of ?a u = Suc u" "\<And>k. k < length (tkpcs ?a) \<Longrightarrow> tkpcs ?a ! k \<noteq> TDeqRelease u"
    then have "u < tkW a" using full_is_claimed [OF inv, of u] by simp
    then show "data (buffer ?r ! (u mod tkS ?a)) = tkvals ?a ! u"
      using data_rel_full [OF r', of u] full by (simp add: nth_append)
  }
qed

lemma data_rel_frame:
  assumes "data_rel r a" "buffer r' = buffer r" "tkpcs a' = tkpcs a" "tkvals a' = tkvals a" "tkseq a' = tkseq a"
  shows "data_rel r' a'"
  using assms by (simp add: data_rel_def)


section \<open>The simulation\<close>

lemma ring_rel_stutter:
  assumes "ring_rel c a" "i < length (pcs c)" "pc_rel (tkvals a) p (tkpcs a ! i)" "mem_rel r a" "data_rel r a"
  shows "ring_rel (c\<lparr>shared := r, pcs := (pcs c)[i := p]\<rparr>) a"
  by (rule ring_rel_intro [OF assms(1-3)]) (use assms in auto)

lemma ring_rel_move:
  assumes "ring_rel c a" "i < length (pcs c)" "pc_rel (tkvals a) p q" "mem_rel r a"
    "data_rel r (a\<lparr>tkpcs := (tkpcs a)[i := q]\<rparr>)"
  shows "ring_rel (c\<lparr>shared := r, pcs := (pcs c)[i := p]\<rparr>) (a\<lparr>tkpcs := (tkpcs a)[i := q]\<rparr>)"
  by (rule ring_rel_intro [OF assms(1,2)]) (use assms(3-5) in auto)

lemma ring_relD:
  assumes "ring_rel c a"
  shows "mem_rel (shared c) a" "data_rel (shared c) a" "length (tkpcs a) = length (pcs c)"
    "i < length (pcs c) \<Longrightarrow> pc_rel (tkvals a) (pcs c ! i) (tkpcs a ! i)"
  using assms by (auto simp: ring_rel_def)

lemma pc_rel_idle [simp]: "core p = TIdle \<Longrightarrow> carried p = None \<Longrightarrow> pc_rel vals p TIdle"
  by (simp add: pc_rel_def)

lemma sim_write_wait:
  assumes rel: "ring_rel c a" and inv: "tk_inv a" and i: "i < length (pcs c)"
    and p: "core (pcs c ! i) = TEnqWait w" and p': "core p = TEnqStore w" "carried p = carried (pcs c ! i)"
    and r: "r = (if can_write (shared c) w then p else pcs c ! i)"
  shows "\<exists>a'. tk_step a (Tau i) a' \<and> ring_rel (c\<lparr>shared := shared c, pcs := (pcs c)[i := r]\<rparr>) a'"
proof -
  note R = ring_relD [OF rel]
  note pr = R(4) [OF i]
  from pc_rel_cases(2) [OF pr p] obtain t where t: "tkpcs a ! i = TEnqWait t" "w = of_nat t" by blast
  have ia: "i < length (tkpcs a)" using i R(3) by simp
  have iff: "can_write (shared c) w \<longleftrightarrow> seq_of a t = t" using can_write_iff [OF rel inv ia t(1)] t(2) by simp
  show ?thesis
  proof (cases "can_write (shared c) w")
    case True
    have "tk_step a (Tau i) (a\<lparr>tkpcs := (tkpcs a)[i := TEnqStore t]\<rparr>)"
      by (rule tk_enq_enter [OF ia t(1)]) (use True iff in simp)
    moreover have "ring_rel (c\<lparr>shared := shared c, pcs := (pcs c)[i := p]\<rparr>) (a\<lparr>tkpcs := (tkpcs a)[i := TEnqStore t]\<rparr>)"
    proof (rule ring_rel_move [OF rel i])
      show "pc_rel (tkvals a) p (TEnqStore t)" using pr p' t by (simp add: pc_rel_def)
      show "data_rel (shared c) (a\<lparr>tkpcs := (tkpcs a)[i := TEnqStore t]\<rparr>)"
        by (rule data_rel_move [OF R(2) ia]) (use t in auto)
    qed (rule R(1))
    ultimately show ?thesis using True r by auto
  next
    case False
    then have "ring_rel (c\<lparr>shared := shared c, pcs := (pcs c)[i := r]\<rparr>) a"
      using r by (intro ring_rel_stutter [OF rel i]) (use pr R in auto)
    then show ?thesis using tk_skip [of "Tau i" a] by auto
  qed
qed

lemma sim_read_wait:
  assumes rel: "ring_rel c a" and inv: "tk_inv a" and i: "i < length (pcs c)"
    and p: "core (pcs c ! i) = TDeqWait w" and p': "core p = TDeqTake w" "carried p = None"
    and r: "r = (if can_read (shared c) w then p else pcs c ! i)"
  shows "\<exists>a'. tk_step a (Tau i) a' \<and> ring_rel (c\<lparr>shared := shared c, pcs := (pcs c)[i := r]\<rparr>) a'"
proof -
  note R = ring_relD [OF rel]
  note pr = R(4) [OF i]
  from pc_rel_cases(5) [OF pr p] obtain t where t: "tkpcs a ! i = TDeqWait t" "w = of_nat t" by blast
  have ia: "i < length (tkpcs a)" using i R(3) by simp
  have iff: "can_read (shared c) w \<longleftrightarrow> seq_of a t = Suc t" using can_read_iff [OF rel inv ia t(1)] t(2) by simp
  show ?thesis
  proof (cases "can_read (shared c) w")
    case True
    have "tk_step a (Tau i) (a\<lparr>tkpcs := (tkpcs a)[i := TDeqTake t]\<rparr>)"
      by (rule tk_deq_enter [OF ia t(1)]) (use True iff in simp)
    moreover have "ring_rel (c\<lparr>shared := shared c, pcs := (pcs c)[i := p]\<rparr>) (a\<lparr>tkpcs := (tkpcs a)[i := TDeqTake t]\<rparr>)"
    proof (rule ring_rel_move [OF rel i])
      show "pc_rel (tkvals a) p (TDeqTake t)" using p' t by (simp add: pc_rel_def)
      show "data_rel (shared c) (a\<lparr>tkpcs := (tkpcs a)[i := TDeqTake t]\<rparr>)"
        by (rule data_rel_move [OF R(2) ia]) (use t in auto)
    qed (rule R(1))
    ultimately show ?thesis using True r by auto
  next
    case False
    then have "ring_rel (c\<lparr>shared := shared c, pcs := (pcs c)[i := r]\<rparr>) a"
      using r by (intro ring_rel_stutter [OF rel i]) (use pr R in auto)
    then show ?thesis using tk_skip [of "Tau i" a] by auto
  qed
qed

lemma sim_write_slot:
  assumes rel: "ring_rel c a" and inv: "tk_inv a" and i: "i < length (pcs c)"
    and p: "core (pcs c ! i) = TEnqStore w" "carried (pcs c ! i) = Some d"
  shows "\<exists>a'. tk_step a (Tau i) a' \<and>
      ring_rel (c\<lparr>shared := write_slot w d (shared c), pcs := (pcs c)[i := EnqPublish w]\<rparr>) a'" (is ?store)
    and "\<exists>a'. tk_step a (Tau i) a' \<and> ring_rel (c\<lparr>shared :=
        upd_slot (ring_index (SIZE (shared c)) w) (\<lambda>sl. sl\<lparr>data := f (data sl)\<rparr>) (shared c),
        pcs := (pcs c)[i := EnqStore w d]\<rparr>) a'" (is ?destroy)
proof -
  note R = ring_relD [OF rel]
  note pr = R(4) [OF i]
  from pc_rel_cases(3) [OF pr p(1)] obtain t where t: "tkpcs a ! i = TEnqStore t" "w = of_nat t" by blast
  have ia: "i < length (tkpcs a)" using i R(3) by simp
  have d: "d = tkvals a ! t" using pr p(2) t by (auto simp: pc_rel_def)
  note idx = mem_rel_index(1) [OF R(1), of t]
  have "tk_step a (Tau i) (a\<lparr>tkpcs := (tkpcs a)[i := TEnqPublish t]\<rparr>)"
    by (rule tk_enq_store [OF ia t(1)])
  moreover have "ring_rel (c\<lparr>shared := write_slot w d (shared c), pcs := (pcs c)[i := EnqPublish w]\<rparr>)
      (a\<lparr>tkpcs := (tkpcs a)[i := TEnqPublish t]\<rparr>)"
  proof (rule ring_rel_move [OF rel i])
    show "pc_rel (tkvals a) (EnqPublish w) (TEnqPublish t)" using t by (simp add: pc_rel_def)
    show "mem_rel (write_slot w d (shared c)) a"
      using mem_rel_data_upd [OF R(1), of "t mod tkS a" "\<lambda>_. d"] idx t by (simp add: write_slot_def)
    show "data_rel (write_slot w d (shared c)) (a\<lparr>tkpcs := (tkpcs a)[i := TEnqPublish t]\<rparr>)"
      using data_rel_store [OF R(2,1) inv ia t(1)] idx t d by (simp add: write_slot_def)
  qed
  ultimately show ?store by blast
  have "ring_rel (c\<lparr>shared := upd_slot (ring_index (SIZE (shared c)) w) (\<lambda>sl. sl\<lparr>data := f (data sl)\<rparr>) (shared c),
        pcs := (pcs c)[i := EnqStore w d]\<rparr>) a"
  proof (rule ring_rel_stutter [OF rel i])
    show "pc_rel (tkvals a) (EnqStore w d) (tkpcs a ! i)" using t d by (simp add: pc_rel_def)
  qed (use mem_rel_data_upd [OF R(1)] data_rel_writer_inside [OF R(2,1) inv ia t(1), of f] idx t in simp_all)
  then show ?destroy using tk_skip [of "Tau i" a] by auto
qed

lemma sim_publish:
  assumes rel: "ring_rel c a" and inv: "tk_inv a" and i: "i < length (pcs c)"
    and p: "core (pcs c ! i) = TEnqPublish w"
  shows "\<exists>a'. tk_step a (EnqRet i) a' \<and> ring_rel (c\<lparr>shared := publish_slot w (shared c), pcs := (pcs c)[i := Idle]\<rparr>) a'"
proof -
  note R = ring_relD [OF rel]
  from pc_rel_cases(4) [OF R(4) [OF i] p] obtain t where t: "tkpcs a ! i = TEnqPublish t" "w = of_nat t" by blast
  have ia: "i < length (tkpcs a)" using i R(3) by simp
  note idx = mem_rel_index(1) [OF R(1), of t]
  have "tk_step a (EnqRet i) (tk_advance a i t (Suc t) [])"
    using tk_enq_publish [OF ia t(1)] by (simp add: tk_advance_def)
  moreover have "ring_rel (c\<lparr>shared := publish_slot w (shared c), pcs := (pcs c)[i := Idle]\<rparr>) (tk_advance a i t (Suc t) [])"
  proof (rule ring_rel_intro [OF rel i, where q = TIdle])
    show "mem_rel (publish_slot w (shared c)) (tk_advance a i t (Suc t) [])"
      using mem_rel_seq_upd [OF R(1), of "w + 1" "Suc t" t i "[]"] t idx by (simp add: publish_slot_def add.commute)
    show "data_rel (publish_slot w (shared c)) (tk_advance a i t (Suc t) [])"
      unfolding publish_slot_def by (rule data_rel_publish [OF R(2) inv ia t(1)])
  qed simp_all
  ultimately show ?thesis by blast
qed

lemma sim_take:
  assumes rel: "ring_rel c a" and inv: "tk_inv a" and i: "i < length (pcs c)"
    and p: "core (pcs c ! i) = TDeqTake w" and tk: "take_slot mv w (shared c) = (d, r)"
    and p': "core p = TDeqRelease w" "carried p = Some d" and r': "buffer r' = buffer r"
      "writeTicket r' = writeTicket r" "readTicket r' = readTicket r"
  shows "\<exists>a'. tk_step a (Tau i) a' \<and> ring_rel (c\<lparr>shared := r', pcs := (pcs c)[i := p]\<rparr>) a'"
proof -
  note R = ring_relD [OF rel]
  from pc_rel_cases(6) [OF R(4) [OF i] p] obtain t where t: "tkpcs a ! i = TDeqTake t" "w = of_nat t" by blast
  have ia: "i < length (tkpcs a)" using i R(3) by simp
  note idx = mem_rel_index(1) [OF R(1), of t]
  note tkd = data_rel_take [OF R(2,1) inv ia t(1)]
  have d: "d = tkvals a ! t" and r: "r = upd_slot (t mod tkS a) (\<lambda>sl. sl\<lparr>data := mv (data sl)\<rparr>) (shared c)"
    using tk tkd(1) idx t by (auto simp: take_slot_def)
  have "tk_step a (Tau i) (a\<lparr>tkpcs := (tkpcs a)[i := TDeqRelease t]\<rparr>)"
    by (rule tk_deq_take [OF ia t(1)])
  moreover have "ring_rel (c\<lparr>shared := r', pcs := (pcs c)[i := p]\<rparr>) (a\<lparr>tkpcs := (tkpcs a)[i := TDeqRelease t]\<rparr>)"
  proof (rule ring_rel_move [OF rel i])
    show "pc_rel (tkvals a) p (TDeqRelease t)" using p' t d by (simp add: pc_rel_def)
    have "mem_rel r a" unfolding r by (rule mem_rel_data_upd [OF R(1)])
    then show "mem_rel r' a" using r' by (auto simp: mem_rel_def)
    have "data_rel r (a\<lparr>tkpcs := (tkpcs a)[i := TDeqRelease t]\<rparr>)" unfolding r by (rule tkd(2))
    then show "data_rel r' (a\<lparr>tkpcs := (tkpcs a)[i := TDeqRelease t]\<rparr>)" by (rule data_rel_frame) (use r' in auto)
  qed
  ultimately show ?thesis by blast
qed

lemma sim_release:
  assumes rel: "ring_rel c a" and inv: "tk_inv a" and i: "i < length (pcs c)"
    and p: "core (pcs c ! i) = TDeqRelease w" "carried (pcs c ! i) = Some d"
    and p': "core p = TIdle" "carried p = None"
  shows "\<exists>a'. tk_step a (DeqRet i d) a' \<and> ring_rel (c\<lparr>shared := release_slot w (shared c), pcs := (pcs c)[i := p]\<rparr>) a'"
proof -
  note R = ring_relD [OF rel]
  note pr = R(4) [OF i]
  from pc_rel_cases(7) [OF pr p(1)] obtain t where t: "tkpcs a ! i = TDeqRelease t" "w = of_nat t" by blast
  have ia: "i < length (tkpcs a)" using i R(3) by simp
  have d: "d = tkvals a ! t" using pr p(2) t by (auto simp: pc_rel_def)
  note idx = mem_rel_index(1,3) [OF R(1)]
  have "tk_step a (DeqRet i d) (tk_advance a i t (t + tkS a) [t])"
    using tk_deq_release [OF ia t(1)] d by (simp add: tk_advance_def)
  moreover have "ring_rel (c\<lparr>shared := release_slot w (shared c), pcs := (pcs c)[i := p]\<rparr>) (tk_advance a i t (t + tkS a) [t])"
  proof (rule ring_rel_intro [OF rel i, where q = TIdle])
    show "mem_rel (release_slot w (shared c)) (tk_advance a i t (t + tkS a) [t])"
      using mem_rel_seq_upd [OF R(1), of "w + of_nat (tkS a)" "t + tkS a" t i "[t]"] t idx by (simp add: release_slot_def)
    show "data_rel (release_slot w (shared c)) (tk_advance a i t (t + tkS a) [t])"
      unfolding release_slot_def by (rule data_rel_release [OF R(2) inv ia t(1)])
  qed (use p' in simp_all)
  ultimately show ?thesis by blast
qed


lemma pc_rel_append:
  assumes "tk_inv a" "k < length (tkpcs a)" "pc_rel (tkvals a) p (tkpcs a ! k)"
  shows "pc_rel (tkvals a @ vs) p (tkpcs a ! k)"
proof -
  have "t < tkW a" if "carried p = Some d" "tkt (tkpcs a ! k) = Some t" for d t
  proof (cases "wtk (tkpcs a ! k)")
    case (Some u)
    with that tk_inv_writer(1) [OF assms(1,2)] show ?thesis by (cases "tkpcs a ! k") auto
  next
    case None
    with that(2) have r: "rtk (tkpcs a ! k) = Some t" by (cases "tkpcs a ! k") auto
    have "core p = map_tpc of_nat (tkpcs a ! k)" using assms(3) by (simp add: pc_rel_def)
    with that(1) r have "inside (tkpcs a ! k)" by (cases p; cases "tkpcs a ! k") auto
    with tk_inv_reader(3) [OF assms(1,2) r] show ?thesis using full_is_claimed [OF assms(1)] by blast
  qed
  with assms(3) show ?thesis by (fastforce simp: pc_rel_def nth_append)
qed

lemma sim_claim_write:
  assumes rel: "ring_rel c a" and inv: "tk_inv a" and i: "i < length (pcs c)" "core (pcs c ! i) = TIdle"
    and cl: "claim_write (shared c) = (w, r)" and p: "core p = TEnqWait w" "carried p = Some d"
  shows "\<exists>a'. tk_step a (EnqCall i d) a' \<and> ring_rel (c\<lparr>shared := r, pcs := (pcs c)[i := p]\<rparr>) a'"
proof -
  note R = ring_relD [OF rel]
  have ia: "i < length (tkpcs a)" "tkpcs a ! i = TIdle" using i R(3) pc_rel_cases(1) [OF R(4) [OF i(1)]] by auto
  let ?a = "a\<lparr>tkvals := tkvals a @ [d], tkpcs := (tkpcs a)[i := TEnqWait (tkW a)]\<rparr>"
  have w: "w = of_nat (tkW a)" "r = (shared c)\<lparr>writeTicket := w + 1\<rparr>"
    using cl R(1) by (auto simp: claim_write_def mem_rel_def)
  have "tk_step a (EnqCall i d) ?a" by (rule tk_enq_call [OF ia])
  moreover have "ring_rel (c\<lparr>shared := r, pcs := (pcs c)[i := p]\<rparr>) ?a"
  proof (rule ring_rel_intro [OF rel i(1), where q = "TEnqWait (tkW a)"])
    show "pc_rel (tkvals ?a) p (TEnqWait (tkW a))" using p w by (simp add: pc_rel_def)
    show "mem_rel r ?a" using R(1) w by (auto simp: mem_rel_def)
    show "data_rel r ?a" unfolding w(2) by (rule data_rel_enq_call [OF R(2) inv ia])
  qed (use pc_rel_append [OF inv] in auto)
  ultimately show ?thesis by blast
qed

lemma sim_claim_read:
  assumes rel: "ring_rel c a" and inv: "tk_inv a" and i: "i < length (pcs c)" "core (pcs c ! i) = TIdle"
    and cl: "claim_read (shared c) = (w, r)" and p: "core p = TDeqWait w" "carried p = None"
  shows "\<exists>a'. tk_step a (DeqCall i) a' \<and> ring_rel (c\<lparr>shared := r, pcs := (pcs c)[i := p]\<rparr>) a'"
proof -
  note R = ring_relD [OF rel]
  have ia: "i < length (tkpcs a)" "tkpcs a ! i = TIdle" using i R(3) pc_rel_cases(1) [OF R(4) [OF i(1)]] by auto
  let ?a = "a\<lparr>tkR := Suc (tkR a), tkpcs := (tkpcs a)[i := TDeqWait (tkR a)]\<rparr>"
  have w: "w = of_nat (tkR a)" "r = (shared c)\<lparr>readTicket := w + 1\<rparr>"
    using cl R(1) by (auto simp: claim_read_def mem_rel_def)
  have "tk_step a (DeqCall i) ?a" by (rule tk_deq_call [OF ia])
  moreover have "ring_rel (c\<lparr>shared := r, pcs := (pcs c)[i := p]\<rparr>) ?a"
  proof (rule ring_rel_intro [OF rel i(1), where q = "TDeqWait (tkR a)"])
    show "pc_rel (tkvals ?a) p (TDeqWait (tkR a))" using p w by (simp add: pc_rel_def)
    show "mem_rel r ?a" using R(1) w by (auto simp: mem_rel_def)
    have "data_rel (shared c) (a\<lparr>tkpcs := (tkpcs a)[i := TDeqWait (tkR a)]\<rparr>)"
      by (rule data_rel_move [OF R(2)]) (use ia in auto)
    then show "data_rel r ?a" by (rule data_rel_frame) (use w(2) in auto)
  qed simp_all
  ultimately show ?thesis by blast
qed

lemma sim_local:
  assumes rel: "ring_rel c a" and i: "i < length (pcs c)" "core (pcs c ! i) = TIdle"
    and p: "core p = TIdle" "carried p = None" and e: "\<not> protocol_ev e"
  shows "\<exists>a'. tk_step a e a' \<and> ring_rel (c\<lparr>shared := shared c, pcs := (pcs c)[i := p]\<rparr>) a'"
proof -
  note R = ring_relD [OF rel]
  have "ring_rel (c\<lparr>shared := shared c, pcs := (pcs c)[i := p]\<rparr>) a"
    by (rule ring_rel_stutter [OF rel i(1)]) (use p i R pc_rel_cases(1) [OF R(4) [OF i(1)]] in auto)
  then show ?thesis using tk_skip [OF e, of a] by blast
qed

lemma sim_run:
  assumes rel: "ring_rel c a" and inv: "tk_inv a" and i: "i < length (pcs c)"
    and ex: "exec mv dead (shared c) (pcs c ! i) = (r, p)" and "pcs c ! i \<noteq> Idle"
  shows "\<exists>a'. tk_step a (pc_event i (shared c) (pcs c ! i)) a' \<and> ring_rel (c\<lparr>shared := r, pcs := (pcs c)[i := p]\<rparr>) a'"
proof (cases "pcs c ! i")
  case (EnqWait t d)
  with ex sim_write_wait [OF rel inv i, of t "EnqStore t d" p] show ?thesis by (simp split: if_splits)
next
  case (EmplWait t d)
  with ex sim_write_wait [OF rel inv i, of t "EmplDestroy t d" p] show ?thesis by (simp split: if_splits)
next
  case (EmplDestroy t d)
  with ex sim_write_slot(2) [OF rel inv i, of t d dead] show ?thesis by simp
next
  case (EnqStore t d)
  with ex sim_write_slot(1) [OF rel inv i, of t d] show ?thesis by simp
next
  case (EnqPublish t)
  with ex sim_publish [OF rel inv i, of t] show ?thesis by simp
next
  case (DeqWait t)
  with ex sim_read_wait [OF rel inv i, of t "DeqTake t" p] show ?thesis by (simp split: if_splits)
next
  case (DeqTake t)
  then show ?thesis using ex by (cases "take_slot mv t (shared c)") (auto intro: sim_take [OF rel inv i])
next
  case (DeqRelease t d)
  with ex sim_release [OF rel inv i, of t d Idle] show ?thesis by simp
next
  case (BatchNext k n)
  then show ?thesis using ex
    by (cases "k < n"; cases "claim_read (shared c)")
      (auto intro: sim_claim_read [OF rel inv i] sim_local [OF rel i])
next
  case (BatchWait k n t)
  with ex sim_read_wait [OF rel inv i, of t "BatchTake k n t" p] show ?thesis by (simp split: if_splits)
next
  case (BatchTake k n t)
  then show ?thesis using ex by (cases "take_slot mv t (shared c)") (auto intro: sim_take [OF rel inv i])
next
  case (BatchRelease k n t d)
  with ex sim_release [OF rel inv i, of t d "BatchNext (Suc k) n"] show ?thesis by auto
qed (use ex assms(5) in \<open>auto intro: sim_local [OF rel i]\<close>)

lemma ring_rel_step:
  assumes "ring_step mv dead c e c'" "ring_rel c a" "tk_inv a"
  shows "\<exists>a'. tk_step a e a' \<and> ring_rel c' a'"
  using assms
proof (induction rule: ring_step.induct)
  case (call_enqueue i s t r d)
  then show ?case by (intro sim_claim_write) auto
next
  case (call_emplaceEnqueue i s t r d)
  then show ?case by (intro sim_claim_write) auto
next
  case (call_dequeue i s t r)
  then show ?case by (intro sim_claim_read) auto
next
  case (call_batchDequeue i s n c)
  then show ?case using sim_local [of s a i "BatchNext 0 n" "BatchCall i c"] by simp
next
  case (call_isEmpty_write_first i s)
  then show ?case using sim_local [of s a i "EmptyW (writeTicket (shared s))" "EmptyCall i"] by simp
next
  case (call_isEmpty_read_first i s)
  then show ?case using sim_local [of s a i "EmptyR (readTicket (shared s))" "EmptyCall i"] by simp
next
  case (run i s r p)
  then show ?case by (intro sim_run) auto
qed

interpretation arb_sim: lts_simulation tk_step tk_initial "\<lambda>tr s. tk_inv s \<and> tk_trace tr s" "ring_step mv dead" ring_rel
  for mv dead :: "'a \<Rightarrow> 'a"
  by unfold_locales (use ring_rel_step in blast)

lemma ring_rel_start:
  assumes "ring_size_ok (length ds)" "n < 2 ^ 32"
  shows "ring_rel (ring_start n batch ds) (tk_start n (length ds))" "tk_initial (tk_start n (length ds))"
proof -
  have "tk_inv (tk_start n (length ds))" using tk_inv_start ring_size_okD(1) [OF assms(1)] by blast
  then show "ring_rel (ring_start n batch ds) (tk_start n (length ds))"
    using assms full_is_claimed [of "tk_start n (length ds)"]
    by (auto simp: ring_rel_def ring_start_def tk_start_def mem_rel_def data_rel_def
        new_AtomicRingBuffer_def prepareBuffer_seq)
  show "tk_initial (tk_start n (length ds))"
    using ring_size_okD(1) [OF assms(1)] by (auto simp: tk_initial_def)
qed

section \<open>Executable schedules\<close>

text \<open>One step of a chosen thread, and a scripted run: calls and thread steps in a given order.\<close>

definition step_thread :: "('a \<Rightarrow> 'a) \<Rightarrow> ('a \<Rightarrow> 'a) \<Rightarrow> tid \<Rightarrow> 'a ring_sys \<Rightarrow> 'a ring_sys" where
  "step_thread mv dead i c =
     (if i < length (pcs c)
      then let (r, p) = exec mv dead (shared c) (pcs c ! i) in c\<lparr>shared := r, pcs := (pcs c)[i := p]\<rparr>
      else c)"

fun is_idle :: "'a pc \<Rightarrow> bool" where
  "is_idle Idle = True"
| "is_idle _ = False"

datatype 'a act = ActEnq tid 'a | ActDeq tid | ActStep tid

fun perform :: "('a \<Rightarrow> 'a) \<Rightarrow> ('a \<Rightarrow> 'a) \<Rightarrow> 'a act \<Rightarrow> 'a ring_sys \<Rightarrow> ('a ring_ev \<times> 'a ring_sys) option" where
  "perform mv dead (ActEnq i d) c =
     (if i < length (pcs c) \<and> is_idle (pcs c ! i)
      then let (t, r) = claim_write (shared c)
           in Some (EnqCall i d, c\<lparr>shared := r, pcs := (pcs c)[i := EnqWait t d]\<rparr>)
      else None)"
| "perform mv dead (ActDeq i) c =
     (if i < length (pcs c) \<and> is_idle (pcs c ! i)
      then let (t, r) = claim_read (shared c)
           in Some (DeqCall i, c\<lparr>shared := r, pcs := (pcs c)[i := DeqWait t]\<rparr>)
      else None)"
| "perform mv dead (ActStep i) c =
     (if i < length (pcs c) \<and> \<not> is_idle (pcs c ! i)
      then Some (pc_event i (shared c) (pcs c ! i), step_thread mv dead i c) else None)"

fun performs :: "('a \<Rightarrow> 'a) \<Rightarrow> ('a \<Rightarrow> 'a) \<Rightarrow> 'a act list \<Rightarrow> 'a ring_sys \<Rightarrow> ('a ring_ev list \<times> 'a ring_sys) option" where
  "performs mv dead [] c = Some ([], c)"
| "performs mv dead (x # xs) c =
     (case perform mv dead x c of
        None \<Rightarrow> None
      | Some (e, c1) \<Rightarrow> map_option (\<lambda>(tr, c2). (e # tr, c2)) (performs mv dead xs c1))"

lemma is_idle_iff [simp]: "is_idle p \<longleftrightarrow> p = Idle"
  by (cases p) auto

lemma perform_step: "perform mv dead x c = Some (e, c') \<Longrightarrow> ring_step mv dead c e c'"
  by (cases x)
    (auto simp: step_thread_def claim_write_def claim_read_def split: if_splits prod.splits
      intro: ring_step.intros)

lemma performs_run: "performs mv dead xs c = Some (tr, c') \<Longrightarrow> lts_run (ring_step mv dead) c tr c'"
proof (induction xs arbitrary: c tr)
  case Nil
  then show ?case by (auto intro: lts_run.run_nil)
next
  case (Cons x xs)
  then show ?case by (auto split: option.splits intro: lts_run_cons perform_step)
qed

section \<open>Reachable states of the ring\<close>

lemma tk_run_sizes:
  "lts_run tk_step a0 tr a \<Longrightarrow> tkS a = tkS a0 \<and> length (tkpcs a) = length (tkpcs a0)"
  by (induction rule: lts_run.induct) (auto elim!: tk_step.cases)

lemma reachable_ring:
  assumes "ring_size_ok (length ds)" "n < 2 ^ 32" "lts_run (ring_step mv dead) (ring_start n batch ds) tr c"
  obtains a where "ring_rel c a" "tk_inv a" "tk_trace tr a" "length (tkpcs a) = n" "tkS a = length ds"
proof -
  note start = ring_rel_start(1) [OF assms(1,2), of batch] ring_rel_start(2) [OF assms(1,2)]
  from arb_sim.simulates [OF assms(3) start] obtain a where
    a: "lts_run tk_step (tk_start n (length ds)) tr a" "ring_rel c a" by blast
  then have "tk_inv a" "tk_trace tr a" using tkm.inv_run [OF a(1) start(2)] by auto
  with a tk_run_sizes [OF a(1)] show ?thesis using that by (simp add: tk_start_def)
qed

section \<open>Properties\<close>

text \<open>C3: Refinement. Every interleaved run of the ring, with its 64-bit tickets that wrap round, is a run of the
  abstract ticket protocol with unbounded tickets and the same observable events, as long as fewer
  than \<open>2 ^ 32\<close> threads use the ring.\<close>

theorem ring_refines_ticket_protocol:
  assumes "ring_size_ok (length ds)" "n < 2 ^ 32" "lts_run (ring_step mv dead) (ring_start n batch ds) tr c"
  shows "\<exists>a. lts_run tk_step (tk_start n (length ds)) tr a \<and> ring_rel c a"
  by (rule arb_sim.simulates [OF assms(3) ring_rel_start [OF assms(1,2)]])

text \<open>A run of the witnesses: thread 0 enqueues 5 while thread 1 already waits in \<open>dequeue\<close>.\<close>

definition handoff :: "int act list" where
  "handoff = [ActDeq 1, ActEnq 0 5, ActStep 1, ActStep 0, ActStep 0, ActStep 0, ActStep 1, ActStep 1]"

definition handoff_trace :: "int ring_ev list" where
  "handoff_trace = [DeqCall 1, EnqCall 0 5, Tau 1, Tau 0, Tau 0, EnqRet 0, Tau 1, Tau 1]"

lemma handoff_run:
  obtains c where "lts_run (ring_step id id) (ring_start 2 [] [0, 0]) (handoff_trace @ [DeqRet 1 5]) c"
    "pcs c = [Idle, Idle]"
proof -
  have "map_option (\<lambda>(tr, c). (tr, map is_idle (pcs c))) (performs id id (handoff @ [ActStep 1]) (ring_start 2 [] [0, 0])) =
    Some (handoff_trace @ [DeqRet 1 5], [True, True])"
    by code_simp
  then obtain c where "performs id id (handoff @ [ActStep 1]) (ring_start 2 [] [0, 0]) = Some (handoff_trace @ [DeqRet 1 5], c)"
    "map is_idle (pcs c) = [True, True]"
    by auto
  from performs_run [OF this(1)] this(2) show ?thesis by (intro that) (auto simp: map_eq_Cons_conv)
qed


theorem ring_refines_ticket_protocol_witness:
  "\<exists>a c. lts_run tk_step (tk_start 2 2) (handoff_trace @ [DeqRet 1 5]) a \<and> ring_rel c a"
proof -
  obtain c where "lts_run (ring_step id id) (ring_start 2 [] [0, 0]) (handoff_trace @ [DeqRet 1 5]) c"
    by (rule handoff_run)
  from ring_refines_ticket_protocol [OF _ _ this] show ?thesis
    by (simp add: numeral_2_eq_2 [symmetric] del: One_nat_def) blast
qed

text \<open>C1: First in, first out, for any number of producers and consumers. A dequeue whose \<open>fetch_add\<close>
  was the \<open>t\<close>-th on the read ticket returns exactly the value whose enqueue was the \<open>t\<close>-th on the
  write ticket.\<close>

theorem concurrent_dequeue_fifo:
  assumes "ring_size_ok (length ds)" "n < 2 ^ 32"
    and "lts_run (ring_step mv dead) (ring_start n batch ds) (tr @ [DeqRet i v]) c"
  shows "\<exists>t. latest_claim tr i t \<and> t < length (enq_vals tr) \<and> v = enq_vals tr ! t"
proof -
  from assms(3) obtain c1 where c1: "lts_run (ring_step mv dead) (ring_start n batch ds) tr c1"
    "ring_step mv dead c1 (DeqRet i v) c"
    by (rule lts_run_snocE) auto
  from reachable_ring [OF assms(1,2) c1(1)] obtain a where
    a: "ring_rel c1 a" "tk_inv a" "tk_trace tr a" by blast
  from ring_rel_step [OF c1(2) a(1,2)] obtain a' where "tk_step a (DeqRet i v) a'" by blast
  then obtain t where t: "i < length (tkpcs a)" "tkpcs a ! i = TDeqRelease t" "v = tkvals a ! t"
    by (cases rule: tk_step.cases) auto
  then have "latest_claim tr i t" using a(3) by (auto simp: tk_trace_def)
  moreover have "t < tkW a"
    using full_is_claimed [OF a(2)] tk_inv_reader(3) [OF a(2) t(1), of t] t(2) by simp
  ultimately show ?thesis using a(3) t(3) by (auto simp: tk_trace_def)
qed

theorem concurrent_dequeue_fifo_witness:
  "\<exists>t. latest_claim handoff_trace 1 t \<and> t < length (enq_vals handoff_trace) \<and> (5 :: int) = enq_vals handoff_trace ! t"
proof -
  obtain c where "lts_run (ring_step id id) (ring_start 2 [] [0, 0]) (handoff_trace @ [DeqRet 1 5]) c"
    by (rule handoff_run)
  from concurrent_dequeue_fifo [OF _ _ this] show ?thesis by simp
qed

lemma idle_all_done:
  assumes "tk_inv a" "\<And>k. k < length (tkpcs a) \<Longrightarrow> tkpcs a ! k = TIdle"
  shows "set (tkdone a) = {..<tkR a}"
proof -
  have "Suc t < seq_of a t" if "t < tkR a" for t
    using tk_inv_held(2) [OF assms(1) that] assms(2) by (metis leI option.distinct(1) rtk.simps(4))
  then show ?thesis using assms(1) by (auto simp: tk_inv_def done_ok_def)
qed

lemma reachable_done:
  assumes "ring_size_ok (length ds)" "n < 2 ^ 32" "lts_run (ring_step mv dead) (ring_start n batch ds) tr c"
  obtains a where "ring_rel c a" "tk_inv a" "deq_vals tr = map ((!) (enq_vals tr)) (tkdone a)"
    "tkR a = length (deq_claims tr)" "distinct (tkdone a)" "\<forall>t \<in> set (tkdone a). t < length (enq_vals tr)"
proof -
  from reachable_ring [OF assms] obtain a where a: "ring_rel c a" "tk_inv a" "tk_trace tr a" by blast
  then have "distinct (tkdone a)" "\<forall>t \<in> set (tkdone a). t < length (enq_vals tr)"
    using tk_inv_done_claimed [OF a(2)] by (auto simp: tk_inv_def done_ok_def tk_trace_def)
  with a show ?thesis using that by (auto simp: tk_trace_def)
qed

lemma concurrent_submultiset:
  assumes "ring_size_ok (length ds)" "n < 2 ^ 32" "lts_run (ring_step mv dead) (ring_start n batch ds) tr c"
  shows "mset (deq_vals tr) \<subseteq># mset (enq_vals tr)"
  using reachable_done [OF assms] mset_map_nth_subset by metis

text \<open>C2: Nothing is invented, duplicated or lost. At every moment the values dequeued so far are a
  sub-multiset of the values enqueued; when every thread is idle they are exactly the values of the
  first enqueues, as many as there were dequeues.\<close>

theorem concurrent_exactly_once:
  assumes "ring_size_ok (length ds)" "n < 2 ^ 32"
    and "lts_run (ring_step mv dead) (ring_start n batch ds) tr c"
  shows "mset (deq_vals tr) \<subseteq># mset (enq_vals tr) \<and>
    (set (pcs c) \<subseteq> {Idle} \<longrightarrow> length (deq_claims tr) \<le> length (enq_vals tr) \<and>
       mset (deq_vals tr) = mset (take (length (deq_claims tr)) (enq_vals tr)))"
proof -
  from reachable_done [OF assms] obtain a where
    a: "ring_rel c a" "tk_inv a" and
    tr: "deq_vals tr = map ((!) (enq_vals tr)) (tkdone a)" "tkR a = length (deq_claims tr)" and
    dn: "distinct (tkdone a)" "\<forall>t \<in> set (tkdone a). t < length (enq_vals tr)" by blast
  have "mset (deq_vals tr) \<subseteq># mset (enq_vals tr)" using assms by (rule concurrent_submultiset)
  moreover have "length (deq_claims tr) \<le> length (enq_vals tr) \<and>
      mset (deq_vals tr) = mset (take (length (deq_claims tr)) (enq_vals tr))" if "set (pcs c) \<subseteq> {Idle}"
  proof -
    have "tkpcs a ! k = TIdle" if "k < length (tkpcs a)" for k
    proof (rule pc_rel_cases(1))
      show "pc_rel (tkvals a) (pcs c ! k) (tkpcs a ! k)" using a(1) that by (simp add: ring_rel_def)
      have "pcs c ! k \<in> set (pcs c)" using a(1) that by (simp add: ring_rel_def)
      with \<open>set (pcs c) \<subseteq> {Idle}\<close> show "core (pcs c ! k) = TIdle" by auto
    qed
    then have all: "set (tkdone a) = {..<length (deq_claims tr)}" using idle_all_done [OF a(2)] tr(2) by simp
    then have le: "length (deq_claims tr) \<le> length (enq_vals tr)"
      using dn(2) by (metis lessThan_iff linorder_not_less order_less_irrefl)
    have "mset (tkdone a) = mset [0..<length (deq_claims tr)]"
      using dn(1) all set_eq_iff_mset_eq_distinct [of "tkdone a" "[0..<length (deq_claims tr)]"]
      by (simp add: atLeast0LessThan del: mset_upt)
    then have "mset (deq_vals tr) = mset (map ((!) (enq_vals tr)) [0..<length (deq_claims tr)])"
      using tr(1) by (metis mset_map)
    also have "map ((!) (enq_vals tr)) [0..<length (deq_claims tr)] = take (length (deq_claims tr)) (enq_vals tr)"
      using le by (auto intro: nth_equalityI)
    finally show ?thesis using le by blast
  qed
  ultimately show ?thesis by blast
qed

theorem concurrent_exactly_once_witness:
  "mset (deq_vals (handoff_trace @ [DeqRet 1 5])) = mset (take 1 [5 :: int])"
proof -
  obtain c where c: "lts_run (ring_step id id) (ring_start 2 [] [0, 0]) (handoff_trace @ [DeqRet 1 5]) c"
    "pcs c = [Idle, Idle]"
    by (rule handoff_run)
  from concurrent_exactly_once [OF _ _ c(1)] c(2) show ?thesis
    by (simp add: handoff_trace_def deq_claims_def enq_vals_def deq_vals_def)
qed

fun in_slot :: "'a pc \<Rightarrow> u64 option" where
  "in_slot (EmplDestroy t d) = Some t"
| "in_slot (EnqStore t d) = Some t"
| "in_slot (EnqPublish t) = Some t"
| "in_slot (DeqTake t) = Some t"
| "in_slot (DeqRelease t d) = Some t"
| "in_slot (BatchTake i n t) = Some t"
| "in_slot (BatchRelease i n t d) = Some t"
| "in_slot _ = None"

lemma in_slot_ticket:
  assumes "pc_rel vals p q" "in_slot p = Some w"
  obtains t where "w = of_nat t" "inside q" "wtk q = Some t \<or> rtk q = Some t"
  using assms by (cases p; cases q) (auto simp: pc_rel_def)

text \<open>C4: Exclusive slot access. Between the moment a thread leaves its busy-wait loop and its final store
  to the sequence number, no other thread is in that phase on the same slot; so the plain,
  non-atomic accesses to the payload never race.\<close>

theorem concurrent_slot_exclusive:
  assumes "ring_size_ok (length ds)" "n < 2 ^ 32"
    and "lts_run (ring_step mv dead) (ring_start n batch ds) tr c"
    and "i < n" "j < n" "i \<noteq> j" "in_slot (pcs c ! i) = Some t" "in_slot (pcs c ! j) = Some u"
  shows "ring_index (length ds) t \<noteq> ring_index (length ds) u"
proof
  assume eq: "ring_index (length ds) t = ring_index (length ds) u"
  from reachable_ring [OF assms(1-3)] obtain a where
    a: "ring_rel c a" "tk_inv a" "length (tkpcs a) = n" "tkS a = length ds" by blast
  have ij: "i < length (tkpcs a)" "j < length (tkpcs a)" using a(3) assms(4,5) by auto
  have pr: "pc_rel (tkvals a) (pcs c ! i) (tkpcs a ! i)" "pc_rel (tkvals a) (pcs c ! j) (tkpcs a ! j)"
    using a(1) ij by (auto simp: ring_rel_def)
  obtain x where x: "t = of_nat x" "inside (tkpcs a ! i)" "wtk (tkpcs a ! i) = Some x \<or> rtk (tkpcs a ! i) = Some x"
    by (rule in_slot_ticket [OF pr(1) assms(7)])
  obtain y where y: "u = of_nat y" "inside (tkpcs a ! j)" "wtk (tkpcs a ! j) = Some y \<or> rtk (tkpcs a ! j) = Some y"
    by (rule in_slot_ticket [OF pr(2) assms(8)])
  have m: "x mod tkS a = y mod tkS a" using eq assms(1) x(1) y(1) a(4) by (simp add: ring_index_of_nat)
  then have same: "seq_of a x = seq_of a y" by simp
  note S2 = tk_inv_size [OF a(2)]
  have sx: "wtk (tkpcs a ! i) = Some x \<and> seq_of a x = x \<or> rtk (tkpcs a ! i) = Some x \<and> seq_of a x = Suc x"
    using x tk_inv_writer(3) [OF a(2) ij(1)] tk_inv_reader(3) [OF a(2) ij(1)] by blast
  have sy: "wtk (tkpcs a ! j) = Some y \<and> seq_of a y = y \<or> rtk (tkpcs a ! j) = Some y \<and> seq_of a y = Suc y"
    using y tk_inv_writer(3) [OF a(2) ij(2)] tk_inv_reader(3) [OF a(2) ij(2)] by blast
  have "x \<noteq> Suc y" "y \<noteq> Suc x" using Suc_mod_neq [OF S2] m by metis+
  with sx sy same have "x = y \<and> (wtk (tkpcs a ! i) = Some x \<and> wtk (tkpcs a ! j) = Some x \<or>
      rtk (tkpcs a ! i) = Some x \<and> rtk (tkpcs a ! j) = Some x)"
    by (elim disjE conjE) simp_all
  with tk_inv_unique [OF a(2) ij] assms(6) show False by blast
qed

text \<open>Two producers that both left their busy-wait loop.\<close>

definition two_writers :: "int act list" where
  "two_writers = [ActEnq 0 5, ActEnq 1 6, ActStep 1, ActStep 0]"

lemma two_writers_run:
  obtains tr c where "lts_run (ring_step id id) (ring_start 2 [] [0, 0 :: int]) tr c"
    "in_slot (pcs c ! 0) = Some 0" "in_slot (pcs c ! 1) = Some 1"
proof -
  have "map_option (\<lambda>(tr, c). map in_slot (pcs c)) (performs id id two_writers (ring_start 2 [] [0, 0])) =
    Some [Some 0, Some 1]"
    by code_simp
  then obtain tr c where "performs id id two_writers (ring_start 2 [] [0, 0]) = Some (tr, c)"
    "map in_slot (pcs c) = [Some 0, Some 1]"
    by auto
  from that [OF performs_run [OF this(1)]] this(2) show ?thesis by (auto simp: map_eq_Cons_conv)
qed

theorem concurrent_slot_exclusive_witness: "ring_index 2 0 \<noteq> ring_index 2 1"
proof -
  obtain tr c where c: "lts_run (ring_step id id) (ring_start 2 [] [0, 0 :: int]) tr c"
    "in_slot (pcs c ! 0) = Some 0" "in_slot (pcs c ! 1) = Some 1"
    by (rule two_writers_run)
  from concurrent_slot_exclusive [OF _ _ c(1) _ _ _ c(2,3)] show ?thesis
    by (simp add: numeral_2_eq_2 [symmetric] del: One_nat_def)
qed

end
