(* ===== verification/Ring_Progress.thy ===== *)
theory Ring_Progress
  imports Ring_Concurrent
begin

text \<open>
  Progress of the interleaved ring: a busy-wait loop of \<open>AtomicRingBuffer\<close> that cannot be left is
  always explained by the number of calls (more dequeues than enqueues, or more enqueues than
  dequeues plus \<open>SIZE\<close>), and under a fair schedule every operation that is not blocked in this way
  returns after a bounded number of steps.
\<close>

section \<open>Blocked threads\<close>

fun waits_write :: "'a pc \<Rightarrow> bool" where
  "waits_write (EnqWait t d) = True"
| "waits_write (EmplWait t d) = True"
| "waits_write _ = False"

fun waits_read :: "'a pc \<Rightarrow> bool" where
  "waits_read (DeqWait t) = True"
| "waits_read (BatchWait i n t) = True"
| "waits_read _ = False"

fun spinning :: "'a AtomicRingBuffer \<Rightarrow> 'a pc \<Rightarrow> bool" where
  "spinning r (EnqWait t d) = (\<not> can_write r t)"
| "spinning r (EmplWait t d) = (\<not> can_write r t)"
| "spinning r (DeqWait t) = (\<not> can_read r t)"
| "spinning r (BatchWait i n t) = (\<not> can_read r t)"
| "spinning r _ = False"

text \<open>No step of any thread changes anything.\<close>

definition settled :: "'a ring_sys \<Rightarrow> bool" where
  "settled c \<longleftrightarrow> (\<forall>p \<in> set (pcs c). p = Idle \<or> spinning (shared c) p)"

lemma spinning_kind: "spinning r p \<Longrightarrow> waits_write p \<or> waits_read p"
  by (cases p) auto

lemma settled_not_ready:
  assumes rel: "ring_rel c a" "tk_inv a" and st: "settled c" and k: "k < length (tkpcs a)"
  shows "\<not> tk_ready a (tkpcs a ! k)"
proof -
  have pr: "pc_rel (tkvals a) (pcs c ! k) (tkpcs a ! k)" "pcs c ! k \<in> set (pcs c)"
    using rel(1) k by (auto simp: ring_rel_def)
  with st consider "pcs c ! k = Idle" | "spinning (shared c) (pcs c ! k)" by (auto simp: settled_def)
  then show ?thesis
  proof cases
    case 1
    then show ?thesis using pc_rel_cases(1) [OF pr(1)] by simp
  next
    case 2
    show ?thesis
    proof (cases "pcs c ! k")
      case (EnqWait t d)
      with pc_rel_cases(2) [OF pr(1), of t] can_write_iff [OF rel k] 2 show ?thesis by auto
    next
      case (EmplWait t d)
      with pc_rel_cases(2) [OF pr(1), of t] can_write_iff [OF rel k] 2 show ?thesis by auto
    next
      case (DeqWait t)
      with pc_rel_cases(5) [OF pr(1), of t] can_read_iff [OF rel k] 2 show ?thesis by auto
    next
      case (BatchWait i n t)
      with pc_rel_cases(5) [OF pr(1), of t] can_read_iff [OF rel k] 2 show ?thesis by auto
    qed (use 2 in auto)
  qed
qed

lemma waits_ticket:
  assumes "pc_rel vals p q"
  shows "waits_write p \<Longrightarrow> \<exists>t. wtk q = Some t" "waits_read p \<Longrightarrow> \<exists>t. rtk q = Some t"
  using pc_rel_cases(2,5) [OF assms] by (cases p; fastforce)+

lemma settled_counts:
  assumes "ring_size_ok (length ds)" "n < 2 ^ 32"
    and run: "lts_run (ring_step mv dead) (ring_start n batch ds) tr c" and st: "settled c" and p: "p \<in> set (pcs c)"
  shows "waits_write p \<Longrightarrow> length (deq_claims tr) + length ds < length (enq_vals tr)"
    "waits_read p \<Longrightarrow> length (enq_vals tr) < length (deq_claims tr)"
proof -
  from reachable_ring [OF assms(1,2) run] obtain a where
    a: "ring_rel c a" "tk_inv a" "tk_trace tr a" "tkS a = length ds" by blast
  from p a(1) obtain k where k: "k < length (tkpcs a)" "pcs c ! k = p"
    by (auto simp: in_set_conv_nth ring_rel_def)
  have pr: "pc_rel (tkvals a) p (tkpcs a ! k)" using a(1) k by (auto simp: ring_rel_def)
  have cnt: "tkW a = length (enq_vals tr)" "tkR a = length (deq_claims tr)"
    using a(3) by (simp_all add: tk_trace_def)
  note stuck = settled_not_ready [OF a(1,2) st]
  show "length (deq_claims tr) + length ds < length (enq_vals tr)" if w: "waits_write p"
  proof -
    from waits_ticket(1) [OF pr w] obtain t where t: "wtk (tkpcs a ! k) = Some t" ..
    from stuck_writer_full [OF a(2) stuck k(1) t] tk_inv_writer(1) [OF a(2) k(1) t] show ?thesis
      using cnt a(4) by simp
  qed
  show "length (enq_vals tr) < length (deq_claims tr)" if r: "waits_read p"
  proof -
    from waits_ticket(2) [OF pr r] obtain t where t: "rtk (tkpcs a ! k) = Some t" ..
    from stuck_reader_empty [OF a(2) stuck k(1) t] tk_inv_reader(1) [OF a(2) k(1) t] show ?thesis
      using cnt by simp
  qed
qed

section \<open>Work left\<close>

text \<open>The number of effective steps a thread still needs to finish its operation.\<close>

fun work :: "'a pc \<Rightarrow> nat" where
  "work Idle = 0"
| "work (EnqWait t d) = 3"
| "work (EmplWait t d) = 4"
| "work (EmplDestroy t d) = 3"
| "work (EnqStore t d) = 2"
| "work (EnqPublish t) = 1"
| "work (DeqWait t) = 3"
| "work (DeqTake t) = 2"
| "work (DeqRelease t d) = 1"
| "work (BatchNext i n) = 4 * (n - i) + 1"
| "work (BatchWait i n t) = 4 * (n - Suc i) + 4"
| "work (BatchTake i n t) = 4 * (n - Suc i) + 3"
| "work (BatchRelease i n t d) = 4 * (n - Suc i) + 2"
| "work (EmptyW w) = 2"
| "work (EmptyR w) = 2"
| "work (EmptyDone b) = 1"

definition total_work :: "'a ring_sys \<Rightarrow> nat" where
  "total_work c = sum_list (map work (pcs c))"

lemma exec_spinning: "spinning r p \<Longrightarrow> exec mv dead r p = (r, p)"
  by (cases p) auto

lemma exec_work: "p \<noteq> Idle \<Longrightarrow> \<not> spinning r p \<Longrightarrow> Suc (work (snd (exec mv dead r p))) = work p"
  by (cases p) (auto simp: split_def claim_read_def Let_def)

lemma same_pc [simp]: "pcs c ! i = p \<Longrightarrow> c\<lparr>pcs := (pcs c)[i := p]\<rparr> = c"
  by (cases c) auto

lemma step_thread_same:
  assumes "i < length (pcs c) \<Longrightarrow> pcs c ! i = Idle \<or> spinning (shared c) (pcs c ! i)"
  shows "step_thread mv dead i c = c"
  using assms exec_spinning [of "shared c" "pcs c ! i" mv dead]
  by (auto simp: step_thread_def)

lemma step_thread_work:
  assumes "i < length (pcs c)" "pcs c ! i \<noteq> Idle" "\<not> spinning (shared c) (pcs c ! i)"
  shows "Suc (total_work (step_thread mv dead i c)) = total_work c"
proof -
  have "work (pcs c ! i) \<le> total_work c"
    unfolding total_work_def by (rule member_le_sum_list) (use assms(1) in auto)
  with exec_work [OF assms(2,3), of mv dead] assms(1) show ?thesis
    by (simp add: total_work_def step_thread_def split_def Let_def map_update sum_list_update)
qed

lemma step_thread_length [simp]: "length (pcs (step_thread mv dead i c)) = length (pcs c)"
  by (simp add: step_thread_def split_def Let_def)

lemma step_thread_run: "\<exists>tr. lts_run (ring_step mv dead) c tr (step_thread mv dead i c)"
proof (cases "i < length (pcs c) \<and> pcs c ! i \<noteq> Idle")
  case True
  then have "perform mv dead (ActStep i) c = Some (pc_event i (shared c) (pcs c ! i), step_thread mv dead i c)"
    by simp
  from lts_run_cons [where step = "ring_step mv dead", OF perform_step [OF this] lts_run.run_nil]
  show ?thesis by blast
next
  case False
  then have "step_thread mv dead i c = c" by (intro step_thread_same) auto
  then show ?thesis using lts_run.run_nil by metis
qed

section \<open>Fair schedules\<close>

definition run_schedule :: "('a \<Rightarrow> 'a) \<Rightarrow> ('a \<Rightarrow> 'a) \<Rightarrow> tid list \<Rightarrow> 'a ring_sys \<Rightarrow> 'a ring_sys" where
  "run_schedule mv dead is c = fold (step_thread mv dead) is c"

text \<open>One round gives every thread at least one step, in any order; a fair schedule is a sequence of rounds.\<close>

definition round_ok :: "nat \<Rightarrow> tid list \<Rightarrow> bool" where
  "round_ok n is \<longleftrightarrow> {..<n} \<subseteq> set is"

lemma run_schedule_simps [simp]:
  "run_schedule mv dead [] c = c"
  "run_schedule mv dead (i # is) c = run_schedule mv dead is (step_thread mv dead i c)"
  "run_schedule mv dead (is @ js) c = run_schedule mv dead js (run_schedule mv dead is c)"
  by (simp_all add: run_schedule_def)

lemma run_schedule_length [simp]: "length (pcs (run_schedule mv dead is c)) = length (pcs c)"
  by (induction "is" arbitrary: c) auto

lemma run_schedule_run: "\<exists>tr. lts_run (ring_step mv dead) c tr (run_schedule mv dead is c)"
proof (induction "is" arbitrary: c)
  case Nil
  then show ?case using lts_run.run_nil by fastforce
next
  case (Cons i "is")
  then show ?case using lts_run_append step_thread_run by (metis run_schedule_simps(2))
qed

lemma step_thread_cases:
  obtains "step_thread mv dead i c = c" "i < length (pcs c) \<Longrightarrow> pcs c ! i = Idle \<or> spinning (shared c) (pcs c ! i)"
  | "Suc (total_work (step_thread mv dead i c)) = total_work c"
  by (meson step_thread_same step_thread_work)

lemma run_schedule_work: "total_work (run_schedule mv dead is c) \<le> total_work c"
proof (induction "is" arbitrary: c)
  case (Cons i "is")
  show ?case
    by (rule step_thread_cases [of mv dead i c])
      (use Cons.IH [of "step_thread mv dead i c"] in \<open>auto intro: order_trans\<close>)
qed simp

lemma round_progress:
  "run_schedule mv dead is c = c \<and> (\<forall>i \<in> set is. i < length (pcs c) \<longrightarrow> pcs c ! i = Idle \<or> spinning (shared c) (pcs c ! i))
   \<or> total_work (run_schedule mv dead is c) < total_work c"
proof (induction "is" arbitrary: c)
  case (Cons i "is")
  show ?case
  proof (rule step_thread_cases [of mv dead i c])
    assume "Suc (total_work (step_thread mv dead i c)) = total_work c"
    then show ?thesis using run_schedule_work [of mv dead "is" "step_thread mv dead i c"] by simp
  qed (use Cons.IH [of c] in auto)
qed simp

lemma settled_stays: "settled c \<Longrightarrow> run_schedule mv dead is c = c"
proof (induction "is")
  case (Cons i "is")
  moreover have "step_thread mv dead i c = c"
    by (rule step_thread_same) (use Cons.prems in \<open>auto simp: settled_def\<close>)
  ultimately show ?case by simp
qed simp

lemma fair_settles:
  "total_work c \<le> length rs \<Longrightarrow> \<forall>r \<in> set rs. round_ok (length (pcs c)) r \<Longrightarrow>
    settled (run_schedule mv dead (concat rs) c)"
proof (induction rs arbitrary: c)
  case Nil
  then have "work p = 0" if "p \<in> set (pcs c)" for p
    using that member_le_sum_list [of "work p" "map work (pcs c)"] by (force simp: total_work_def)
  moreover have "work p = 0 \<Longrightarrow> p = Idle" for p :: "'a pc" by (cases p) auto
  ultimately show ?case by (auto simp: settled_def)
next
  case (Cons r rs)
  let ?c = "run_schedule mv dead r c"
  from round_progress [of mv dead r c] show ?case
  proof (elim disjE conjE)
    assume same: "?c = c" and all: "\<forall>i \<in> set r. i < length (pcs c) \<longrightarrow> pcs c ! i = Idle \<or> spinning (shared c) (pcs c ! i)"
    have "{..<length (pcs c)} \<subseteq> set r" using Cons.prems(2) by (simp add: round_ok_def)
    with all have "\<forall>i < length (pcs c). pcs c ! i = Idle \<or> spinning (shared c) (pcs c ! i)" by blast
    then have "settled c" by (auto simp: settled_def in_set_conv_nth)
    then show ?thesis using same by (simp add: settled_stays)
  next
    assume "total_work ?c < total_work c"
    with Cons.prems show ?thesis using Cons.IH [of ?c] by simp
  qed
qed

section \<open>Properties\<close>

text \<open>C5: No false blocking. When no thread can make a step any more, a producer that still waits means that
  more than \<open>SIZE\<close> enqueues have no matching dequeue, and a consumer that still waits means that
  there were more dequeues than enqueues; so producers and consumers never block each other.\<close>

theorem blocked_only_when_full_or_empty:
  assumes "ring_size_ok (length ds)" "n < 2 ^ 32"
    and "lts_run (ring_step mv dead) (ring_start n batch ds) tr c" and "settled c"
  shows "((\<exists>p \<in> set (pcs c). waits_write p) \<longrightarrow> length (deq_claims tr) + length ds < length (enq_vals tr)) \<and>
    ((\<exists>p \<in> set (pcs c). waits_read p) \<longrightarrow> length (enq_vals tr) < length (deq_claims tr)) \<and>
    \<not> ((\<exists>p \<in> set (pcs c). waits_write p) \<and> (\<exists>p \<in> set (pcs c). waits_read p))"
proof -
  note cnt = settled_counts [OF assms]
  have "\<not> ((\<exists>p \<in> set (pcs c). waits_write p) \<and> (\<exists>p \<in> set (pcs c). waits_read p))"
    using cnt(1) cnt(2) by (metis add_lessD1 less_asym)
  with cnt show ?thesis by blast
qed

text \<open>A consumer alone on an empty ring.\<close>

lemma lone_consumer_run:
  obtains c where "lts_run (ring_step id id) (ring_start 1 [] [0, 0 :: int]) [DeqCall 0] c" "settled c"
    "\<exists>p \<in> set (pcs c). waits_read p"
proof -
  have "map_option (\<lambda>(tr, c). (tr, settled c, list_ex waits_read (pcs c)))
      (performs id id [ActDeq 0] (ring_start 1 [] [0, 0 :: int])) = Some ([DeqCall 0], True, True)"
    by code_simp
  then obtain c where c: "performs id id [ActDeq 0] (ring_start 1 [] [0, 0 :: int]) = Some ([DeqCall 0], c)"
    "settled c" "list_ex waits_read (pcs c)"
    by (auto simp del: performs.simps)
  from that [OF performs_run [OF c(1)] c(2)] c(3) show ?thesis by (simp add: list_ex_iff)
qed

theorem blocked_only_when_full_or_empty_witness:
  "length (enq_vals [DeqCall 0 :: int ring_ev]) < length (deq_claims [DeqCall 0 :: int ring_ev])"
proof -
  obtain c where c: "lts_run (ring_step id id) (ring_start 1 [] [0, 0 :: int]) [DeqCall 0] c" "settled c"
    "\<exists>p \<in> set (pcs c). waits_read p"
    by (rule lone_consumer_run)
  from blocked_only_when_full_or_empty [OF _ _ c(1,2)] c(3) show ?thesis by simp
qed

text \<open>C6: Liveness under fair schedules. From every reachable state, a schedule of at least \<open>total_work\<close> rounds in which
  every thread gets a turn (in any order) ends in a state where every thread has returned or is
  blocked; if by then there are no more dequeues than enqueues and at most \<open>SIZE\<close> fewer, every
  operation has returned.\<close>

theorem fair_schedules_complete:
  assumes "ring_size_ok (length ds)" "n < 2 ^ 32"
    and "lts_run (ring_step mv dead) (ring_start n batch ds) tr c"
    and "total_work c \<le> length rs" "\<forall>r \<in> set rs. round_ok n r"
  shows "\<exists>tr'. lts_run (ring_step mv dead) (ring_start n batch ds) (tr @ tr') (run_schedule mv dead (concat rs) c) \<and>
    settled (run_schedule mv dead (concat rs) c) \<and>
    (length (deq_claims (tr @ tr')) \<le> length (enq_vals (tr @ tr')) \<and>
     length (enq_vals (tr @ tr')) \<le> length (deq_claims (tr @ tr')) + length ds \<longrightarrow>
       set (pcs (run_schedule mv dead (concat rs) c)) \<subseteq> {Idle})"
proof -
  let ?c = "run_schedule mv dead (concat rs) c"
  from run_schedule_run obtain tr' where "lts_run (ring_step mv dead) c tr' ?c" by blast
  with assms(3) have run: "lts_run (ring_step mv dead) (ring_start n batch ds) (tr @ tr') ?c"
    by (rule lts_run_append)
  from reachable_ring [OF assms(1-3)] have "length (pcs c) = n" by (metis ring_rel_def)
  then have st: "settled ?c" using fair_settles assms(4,5) by blast
  have "waits_write p \<or> waits_read p" if "p \<in> set (pcs ?c)" "p \<noteq> Idle" for p
    using st that spinning_kind by (auto simp: settled_def)
  with settled_counts [OF assms(1,2) run st] have
    "length (deq_claims (tr @ tr')) \<le> length (enq_vals (tr @ tr')) \<and>
     length (enq_vals (tr @ tr')) \<le> length (deq_claims (tr @ tr')) + length ds \<longrightarrow> set (pcs ?c) \<subseteq> {Idle}"
    by (metis leD singletonI subsetI)
  with run st show ?thesis by blast
qed

text \<open>A consumer and a producer that have both claimed their tickets, on six fair rounds.\<close>

lemma crossed_calls_run:
  obtains c where "lts_run (ring_step id id) (ring_start 2 [] [0, 0 :: int]) [DeqCall 1, EnqCall 0 5] c"
    "total_work c = 6"
proof -
  have "map_option (\<lambda>(tr, c). (tr, total_work c)) (performs id id [ActDeq 1, ActEnq 0 5] (ring_start 2 [] [0, 0 :: int])) =
      Some ([DeqCall 1, EnqCall 0 5], 6)"
    by code_simp
  then obtain c where c: "performs id id [ActDeq 1, ActEnq 0 5] (ring_start 2 [] [0, 0 :: int]) =
      Some ([DeqCall 1, EnqCall 0 5], c)" "total_work c = 6"
    by (auto simp del: performs.simps)
  from that [OF performs_run [OF c(1)] c(2)] show ?thesis .
qed

theorem fair_schedules_complete_witness:
  "\<exists>c :: int ring_sys. total_work c = 6 \<and> settled (run_schedule id id (concat (replicate 6 [0, 1])) c)"
proof -
  obtain c where c: "lts_run (ring_step id id) (ring_start 2 [] [0, 0 :: int]) [DeqCall 1, EnqCall 0 5] c" "total_work c = 6"
    by (rule crossed_calls_run)
  have "\<forall>r \<in> set (replicate 6 [0, 1]). round_ok 2 r" by (auto simp: round_ok_def)
  with fair_schedules_complete [OF _ _ c(1), of "replicate 6 [0, 1]"] c(2) show ?thesis
    by (intro exI [of _ c]) auto
qed

end
