(* ===== verification/Spsc_Ring_Buffer.thy ===== *)
theory Spsc_Ring_Buffer
  imports Bounded_Queue
begin

text \<open>
  \<open>spscRingBuffer\<close> (include/AstraLib/Buffers/spscRingBuffer.hpp): a ring for one producer and one
  consumer. Each side keeps the index of the slot it used last in an \<open>int\<close> of its own; the only
  shared data are the slots, whose \<open>ticket\<close> is 0 when empty and 1 when filled. This theory has the
  operations as a single thread runs them; \<open>Spsc_Concurrent\<close> has the interleaved executions.
\<close>

section \<open>Data\<close>

record 'a spscSlot =
  sdata :: 'a
  ticket :: i32

record 'a spscRingBuffer =
  sbuffer :: "'a spscSlot list"
  lastRead :: i32
  lastWritten :: i32

abbreviation BUFFER_SIZE :: "'a spscRingBuffer \<Rightarrow> nat" where
  "BUFFER_SIZE s \<equiv> length (sbuffer s)"

text \<open>The indices are \<open>int\<close>s, so \<open>lastWritten + 1\<close> must not overflow: fewer than \<open>2 ^ 31\<close> slots.\<close>

definition spsc_size_ok :: "nat \<Rightarrow> bool" where
  "spsc_size_ok n \<longleftrightarrow> 0 < n \<and> n < 2 ^ 31"

section \<open>Atomic actions\<close>

text \<open>
  \<open>if (i + 1 < BUFFER_SIZE) i += 1; else i = 0\<close>: the sum is an \<open>int\<close>, converted to \<open>std::size_t\<close> for
  the comparison. \<open>spsc_index\<close> is the conversion of an \<open>int\<close> subscript.
\<close>

definition spsc_advance :: "nat \<Rightarrow> i32 \<Rightarrow> i32" where
  "spsc_advance n i = (if (scast (i + 1) :: u64) < of_nat n then i + 1 else 0)"

definition spsc_index :: "i32 \<Rightarrow> nat" where
  "spsc_index i = unat (scast i :: u64)"

definition spsc_slot :: "'a spscRingBuffer \<Rightarrow> i32 \<Rightarrow> 'a spscSlot" where
  "spsc_slot s i = sbuffer s ! spsc_index i"

definition spsc_upd :: "i32 \<Rightarrow> ('a spscSlot \<Rightarrow> 'a spscSlot) \<Rightarrow> 'a spscRingBuffer \<Rightarrow> 'a spscRingBuffer" where
  "spsc_upd i f s = s\<lparr>sbuffer := (sbuffer s)[spsc_index i := f (spsc_slot s i)]\<rparr>"

definition advance_write :: "'a spscRingBuffer \<Rightarrow> 'a spscRingBuffer" where
  "advance_write s = s\<lparr>lastWritten := spsc_advance (BUFFER_SIZE s) (lastWritten s)\<rparr>"

definition advance_read :: "'a spscRingBuffer \<Rightarrow> 'a spscRingBuffer" where
  "advance_read s = s\<lparr>lastRead := spsc_advance (BUFFER_SIZE s) (lastRead s)\<rparr>"

definition slot_free :: "'a spscRingBuffer \<Rightarrow> bool" where
  "slot_free s \<longleftrightarrow> ticket (spsc_slot s (lastWritten s)) = 0"

definition slot_filled :: "'a spscRingBuffer \<Rightarrow> bool" where
  "slot_filled s \<longleftrightarrow> ticket (spsc_slot s (lastRead s)) \<noteq> 0"

definition spsc_store :: "'a \<Rightarrow> 'a spscRingBuffer \<Rightarrow> 'a spscRingBuffer" where
  "spsc_store d s = spsc_upd (lastWritten s) (\<lambda>sl. sl\<lparr>sdata := d\<rparr>) s"

definition spsc_publish :: "'a spscRingBuffer \<Rightarrow> 'a spscRingBuffer" where
  "spsc_publish s = spsc_upd (lastWritten s) (\<lambda>sl. sl\<lparr>ticket := 1\<rparr>) s"

definition spsc_take :: "('a \<Rightarrow> 'a) \<Rightarrow> 'a spscRingBuffer \<Rightarrow> 'a \<times> 'a spscRingBuffer" where
  "spsc_take mv s = (sdata (spsc_slot s (lastRead s)),
     spsc_upd (lastRead s) (\<lambda>sl. sl\<lparr>sdata := mv (sdata sl)\<rparr>) s)"

definition spsc_release :: "'a spscRingBuffer \<Rightarrow> 'a spscRingBuffer" where
  "spsc_release s = spsc_upd (lastRead s) (\<lambda>sl. sl\<lparr>ticket := 0\<rparr>) s"

section \<open>Operations\<close>

definition new_spscRingBuffer :: "'a list \<Rightarrow> 'a spscRingBuffer" where
  "new_spscRingBuffer ds = \<lparr>sbuffer = map (\<lambda>d. \<lparr>sdata = d, ticket = 0\<rparr>) ds, lastRead = 0, lastWritten = 0\<rparr>"

definition spsc_enqueue :: "'a \<Rightarrow> 'a spscRingBuffer \<Rightarrow> ('a spscRingBuffer, unit) run" where
  "spsc_enqueue d s =
     (let s1 = advance_write s in
      if slot_free s1 then Returned (spsc_publish (spsc_store d s1)) () else Spinning s1)"

text \<open>
  \<open>emplaceEnqueue\<close>: a payload that is not trivially destructible is destroyed before the new one is
  constructed in its place; the constructor may throw.
\<close>

definition spsc_emplaceEnqueue ::
  "bool \<Rightarrow> ('a \<Rightarrow> 'a) \<Rightarrow> ('args \<Rightarrow> 'a option) \<Rightarrow> 'args \<Rightarrow> 'a spscRingBuffer \<Rightarrow> ('a spscRingBuffer, unit) run" where
  "spsc_emplaceEnqueue trivially_destructible dead ctor args s =
     (let s1 = advance_write s in
      if slot_free s1 then
        (let s2 = (if trivially_destructible then s1
                   else spsc_upd (lastWritten s1) (\<lambda>sl. sl\<lparr>sdata := dead (sdata sl)\<rparr>) s1)
         in case ctor args of
              Some d \<Rightarrow> Returned (spsc_publish (spsc_store d s2)) ()
            | None \<Rightarrow> Threw s2)
      else Spinning s1)"

definition spsc_dequeue :: "('a \<Rightarrow> 'a) \<Rightarrow> 'a spscRingBuffer \<Rightarrow> ('a spscRingBuffer, 'a) run" where
  "spsc_dequeue mv s =
     (let s1 = advance_read s in
      if slot_filled s1 then (let (d, s2) = spsc_take mv s1 in Returned (spsc_release s2) d)
      else Spinning s1)"

section \<open>Indices\<close>

lemma spsc_size_okD [dest]: "spsc_size_ok n \<Longrightarrow> 0 < n" "spsc_size_ok n \<Longrightarrow> n < 2 ^ 31"
  by (auto simp: spsc_size_ok_def)

lemma scast_of_nat_i32: "k < 2 ^ 31 \<Longrightarrow> (scast (of_nat k :: i32) :: u64) = of_nat k"
  using sint_of_nat_i32 [of k] by (simp add: scast_eq)

lemma spsc_index_of_nat [simp]: "k < 2 ^ 31 \<Longrightarrow> spsc_index (of_nat k) = k"
  by (simp add: spsc_index_def scast_of_nat_i32 unat_of_nat)

lemma spsc_advance_of_nat:
  assumes "spsc_size_ok n" "k < n"
  shows "spsc_advance n (of_nat k) = of_nat (Suc k mod n)"
proof -
  have "(of_nat k :: i32) + 1 = of_nat (Suc k)" by simp
  moreover have lt: "Suc k < 2 ^ 31" using assms by (auto simp: spsc_size_ok_def)
  moreover have "(of_nat (Suc k) :: u64) < of_nat n \<longleftrightarrow> Suc k < n"
  proof -
    have "Suc k < 2 ^ LENGTH(64)" "n < 2 ^ LENGTH(64)" using lt assms(1) by (auto simp: spsc_size_ok_def)
    then show ?thesis by (simp only: word_less_nat_alt unat_of_nat) simp
  qed
  ultimately have "spsc_advance n (of_nat k) = (if Suc k < n then of_nat (Suc k) else 0)"
    using scast_of_nat_i32 [OF lt] by (simp only: spsc_advance_def)
  also have "\<dots> = of_nat (Suc k mod n)" using assms(2) by (cases "Suc k = n") auto
  finally show ?thesis .
qed

section \<open>The representation invariant\<close>

text \<open>
  The slots in the order the consumer will visit them; the filled ones come first. They are the
  contents of the queue.
\<close>

definition spsc_view :: "'a spscRingBuffer \<Rightarrow> 'a spscSlot list" where
  "spsc_view s = rotate (Suc (spsc_index (lastRead s))) (sbuffer s)"

definition spsc_fill :: "'a spscRingBuffer \<Rightarrow> nat" where
  "spsc_fill s = length (takeWhile (\<lambda>sl. ticket sl \<noteq> 0) (spsc_view s))"

definition spsc_contents :: "'a spscRingBuffer \<Rightarrow> 'a list" where
  "spsc_contents s = map sdata (take (spsc_fill s) (spsc_view s))"

definition spsc_inv :: "'a spscRingBuffer \<Rightarrow> bool" where
  "spsc_inv s \<longleftrightarrow> spsc_size_ok (BUFFER_SIZE s) \<and>
     (\<exists>r < BUFFER_SIZE s. lastRead s = of_nat r \<and> lastWritten s = of_nat ((r + spsc_fill s) mod BUFFER_SIZE s)) \<and>
     (\<forall>k < BUFFER_SIZE s. ticket (spsc_view s ! k) = (if k < spsc_fill s then 1 else 0))"

lemma spsc_view_length [simp]: "length (spsc_view s) = BUFFER_SIZE s"
  by (simp add: spsc_view_def)

lemma spsc_fill_le: "spsc_fill s \<le> BUFFER_SIZE s"
  unfolding spsc_fill_def by (metis length_takeWhile_le spsc_view_length)

lemma length_spsc_contents [simp]: "length (spsc_contents s) = spsc_fill s"
  using spsc_fill_le [of s] by (simp add: spsc_contents_def)

text \<open>A filled prefix of length \<open>f\<close> is the fill level.\<close>

lemma takeWhile_prefix_length:
  assumes "f \<le> length xs" "\<And>k. k < length xs \<Longrightarrow> P (xs ! k) \<longleftrightarrow> k < f"
  shows "length (takeWhile P xs) = f"
proof -
  have "takeWhile P xs = take f xs" by (rule takeWhile_eq_take_P_nth) (use assms in auto)
  then show ?thesis using assms(1) by simp
qed

lemma spsc_fill_eqI:
  assumes "f \<le> BUFFER_SIZE s" "\<And>k. k < BUFFER_SIZE s \<Longrightarrow> ticket (spsc_view s ! k) = (if k < f then 1 else 0)"
  shows "spsc_fill s = f"
  unfolding spsc_fill_def by (rule takeWhile_prefix_length) (use assms in auto)

text \<open>Updating a slot of the buffer, seen in the consumer's order.\<close>

lemma rotate_list_update:
  assumes "k < length xs"
  shows "rotate m (xs[(m + k) mod length xs := v]) = (rotate m xs)[k := v]"
proof (rule nth_equalityI)
  fix j assume "j < length (rotate m (xs[(m + k) mod length xs := v]))"
  then have j: "j < length xs" by simp
  then have m: "(m + k) mod length xs < length xs" by (intro mod_less_divisor) linarith
  moreover have "(m + j) mod length xs = (m + k) mod length xs \<longleftrightarrow> j = k"
    using assms j by (simp add: add_mod_eq_iff)
  ultimately show "rotate m (xs[(m + k) mod length xs := v]) ! j = (rotate m xs)[k := v] ! j"
    using assms j m by (auto simp: nth_rotate nth_list_update)
qed simp

lemma spsc_view_nth:
  assumes "spsc_size_ok (BUFFER_SIZE s)" "lastRead s = of_nat r" "r < BUFFER_SIZE s" "k < BUFFER_SIZE s"
  shows "spsc_view s ! k = sbuffer s ! ((Suc r + k) mod BUFFER_SIZE s)"
proof -
  have "spsc_index (lastRead s) = r" using assms by (auto simp: spsc_size_ok_def)
  then show ?thesis using nth_rotate [OF assms(4), of "Suc r"] by (simp add: spsc_view_def)
qed

lemma spsc_invE:
  assumes "spsc_inv s"
  obtains r where "r < BUFFER_SIZE s" "lastRead s = of_nat r" "spsc_index (lastRead s) = r"
    "lastWritten s = of_nat ((r + spsc_fill s) mod BUFFER_SIZE s)" "spsc_size_ok (BUFFER_SIZE s)"
proof -
  from assms obtain r where "r < BUFFER_SIZE s" "lastRead s = of_nat r"
    "lastWritten s = of_nat ((r + spsc_fill s) mod BUFFER_SIZE s)" "spsc_size_ok (BUFFER_SIZE s)"
    by (auto simp: spsc_inv_def)
  then show ?thesis using that by (auto simp: spsc_size_ok_def)
qed

lemma spscSlot_update_both [simp]: "sl\<lparr>sdata := d, ticket := t\<rparr> = \<lparr>sdata = d, ticket = t\<rparr>"
  for sl :: "'a spscSlot"
  by (cases sl) simp

lemma advance_write_slot:
  assumes "spsc_inv s"
  shows "spsc_index (lastWritten (advance_write s)) = (Suc (spsc_index (lastRead s)) + spsc_fill s) mod BUFFER_SIZE s"
    "lastWritten (advance_write s) = of_nat ((Suc (spsc_index (lastRead s)) + spsc_fill s) mod BUFFER_SIZE s)"
proof -
  from assms obtain r where r: "r < BUFFER_SIZE s" "spsc_index (lastRead s) = r"
    "lastWritten s = of_nat ((r + spsc_fill s) mod BUFFER_SIZE s)" "spsc_size_ok (BUFFER_SIZE s)"
    by (rule spsc_invE)
  let ?w = "(Suc r + spsc_fill s) mod BUFFER_SIZE s"
  have "lastWritten (advance_write s) = of_nat (Suc ((r + spsc_fill s) mod BUFFER_SIZE s) mod BUFFER_SIZE s)"
    using r spsc_advance_of_nat [OF r(4), of "(r + spsc_fill s) mod BUFFER_SIZE s"]
    by (simp add: advance_write_def mod_less_divisor [OF spsc_size_okD(1) [OF r(4)]])
  then show "lastWritten (advance_write s) = of_nat ((Suc (spsc_index (lastRead s)) + spsc_fill s) mod BUFFER_SIZE s)"
    using r(2) by (simp add: mod_Suc_eq)
  moreover have "?w < 2 ^ 31" using r(4) by (meson mod_less_divisor order_less_trans spsc_size_okD)
  ultimately show "spsc_index (lastWritten (advance_write s)) = (Suc (spsc_index (lastRead s)) + spsc_fill s) mod BUFFER_SIZE s"
    using r(2) by simp
qed

lemma spsc_enqueue_room:
  assumes "spsc_inv s" "spsc_fill s < BUFFER_SIZE s"
  shows "\<exists>s'. spsc_enqueue d s = Returned s' () \<and> spsc_inv s' \<and> spsc_contents s' = spsc_contents s @ [d] \<and>
    BUFFER_SIZE s' = BUFFER_SIZE s"
proof -
  from assms(1) obtain r where r: "r < BUFFER_SIZE s" "lastRead s = of_nat r" "spsc_index (lastRead s) = r"
    "spsc_size_ok (BUFFER_SIZE s)" by (rule spsc_invE)
  define w where "w = (Suc r + spsc_fill s) mod BUFFER_SIZE s"
  have w: "lastWritten (advance_write s) = of_nat w" "spsc_index (of_nat w) = w" "w < BUFFER_SIZE s"
    using advance_write_slot [OF assms(1)] r by (auto simp: w_def)
  define s' where "s' = s\<lparr>lastWritten := of_nat w, sbuffer := (sbuffer s)[w := \<lparr>sdata = d, ticket = 1\<rparr>]\<rparr>"
  have "spsc_view s ! spsc_fill s = sbuffer s ! w"
    using spsc_view_nth [OF r(4,2,1) assms(2)] by (simp add: w_def)
  moreover have "ticket (spsc_view s ! spsc_fill s) = 0" using assms by (simp add: spsc_inv_def)
  ultimately have free: "slot_free (advance_write s)"
    using w by (simp add: slot_free_def spsc_slot_def) (simp add: advance_write_def)
  have eq: "spsc_enqueue d s = Returned s' ()"
    using free w by (simp add: spsc_enqueue_def spsc_publish_def spsc_store_def spsc_upd_def spsc_slot_def)
      (simp add: advance_write_def s'_def)
  have view: "spsc_view s' = (spsc_view s)[spsc_fill s := \<lparr>sdata = d, ticket = 1\<rparr>]"
    using rotate_list_update [OF assms(2), of "Suc r" "\<lparr>sdata = d, ticket = 1\<rparr>"] r(3)
    by (simp add: spsc_view_def s'_def w_def)
  have n: "BUFFER_SIZE s' = BUFFER_SIZE s" by (simp add: s'_def)
  have tick: "ticket (spsc_view s' ! k) = (if k < Suc (spsc_fill s) then 1 else 0)" if "k < BUFFER_SIZE s" for k
    using assms that by (auto simp: view nth_list_update spsc_inv_def)
  then have fill: "spsc_fill s' = Suc (spsc_fill s)"
    by (intro spsc_fill_eqI) (use assms(2) n in auto)
  have "lastRead s' = of_nat r" "lastWritten s' = of_nat ((r + Suc (spsc_fill s)) mod BUFFER_SIZE s)"
    using r(2) by (simp_all add: s'_def w_def)
  then have "spsc_inv s'" using r(1,4) n fill tick by (auto simp: spsc_inv_def)
  moreover have "spsc_contents s' = spsc_contents s @ [d]"
    using assms(2) by (simp add: spsc_contents_def fill view take_Suc_conv_app_nth)
  ultimately show ?thesis using eq n by blast
qed

lemma spsc_enqueue_full:
  assumes "spsc_inv s" "spsc_fill s = BUFFER_SIZE s"
  shows "spsc_enqueue d s = Spinning (advance_write s)"
proof -
  from assms(1) obtain r where r: "r < BUFFER_SIZE s" "lastRead s = of_nat r" "spsc_index (lastRead s) = r"
    "spsc_size_ok (BUFFER_SIZE s)" by (rule spsc_invE)
  have pos: "0 < BUFFER_SIZE s" using r(4) by (rule spsc_size_okD)
  have "spsc_index (lastWritten (advance_write s)) = Suc r mod BUFFER_SIZE s"
    using advance_write_slot(1) [OF assms(1)] r(3) assms(2) by (simp del: add_Suc)
  moreover have "ticket (sbuffer s ! (Suc r mod BUFFER_SIZE s)) = 1"
    using spsc_view_nth [OF r(4,2,1) pos] assms pos by (auto simp: spsc_inv_def)
  ultimately show ?thesis
    by (simp add: spsc_enqueue_def slot_free_def spsc_slot_def) (simp add: advance_write_def)
qed

lemma advance_read_slot:
  assumes "spsc_inv s"
  shows "lastRead (advance_read s) = of_nat (Suc (spsc_index (lastRead s)) mod BUFFER_SIZE s)"
    "spsc_index (lastRead (advance_read s)) = Suc (spsc_index (lastRead s)) mod BUFFER_SIZE s"
proof -
  from assms obtain r where r: "r < BUFFER_SIZE s" "lastRead s = of_nat r" "spsc_index (lastRead s) = r"
    "spsc_size_ok (BUFFER_SIZE s)" by (rule spsc_invE)
  then show lr: "lastRead (advance_read s) = of_nat (Suc (spsc_index (lastRead s)) mod BUFFER_SIZE s)"
    using spsc_advance_of_nat [OF r(4,1)] by (simp add: advance_read_def)
  have "Suc r mod BUFFER_SIZE s < 2 ^ 31" using r(4) by (meson mod_less_divisor order_less_trans spsc_size_okD)
  then show "spsc_index (lastRead (advance_read s)) = Suc (spsc_index (lastRead s)) mod BUFFER_SIZE s"
    using lr r(3) by simp
qed

lemma spsc_slot_advance_read:
  assumes "spsc_inv s"
  shows "spsc_slot (advance_read s) (lastRead (advance_read s)) = spsc_view s ! 0"
proof -
  from assms obtain r where r: "r < BUFFER_SIZE s" "lastRead s = of_nat r" "spsc_index (lastRead s) = r"
    "spsc_size_ok (BUFFER_SIZE s)" by (rule spsc_invE)
  have "spsc_view s ! 0 = sbuffer s ! (Suc r mod BUFFER_SIZE s)"
    using spsc_view_nth [OF r(4,2,1) spsc_size_okD(1) [OF r(4)]] by simp
  then show ?thesis using advance_read_slot(2) [OF assms] r(3)
    by (simp add: spsc_slot_def) (simp add: advance_read_def)
qed

lemma spsc_dequeue_item:
  assumes "spsc_inv s" "spsc_contents s = x # xs"
  shows "\<exists>s'. spsc_dequeue mv s = Returned s' x \<and> spsc_inv s' \<and> spsc_contents s' = xs \<and>
    BUFFER_SIZE s' = BUFFER_SIZE s"
proof -
  from assms(1) obtain r where r: "r < BUFFER_SIZE s" "lastRead s = of_nat r" "spsc_index (lastRead s) = r"
    "lastWritten s = of_nat ((r + spsc_fill s) mod BUFFER_SIZE s)" "spsc_size_ok (BUFFER_SIZE s)" by (rule spsc_invE)
  let ?n = "BUFFER_SIZE s" and ?v = "\<lparr>sdata = mv x, ticket = 0\<rparr>"
  have pos: "0 < spsc_fill s" "0 < ?n" using assms(2) spsc_fill_le [of s]
    by (metis length_greater_0_conv length_spsc_contents list.discI, metis r(5) spsc_size_okD(1))
  have "spsc_contents s ! 0 = sdata (spsc_view s ! 0)"
    using pos spsc_fill_le [of s] by (simp add: spsc_contents_def)
  then have x: "sdata (spsc_view s ! 0) = x" "ticket (spsc_view s ! 0) = 1"
    using assms pos by (auto simp: spsc_inv_def)
  define r' where "r' = Suc r mod ?n"
  have r': "lastRead (advance_read s) = of_nat r'" "spsc_index (of_nat r') = r'" "r' < ?n"
    using advance_read_slot [OF assms(1)] r(3) pos(2) by (auto simp: r'_def)
  define s' where "s' = s\<lparr>lastRead := of_nat r', sbuffer := (sbuffer s)[r' := ?v]\<rparr>"
  have adv: "sbuffer (advance_read s) = sbuffer s" by (simp add: advance_read_def)
  have "sbuffer s ! r' = spsc_view s ! 0"
    using spsc_slot_advance_read [OF assms(1)] r' adv by (simp add: spsc_slot_def)
  then have eq: "spsc_dequeue mv s = Returned s' x"
    using x r' adv
    by (simp add: spsc_dequeue_def slot_filled_def spsc_take_def spsc_release_def spsc_upd_def spsc_slot_def)
      (simp add: advance_read_def s'_def)
  have n: "BUFFER_SIZE s' = ?n" by (simp add: s'_def)
  have "spsc_view s' = rotate (Suc 0) (rotate (Suc r) ((sbuffer s)[(Suc r + 0) mod ?n := ?v]))"
    using r' rotate_conv_mod [of "Suc (Suc r)" "(sbuffer s)[r' := ?v]"]
      rotate_conv_mod [of "Suc r'" "(sbuffer s)[r' := ?v]"] unfolding rotate_rotate
    by (simp add: spsc_view_def s'_def r'_def mod_Suc_eq del: rotate_Suc)
  then have view: "spsc_view s' = rotate1 ((spsc_view s)[0 := ?v])"
    using rotate_list_update [OF pos(2), of "Suc r" ?v] r(3) by (simp add: spsc_view_def)
  have nth: "spsc_view s' ! k = (if Suc k = ?n then ?v else spsc_view s ! Suc k)" if "k < ?n" for k
    using that pos(2) nth_rotate1 [of k "(spsc_view s)[0 := ?v]"] by (auto simp: view)
  have "ticket (spsc_view s' ! k) = (if k < spsc_fill s - 1 then 1 else 0)" if "k < ?n" for k
    using assms(1) that spsc_fill_le [of s] by (auto simp: nth spsc_inv_def)
  note tick = this
  have fill: "spsc_fill s' = spsc_fill s - 1"
    by (intro spsc_fill_eqI) (use tick n spsc_fill_le [of s] in auto)
  have "(r' + (spsc_fill s - 1)) mod ?n = (r + spsc_fill s) mod ?n"
    using pos(1) mod_add_left_eq [of "Suc r" ?n "spsc_fill s - 1"] by (simp add: r'_def)
  then have "spsc_inv s'" using r(4,5) r'(3) n fill tick by (auto simp: spsc_inv_def s'_def)
  moreover have "spsc_contents s' = xs"
  proof -
    have "spsc_contents s' = tl (spsc_contents s)"
      by (rule nth_equalityI) (use fill n spsc_fill_le [of s] in \<open>auto simp: spsc_contents_def nth nth_tl\<close>)
    then show ?thesis using assms(2) by simp
  qed
  ultimately show ?thesis using eq n by blast
qed

lemma spsc_dequeue_empty:
  assumes "spsc_inv s" "spsc_contents s = []"
  shows "spsc_dequeue mv s = Spinning (advance_read s)"
proof -
  have "spsc_fill s = 0" using assms(2) by (metis length_spsc_contents list.size(3))
  moreover have "0 < BUFFER_SIZE s" using assms(1) by (auto simp: spsc_inv_def)
  ultimately have "ticket (spsc_view s ! 0) = 0" using assms(1) by (auto simp: spsc_inv_def)
  then show ?thesis
    using spsc_slot_advance_read [OF assms(1)] by (simp add: spsc_dequeue_def slot_filled_def)
qed

interpretation spsc: bounded_queue spsc_enqueue "spsc_dequeue mv" spsc_contents "\<lambda>s. BUFFER_SIZE s" spsc_inv
  for mv :: "'a \<Rightarrow> 'a"
proof unfold_locales
  show "spsc_inv q \<Longrightarrow> length (spsc_contents q) \<le> BUFFER_SIZE q" for q :: "'a spscRingBuffer"
    by (simp add: spsc_fill_le)
qed (simp_all add: spsc_enqueue_room spsc_enqueue_full spsc_dequeue_item spsc_dequeue_empty)

lemma new_spscRingBuffer_inv:
  assumes "spsc_size_ok (length ds)"
  shows "spsc_inv (new_spscRingBuffer ds)" "spsc_contents (new_spscRingBuffer ds) = []"
    "BUFFER_SIZE (new_spscRingBuffer ds) = length ds"
proof -
  let ?s = "new_spscRingBuffer ds"
  show n: "BUFFER_SIZE ?s = length ds" by (simp add: new_spscRingBuffer_def)
  have tick: "ticket (spsc_view ?s ! k) = 0" if "k < length ds" for k
  proof -
    have "spsc_view ?s ! k \<in> set (spsc_view ?s)" using that n by simp
    then show ?thesis by (auto simp: spsc_view_def new_spscRingBuffer_def)
  qed
  then have fill: "spsc_fill ?s = 0" by (intro spsc_fill_eqI) (use n in auto)
  then show "spsc_contents ?s = []" by (simp add: spsc_contents_def)
  have "lastRead ?s = of_nat 0" "lastWritten ?s = of_nat 0" by (simp_all add: new_spscRingBuffer_def)
  moreover have "0 < length ds" using assms by (rule spsc_size_okD)
  ultimately have "\<exists>r < length ds. lastRead ?s = of_nat r \<and> lastWritten ?s = of_nat ((r + 0) mod length ds)"
    by (intro exI [of _ 0]) simp
  then show "spsc_inv ?s" using assms tick fill n by (simp add: spsc_inv_def)
qed

section \<open>Properties\<close>

text \<open>An \<open>spscRingBuffer<int, 2>\<close>, the concrete instance of the witnesses.\<close>

definition spsc2 :: "int spscRingBuffer" where
  "spsc2 = new_spscRingBuffer [0, 0]"

lemma spsc_size_ok_small [simp]: "spsc_size_ok 2" "spsc_size_ok (Suc (Suc 0))"
  by (simp_all add: spsc_size_ok_def)

lemma spsc2_inv [simp]: "spsc_inv spsc2" "spsc_contents spsc2 = []" "BUFFER_SIZE spsc2 = 2"
  by (simp_all add: spsc2_def new_spscRingBuffer_inv)

text \<open>C20: The operations of \<open>spscRingBuffer\<close> refine the bounded FIFO queue: \<open>enqueue\<close> and \<open>emplaceEnqueue\<close> append when a slot is
  free (the emplacing variant whether or not the payload must be destroyed first), and wait for ever
  when all \<open>BUFFER_SIZE\<close> slots are filled; \<open>dequeue\<close> returns the oldest element and frees its slot, on an empty ring it waits for ever.\<close>

theorem spsc_refines_fifo:
  assumes "spsc_inv s" "ctor args = Some d"
  shows "spsc_emplaceEnqueue td dead ctor args s = spsc_enqueue d s \<and>
    (if length (spsc_contents s) < BUFFER_SIZE s
     then \<exists>s'. spsc_enqueue d s = Returned s' () \<and> spsc_inv s' \<and> spsc_contents s' = spsc_contents s @ [d] \<and>
            BUFFER_SIZE s' = BUFFER_SIZE s
     else \<exists>s'. spsc_enqueue d s = Spinning s') \<and>
    (case spsc_contents s of
      [] \<Rightarrow> \<exists>s'. spsc_dequeue mv s = Spinning s'
    | x # xs \<Rightarrow> \<exists>s'. spsc_dequeue mv s = Returned s' x \<and> spsc_inv s' \<and> spsc_contents s' = xs \<and>
        BUFFER_SIZE s' = BUFFER_SIZE s)"
proof (intro conjI)
  have "spsc_index (lastWritten (advance_write s)) < BUFFER_SIZE (advance_write s)"
    using advance_write_slot(1) [OF assms(1)] assms(1) by (auto simp: advance_write_def spsc_inv_def)
  then show "spsc_emplaceEnqueue td dead ctor args s = spsc_enqueue d s"
    using assms(2)
    by (simp add: spsc_emplaceEnqueue_def spsc_enqueue_def Let_def spsc_publish_def spsc_store_def spsc_upd_def spsc_slot_def)
  have "length (spsc_contents s) \<le> BUFFER_SIZE s" using assms(1) by (rule spsc.items_bounded)
  then show "if length (spsc_contents s) < BUFFER_SIZE s
     then \<exists>s'. spsc_enqueue d s = Returned s' () \<and> spsc_inv s' \<and> spsc_contents s' = spsc_contents s @ [d] \<and> BUFFER_SIZE s' = BUFFER_SIZE s
     else \<exists>s'. spsc_enqueue d s = Spinning s'"
    using spsc.enq_room [OF assms(1)] spsc.enq_full [OF assms(1)] by auto
  show "case spsc_contents s of
      [] \<Rightarrow> \<exists>s'. spsc_dequeue mv s = Spinning s'
    | x # xs \<Rightarrow> \<exists>s'. spsc_dequeue mv s = Returned s' x \<and> spsc_inv s' \<and> spsc_contents s' = xs \<and> BUFFER_SIZE s' = BUFFER_SIZE s"
    using spsc.deq_item [OF assms(1)] spsc.deq_empty [OF assms(1)] by (cases "spsc_contents s") auto
qed

theorem spsc_refines_fifo_witness:
  "spsc_emplaceEnqueue False uminus Some 5 spsc2 = spsc_enqueue 5 spsc2 \<and>
    (\<exists>s'. spsc_enqueue 5 spsc2 = Returned s' () \<and> spsc_contents s' = [5]) \<and> (\<exists>s'. spsc_dequeue id spsc2 = Spinning s')"
  using spsc_refines_fifo [OF spsc2_inv(1), of Some 5 5 False uminus id] by auto

text \<open>Round trip. Unlike \<open>AtomicRingBuffer\<close>, any positive \<open>BUFFER_SIZE\<close> below \<open>2 ^ 31\<close> works, a power of two or not:
  up to \<open>BUFFER_SIZE\<close> elements enqueued into a new ring come out again in order.\<close>

theorem spsc_fill_then_drain:
  assumes "spsc_size_ok (length ds)" "length xs \<le> length ds"
  shows "\<exists>s1 s2. enqueue_all spsc_enqueue xs (new_spscRingBuffer ds) = Returned s1 () \<and>
    dequeue_many (spsc_dequeue mv) (length xs) s1 = Returned s2 xs \<and> spsc_inv s2 \<and> spsc_contents s2 = []"
  using spsc.fill_drain [OF new_spscRingBuffer_inv(1,2) [OF assms(1)], of xs mv]
    new_spscRingBuffer_inv(3) [OF assms(1)] assms(2) by simp

theorem spsc_fill_then_drain_witness:
  "\<exists>s1 s2. enqueue_all spsc_enqueue [3, 4] (new_spscRingBuffer [0, 0, 0 :: int]) = Returned s1 () \<and>
    dequeue_many (spsc_dequeue id) (length [3, 4 :: int]) s1 = Returned s2 [3, 4] \<and> spsc_inv s2 \<and> spsc_contents s2 = []"
  by (rule spsc_fill_then_drain) (simp_all add: spsc_size_ok_def)

end
