(* ===== verification/Spsc_Concurrent.thy ===== *)
theory Spsc_Concurrent
  imports Spsc_Ring_Buffer "HOL-Library.Sublist"
begin

text \<open>
  Interleaved executions of \<open>spscRingBuffer\<close> with its one producer and its one consumer. A step is
  one atomic action of one of the two: a load of a \<open>ticket\<close> in a busy-wait loop, the plain access to
  the payload, the store of a \<open>ticket\<close>. The indices \<open>lastWritten\<close> and \<open>lastRead\<close> are touched by one
  side only and advance with the call. The execution is sequentially consistent.
\<close>

section \<open>The machine\<close>

datatype 'a prod_pc = PIdle | PWait 'a | PEWait 'a | PDestroy 'a | PStore 'a | PPublish
datatype 'a cons_pc = CIdle | CWait | CTake | CRelease 'a

record 'a spsc_sys =
  sring :: "'a spscRingBuffer"
  producer :: "'a prod_pc"
  consumer :: "'a cons_pc"

datatype 'a spsc_ev = PCall 'a | PRet | CCall | CRet 'a | STau

fun exec_prod :: "('a \<Rightarrow> 'a) \<Rightarrow> 'a spscRingBuffer \<Rightarrow> 'a prod_pc \<Rightarrow> 'a spscRingBuffer \<times> 'a prod_pc" where
  "exec_prod dead r PIdle = (r, PIdle)"
| "exec_prod dead r (PWait d) = (r, if slot_free r then PStore d else PWait d)"
| "exec_prod dead r (PEWait d) = (r, if slot_free r then PDestroy d else PEWait d)"
| "exec_prod dead r (PDestroy d) = (spsc_upd (lastWritten r) (\<lambda>sl. sl\<lparr>sdata := dead (sdata sl)\<rparr>) r, PStore d)"
| "exec_prod dead r (PStore d) = (spsc_store d r, PPublish)"
| "exec_prod dead r PPublish = (spsc_publish r, PIdle)"

fun exec_cons :: "('a \<Rightarrow> 'a) \<Rightarrow> 'a spscRingBuffer \<Rightarrow> 'a cons_pc \<Rightarrow> 'a spscRingBuffer \<times> 'a cons_pc" where
  "exec_cons mv r CIdle = (r, CIdle)"
| "exec_cons mv r CWait = (r, if slot_filled r then CTake else CWait)"
| "exec_cons mv r CTake = (let (d, r') = spsc_take mv r in (r', CRelease d))"
| "exec_cons mv r (CRelease d) = (spsc_release r, CIdle)"

fun prod_event :: "'a prod_pc \<Rightarrow> 'a spsc_ev" where
  "prod_event PPublish = PRet"
| "prod_event _ = STau"

fun cons_event :: "'a cons_pc \<Rightarrow> 'a spsc_ev" where
  "cons_event (CRelease d) = CRet d"
| "cons_event _ = STau"

inductive spsc_step :: "('a \<Rightarrow> 'a) \<Rightarrow> ('a \<Rightarrow> 'a) \<Rightarrow> 'a spsc_sys \<Rightarrow> 'a spsc_ev \<Rightarrow> 'a spsc_sys \<Rightarrow> bool"
  for mv dead :: "'a \<Rightarrow> 'a" where
  p_enqueue: "producer s = PIdle \<Longrightarrow>
    spsc_step mv dead s (PCall d) (s\<lparr>sring := advance_write (sring s), producer := PWait d\<rparr>)"
| p_emplace: "producer s = PIdle \<Longrightarrow>
    spsc_step mv dead s (PCall d) (s\<lparr>sring := advance_write (sring s), producer := PEWait d\<rparr>)"
| p_run: "producer s \<noteq> PIdle \<Longrightarrow> exec_prod dead (sring s) (producer s) = (r, p) \<Longrightarrow>
    spsc_step mv dead s (prod_event (producer s)) (s\<lparr>sring := r, producer := p\<rparr>)"
| c_dequeue: "consumer s = CIdle \<Longrightarrow>
    spsc_step mv dead s CCall (s\<lparr>sring := advance_read (sring s), consumer := CWait\<rparr>)"
| c_run: "consumer s \<noteq> CIdle \<Longrightarrow> exec_cons mv (sring s) (consumer s) = (r, p) \<Longrightarrow>
    spsc_step mv dead s (cons_event (consumer s)) (s\<lparr>sring := r, consumer := p\<rparr>)"

definition spsc_start :: "'a list \<Rightarrow> 'a spsc_sys" where
  "spsc_start ds = \<lparr>sring = new_spscRingBuffer ds, producer = PIdle, consumer = CIdle\<rparr>"

text \<open>The values passed to \<open>enqueue\<close>, the number of calls of \<open>dequeue\<close>, the values it returned.\<close>

fun pval :: "'a spsc_ev \<Rightarrow> 'a list" where "pval (PCall d) = [d]" | "pval _ = []"
fun cval :: "'a spsc_ev \<Rightarrow> 'a list" where "cval (CRet d) = [d]" | "cval _ = []"
fun is_ccall :: "'a spsc_ev \<Rightarrow> bool" where "is_ccall CCall = True" | "is_ccall _ = False"

definition pvals :: "'a spsc_ev list \<Rightarrow> 'a list" where "pvals tr = concat (map pval tr)"
definition cvals :: "'a spsc_ev list \<Rightarrow> 'a list" where "cvals tr = concat (map cval tr)"
definition ccalls :: "'a spsc_ev list \<Rightarrow> nat" where "ccalls tr = length (filter is_ccall tr)"

lemma spsc_events_Nil [simp]: "pvals [] = []" "cvals [] = []" "ccalls [] = 0"
  by (simp_all add: pvals_def cvals_def ccalls_def)

lemma spsc_events_snoc [simp]:
  "pvals (tr @ [e]) = pvals tr @ pval e" "cvals (tr @ [e]) = cvals tr @ cval e"
  "ccalls (tr @ [e]) = ccalls tr + (if is_ccall e then 1 else 0)"
  by (simp_all add: pvals_def cvals_def ccalls_def)

section \<open>The slots\<close>

text \<open>
  After \<open>P\<close> published and \<open>D\<close> released elements, element \<open>t\<close> of the stream uses slot \<open>t + 1\<close> modulo the
  size; the elements from \<open>D\<close> to \<open>P\<close> sit in filled slots, the first of them possibly moved out
  already, and every other slot is free.
\<close>

definition spsc_mem :: "'a spscSlot list \<Rightarrow> 'a list \<Rightarrow> nat \<Rightarrow> nat \<Rightarrow> bool \<Rightarrow> bool" where
  "spsc_mem b vals P D taken \<longleftrightarrow> D \<le> P \<and> P \<le> D + length b \<and>
     (\<forall>t. D \<le> t \<and> t < D + length b \<longrightarrow> ticket (b ! (Suc t mod length b)) = (if t < P then 1 else 0)) \<and>
     (\<forall>t. D \<le> t \<and> t < P \<and> (t = D \<longrightarrow> \<not> taken) \<longrightarrow> sdata (b ! (Suc t mod length b)) = vals ! t)"

lemma slot_neq:
  assumes "D \<le> t" "t < D + n" "D \<le> u" "u < D + n"
  shows "Suc t mod n = Suc u mod n \<longleftrightarrow> t = u"
  using add_mod_eq_iff [of "t - D" n "u - D" "Suc D"] assms by auto

lemma spsc_mem_bounds: "spsc_mem b vals P D taken \<Longrightarrow> D \<le> P \<and> P \<le> D + length b"
  by (simp add: spsc_mem_def)

lemma spsc_mem_append: "spsc_mem b vals P D taken \<Longrightarrow> P \<le> length vals \<Longrightarrow> spsc_mem b (vals @ [d]) P D taken"
  by (auto simp: spsc_mem_def nth_append)

lemma nth_slot_upd:
  assumes "D \<le> t" "t < D + length b" "D \<le> u" "u < D + length b"
  shows "b[Suc u mod length b := v] ! (Suc t mod length b) = (if t = u then v else b ! (Suc t mod length b))"
proof -
  have "Suc u mod length b < length b" using assms by (intro mod_less_divisor) linarith
  then show ?thesis using slot_neq [OF assms] by (auto simp: nth_list_update)
qed

lemma spsc_mem_store:
  assumes "spsc_mem b vals P D taken" "P < D + length b"
  shows "spsc_mem (b[Suc P mod length b := (b ! (Suc P mod length b))\<lparr>sdata := d\<rparr>]) vals P D taken"
  using assms by (auto simp: spsc_mem_def nth_slot_upd [of D])

lemma spsc_mem_publish:
  assumes "spsc_mem b vals P D taken" "P < D + length b" "sdata (b ! (Suc P mod length b)) = vals ! P" "taken \<longrightarrow> D < P"
  shows "spsc_mem (b[Suc P mod length b := (b ! (Suc P mod length b))\<lparr>ticket := 1\<rparr>]) vals (Suc P) D taken"
  using assms by (auto simp: spsc_mem_def nth_slot_upd [of D] less_Suc_eq)

lemma spsc_mem_take:
  assumes "spsc_mem b vals P D False" "D < P"
  shows "spsc_mem (b[Suc D mod length b := (b ! (Suc D mod length b))\<lparr>sdata := x\<rparr>]) vals P D True"
proof -
  have "b \<noteq> []" using assms spsc_mem_bounds [OF assms(1)] by auto
  then show ?thesis using assms by (auto simp: spsc_mem_def nth_slot_upd [of D])
qed

lemma spsc_mem_release:
  assumes "spsc_mem b vals P D taken" "D < P"
  shows "spsc_mem (b[Suc D mod length b := (b ! (Suc D mod length b))\<lparr>ticket := 0\<rparr>]) vals P (Suc D) False"
proof -
  let ?n = "length b" and ?b = "b[Suc D mod length b := (b ! (Suc D mod length b))\<lparr>ticket := 0\<rparr>]"
  have n: "D < D + ?n" "P \<le> D + ?n" using assms spsc_mem_bounds [OF assms(1)] by auto
  have last: "?b ! (Suc (D + ?n) mod ?n) = (b ! (Suc D mod ?n))\<lparr>ticket := 0\<rparr>"
    using nth_slot_upd [of D D b D] n(1) mod_add_self2 [of "Suc D" ?n] by (simp del: mod_add_self2)
  have other: "?b ! (Suc t mod ?n) = b ! (Suc t mod ?n)" if "D < t" "t < D + ?n" for t
    using nth_slot_upd [of D t b D] that n(1) by simp
  show ?thesis
    unfolding spsc_mem_def length_list_update
  proof (intro conjI allI impI)
    show "Suc D \<le> P" "P \<le> Suc D + ?n" using assms(2) n(2) by auto
  next
    fix t assume t: "Suc D \<le> t \<and> t < Suc D + ?n"
    then consider "t = D + ?n" | "D < t" "t < D + ?n" by linarith
    then show "ticket (?b ! (Suc t mod ?n)) = (if t < P then 1 else 0)"
      by cases (use last other assms(1) n(2) in \<open>auto simp: spsc_mem_def\<close>)
  next
    fix t assume t: "Suc D \<le> t \<and> t < P \<and> (t = Suc D \<longrightarrow> \<not> False)"
    then show "sdata (?b ! (Suc t mod ?n)) = vals ! t"
      using other [of t] assms(1) n(2) by (auto simp: spsc_mem_def)
  qed
qed

section \<open>The invariant\<close>

definition published :: "'a spsc_ev list \<Rightarrow> 'a spsc_sys \<Rightarrow> nat" where
  "published tr s = length (pvals tr) - (if producer s = PIdle then 0 else 1)"

definition released :: "'a spsc_ev list \<Rightarrow> 'a spsc_sys \<Rightarrow> nat" where
  "released tr s = ccalls tr - (if consumer s = CIdle then 0 else 1)"

fun is_release :: "'a cons_pc \<Rightarrow> bool" where
  "is_release (CRelease d) = True"
| "is_release _ = False"

text \<open>The producer past its busy-wait loop has a free slot, and carries or has stored the value of its call.\<close>

fun prod_ok :: "'a prod_pc \<Rightarrow> 'a spscSlot list \<Rightarrow> 'a list \<Rightarrow> nat \<Rightarrow> nat \<Rightarrow> bool" where
  "prod_ok PIdle b vals P D = True"
| "prod_ok (PWait d) b vals P D = (d = vals ! P)"
| "prod_ok (PEWait d) b vals P D = (d = vals ! P)"
| "prod_ok (PDestroy d) b vals P D = (d = vals ! P \<and> P < D + length b)"
| "prod_ok (PStore d) b vals P D = (d = vals ! P \<and> P < D + length b)"
| "prod_ok PPublish b vals P D = (P < D + length b \<and> sdata (b ! (Suc P mod length b)) = vals ! P)"

fun cons_ok :: "'a cons_pc \<Rightarrow> 'a list \<Rightarrow> nat \<Rightarrow> nat \<Rightarrow> bool" where
  "cons_ok CIdle vals P D = True"
| "cons_ok CWait vals P D = True"
| "cons_ok CTake vals P D = (D < P)"
| "cons_ok (CRelease d) vals P D = (D < P \<and> d = vals ! D)"

definition spsc_conc_inv :: "'a spsc_ev list \<Rightarrow> 'a spsc_sys \<Rightarrow> bool" where
  "spsc_conc_inv tr s \<longleftrightarrow>
     (let b = sbuffer (sring s); P = published tr s; D = released tr s in
      spsc_size_ok (length b) \<and>
      lastWritten (sring s) = of_nat (length (pvals tr) mod length b) \<and>
      lastRead (sring s) = of_nat (ccalls tr mod length b) \<and>
      (producer s \<noteq> PIdle \<longrightarrow> pvals tr \<noteq> []) \<and> (consumer s \<noteq> CIdle \<longrightarrow> 0 < ccalls tr) \<and>
      spsc_mem b (pvals tr) P D (is_release (consumer s)) \<and>
      prod_ok (producer s) b (pvals tr) P D \<and> cons_ok (consumer s) (pvals tr) P D \<and>
      cvals tr = take D (pvals tr))"

lemma published_le: "published tr s \<le> length (pvals tr)"
  by (simp add: published_def)

lemma spsc_conc_inv_idx:
  assumes "spsc_conc_inv tr s"
  shows "producer s \<noteq> PIdle \<Longrightarrow> spsc_index (lastWritten (sring s)) = Suc (published tr s) mod BUFFER_SIZE (sring s)"
    "consumer s \<noteq> CIdle \<Longrightarrow> spsc_index (lastRead (sring s)) = Suc (released tr s) mod BUFFER_SIZE (sring s)"
proof -
  have n: "spsc_size_ok (BUFFER_SIZE (sring s))" using assms by (simp add: spsc_conc_inv_def Let_def)
  have idx: "spsc_index (of_nat (k mod BUFFER_SIZE (sring s))) = k mod BUFFER_SIZE (sring s)" for k
    using n by (intro spsc_index_of_nat) (meson mod_less_divisor order_less_trans spsc_size_okD)
  show "spsc_index (lastWritten (sring s)) = Suc (published tr s) mod BUFFER_SIZE (sring s)" if "producer s \<noteq> PIdle"
    using assms that idx by (auto simp: spsc_conc_inv_def Let_def published_def)
  show "spsc_index (lastRead (sring s)) = Suc (released tr s) mod BUFFER_SIZE (sring s)" if "consumer s \<noteq> CIdle"
    using assms that idx by (auto simp: spsc_conc_inv_def Let_def released_def)
qed

lemma slot_free_iff:
  assumes "spsc_conc_inv tr s" "producer s \<noteq> PIdle"
  shows "slot_free (sring s) \<longleftrightarrow> published tr s < released tr s + BUFFER_SIZE (sring s)"
proof -
  let ?P = "published tr s" and ?D = "released tr s" and ?b = "sbuffer (sring s)"
  have m: "spsc_mem ?b (pvals tr) ?P ?D (is_release (consumer s))" and n: "0 < length ?b"
    using assms(1) by (auto simp: spsc_conc_inv_def Let_def)
  have sl: "slot_free (sring s) \<longleftrightarrow> ticket (?b ! (Suc ?P mod length ?b)) = 0"
    using spsc_conc_inv_idx(1) [OF assms] by (simp add: slot_free_def spsc_slot_def)
  show ?thesis
  proof (cases "?P < ?D + length ?b")
    case True
    then show ?thesis using m sl by (simp add: spsc_mem_def)
  next
    case False
    then have P: "?P = ?D + length ?b" using spsc_mem_bounds [OF m] by simp
    have "Suc ?P mod length ?b = Suc ?D mod length ?b"
      using mod_add_self2 [of "Suc ?D" "length ?b"] P by (simp del: mod_add_self2)
    moreover have "ticket (?b ! (Suc ?D mod length ?b)) = 1" using m P n by (auto simp: spsc_mem_def)
    ultimately show ?thesis using sl False by simp
  qed
qed

lemma slot_filled_iff:
  assumes "spsc_conc_inv tr s" "consumer s \<noteq> CIdle"
  shows "slot_filled (sring s) \<longleftrightarrow> released tr s < published tr s"
proof -
  let ?P = "published tr s" and ?D = "released tr s" and ?b = "sbuffer (sring s)"
  have m: "spsc_mem ?b (pvals tr) ?P ?D (is_release (consumer s))" and n: "0 < length ?b"
    using assms(1) by (auto simp: spsc_conc_inv_def Let_def)
  have "slot_filled (sring s) \<longleftrightarrow> ticket (?b ! (Suc ?D mod length ?b)) \<noteq> 0"
    using spsc_conc_inv_idx(2) [OF assms] by (simp add: slot_filled_def spsc_slot_def)
  moreover have "ticket (?b ! (Suc ?D mod length ?b)) = (if ?D < ?P then 1 else 0)"
    using m n by (auto simp: spsc_mem_def)
  ultimately show ?thesis by simp
qed

lemma advance_counter:
  assumes "spsc_size_ok n"
  shows "spsc_advance n (of_nat (k mod n)) = of_nat (Suc k mod n)"
  using spsc_advance_of_nat [OF assms, of "k mod n"] assms by (auto simp: mod_Suc_eq)

lemma cons_ok_append: "cons_ok c vals P D \<Longrightarrow> P \<le> length vals \<Longrightarrow> cons_ok c (vals @ [d]) P D"
  by (cases c) (auto simp: nth_append)

lemma advance_simps [simp]:
  "sbuffer (advance_write r) = sbuffer r" "sbuffer (advance_read r) = sbuffer r"
  "lastRead (advance_write r) = lastRead r" "lastWritten (advance_read r) = lastWritten r"
  "lastWritten (advance_write r) = spsc_advance (BUFFER_SIZE r) (lastWritten r)"
  "lastRead (advance_read r) = spsc_advance (BUFFER_SIZE r) (lastRead r)"
  by (simp_all add: advance_write_def advance_read_def)

lemma inv_p_call:
  assumes inv: "spsc_conc_inv tr s" and idle: "producer s = PIdle" and p: "p = PWait d \<or> p = PEWait d"
  shows "spsc_conc_inv (tr @ [PCall d]) (s\<lparr>sring := advance_write (sring s), producer := p\<rparr>)"
proof -
  let ?s = "s\<lparr>sring := advance_write (sring s), producer := p\<rparr>"
  have P: "published (tr @ [PCall d]) ?s = published tr s" "published tr s = length (pvals tr)"
    using idle p by (auto simp: published_def)
  have D: "released (tr @ [PCall d]) ?s = released tr s" by (simp add: released_def)
  have m: "spsc_mem (sbuffer (sring s)) (pvals tr) (published tr s) (released tr s) (is_release (consumer s))"
    and c: "cons_ok (consumer s) (pvals tr) (published tr s) (released tr s)"
    using inv by (auto simp: spsc_conc_inv_def Let_def)
  have le: "released tr s \<le> length (pvals tr)" using spsc_mem_bounds [OF m] P(2) by simp
  have "prod_ok p (sbuffer (sring s)) (pvals tr @ [d]) (published tr s) (released tr s)"
    using p P(2) by auto
  then show ?thesis
    using inv p le advance_counter [of "BUFFER_SIZE (sring s)" "length (pvals tr)"]
      spsc_mem_append [OF m published_le, of d] cons_ok_append [OF c published_le, of d]
    by (simp add: spsc_conc_inv_def Let_def P(1) D)
qed

lemma inv_c_call:
  assumes inv: "spsc_conc_inv tr s" and idle: "consumer s = CIdle"
  shows "spsc_conc_inv (tr @ [CCall]) (s\<lparr>sring := advance_read (sring s), consumer := CWait\<rparr>)"
proof -
  let ?s = "s\<lparr>sring := advance_read (sring s), consumer := CWait\<rparr>"
  have "published (tr @ [CCall]) ?s = published tr s" "released (tr @ [CCall]) ?s = released tr s"
    using idle by (auto simp: published_def released_def)
  then show ?thesis
    using inv idle advance_counter [of "BUFFER_SIZE (sring s)" "ccalls tr"]
    by (simp add: spsc_conc_inv_def Let_def)
qed

text \<open>A step of the producer that neither starts nor ends a call.\<close>

lemma inv_prod_move:
  assumes inv: "spsc_conc_inv tr s" and busy: "producer s \<noteq> PIdle" "p \<noteq> PIdle"
    and r: "lastWritten r = lastWritten (sring s)" "lastRead r = lastRead (sring s)" "BUFFER_SIZE r = BUFFER_SIZE (sring s)"
    and m: "spsc_mem (sbuffer r) (pvals tr) (published tr s) (released tr s) (is_release (consumer s))"
    and p: "prod_ok p (sbuffer r) (pvals tr) (published tr s) (released tr s)"
  shows "spsc_conc_inv (tr @ [STau]) (s\<lparr>sring := r, producer := p\<rparr>)"
proof -
  have "published (tr @ [STau]) (s\<lparr>sring := r, producer := p\<rparr>) = published tr s"
    "released (tr @ [STau]) (s\<lparr>sring := r, producer := p\<rparr>) = released tr s"
    using busy by (auto simp: published_def released_def)
  then show ?thesis using inv r m p busy by (auto simp: spsc_conc_inv_def Let_def)
qed

lemma spsc_upd_simps [simp]:
  "lastWritten (spsc_upd i f r) = lastWritten r" "lastRead (spsc_upd i f r) = lastRead r"
  "BUFFER_SIZE (spsc_upd i f r) = BUFFER_SIZE r"
  by (simp_all add: spsc_upd_def)

lemma sbuffer_spsc_upd:
  "spsc_index i = k \<Longrightarrow> sbuffer (spsc_upd i f r) = (sbuffer r)[k := f (sbuffer r ! k)]"
  by (simp add: spsc_upd_def spsc_slot_def)

lemma inv_store_step:
  assumes inv: "spsc_conc_inv tr s" and busy: "producer s \<noteq> PIdle"
    and room: "published tr s < released tr s + BUFFER_SIZE (sring s)"
    and p: "p = PStore d' \<and> d' = pvals tr ! published tr s \<or> p = PPublish \<and> x = pvals tr ! published tr s"
  shows "spsc_conc_inv (tr @ [STau]) (s\<lparr>sring := spsc_upd (lastWritten (sring s)) (\<lambda>sl. sl\<lparr>sdata := x\<rparr>) (sring s), producer := p\<rparr>)"
proof -
  let ?b = "sbuffer (sring s)" and ?P = "published tr s"
  note b = sbuffer_spsc_upd [OF spsc_conc_inv_idx(1) [OF inv busy]]
  have m: "spsc_mem ?b (pvals tr) ?P (released tr s) (is_release (consumer s))" and n: "0 < length ?b"
    using inv by (auto simp: spsc_conc_inv_def Let_def)
  have i: "Suc ?P mod length ?b < length ?b" using n by simp
  show ?thesis
  proof (rule inv_prod_move [OF inv busy])
    show "p \<noteq> PIdle" using p by auto
    show "spsc_mem (sbuffer (spsc_upd (lastWritten (sring s)) (\<lambda>sl. sl\<lparr>sdata := x\<rparr>) (sring s))) (pvals tr) ?P
        (released tr s) (is_release (consumer s))"
      unfolding b by (rule spsc_mem_store [OF m room])
    show "prod_ok p (sbuffer (spsc_upd (lastWritten (sring s)) (\<lambda>sl. sl\<lparr>sdata := x\<rparr>) (sring s))) (pvals tr) ?P (released tr s)"
      using p room i by (auto simp: b)
  qed simp_all
qed

lemma inv_publish_step:
  assumes inv: "spsc_conc_inv tr s" and pc: "producer s = PPublish"
  shows "spsc_conc_inv (tr @ [PRet]) (s\<lparr>sring := spsc_publish (sring s), producer := PIdle\<rparr>)"
proof -
  let ?b = "sbuffer (sring s)" and ?P = "published tr s" and ?s = "s\<lparr>sring := spsc_publish (sring s), producer := PIdle\<rparr>"
  have ne: "pvals tr \<noteq> []" using inv pc by (auto simp: spsc_conc_inv_def Let_def)
  have gh: "published (tr @ [PRet]) ?s = Suc ?P" "released (tr @ [PRet]) ?s = released tr s"
    using pc ne by (auto simp: published_def released_def Suc_pred' [symmetric])
  have b: "sbuffer (spsc_publish (sring s)) = ?b[Suc ?P mod length ?b := (?b ! (Suc ?P mod length ?b))\<lparr>ticket := 1\<rparr>]"
    unfolding spsc_publish_def by (rule sbuffer_spsc_upd) (use spsc_conc_inv_idx(1) [OF inv] pc in simp)
  have m: "spsc_mem (sbuffer (spsc_publish (sring s))) (pvals tr) (Suc ?P) (released tr s) (is_release (consumer s))"
    unfolding b by (rule spsc_mem_publish) (use inv pc in \<open>auto simp: spsc_conc_inv_def Let_def elim: is_release.elims\<close>)
  have "cons_ok (consumer s) (pvals tr) (Suc ?P) (released tr s)"
    using inv by (cases "consumer s") (auto simp: spsc_conc_inv_def Let_def)
  moreover have "lastWritten (spsc_publish (sring s)) = lastWritten (sring s)"
    "lastRead (spsc_publish (sring s)) = lastRead (sring s)" "BUFFER_SIZE (spsc_publish (sring s)) = length ?b"
    by (simp_all add: spsc_publish_def)
  ultimately show ?thesis using inv m by (simp add: spsc_conc_inv_def Let_def gh)
qed

lemma spsc_upd_const:
  "spsc_upd i (\<lambda>sl. sl\<lparr>sdata := g (sdata sl)\<rparr>) r = spsc_upd i (\<lambda>sl. sl\<lparr>sdata := g (sdata (spsc_slot r i))\<rparr>) r"
  by (simp add: spsc_upd_def)

lemma inv_p_run:
  assumes inv: "spsc_conc_inv tr s" and busy: "producer s \<noteq> PIdle" and ex: "exec_prod dead (sring s) (producer s) = (r, p)"
  shows "spsc_conc_inv (tr @ [prod_event (producer s)]) (s\<lparr>sring := r, producer := p\<rparr>)"
proof -
  have m: "spsc_mem (sbuffer (sring s)) (pvals tr) (published tr s) (released tr s) (is_release (consumer s))"
    and pk: "prod_ok (producer s) (sbuffer (sring s)) (pvals tr) (published tr s) (released tr s)"
    using inv by (auto simp: spsc_conc_inv_def Let_def)
  note free = slot_free_iff [OF inv busy]
  show ?thesis
  proof (cases "producer s")
    case (PWait d)
    then show ?thesis using ex pk free by (auto intro!: inv_prod_move [OF inv busy _ _ _ _ m])
  next
    case (PEWait d)
    then show ?thesis using ex pk free by (auto intro!: inv_prod_move [OF inv busy _ _ _ _ m])
  next
    case (PDestroy d)
    then show ?thesis using ex pk
      by (auto simp: spsc_upd_const [of _ dead] intro!: inv_store_step [OF inv busy])
  next
    case (PStore d)
    then show ?thesis using ex pk by (auto simp: spsc_store_def intro!: inv_store_step [OF inv busy])
  next
    case PPublish
    then show ?thesis using ex inv_publish_step [OF inv PPublish] by auto
  qed (use busy in simp)
qed

text \<open>The producer's stored value survives what the consumer does to its own slot.\<close>

lemma prod_ok_other_slot:
  assumes "prod_ok p b vals P D" "D < P" "D' = D \<or> D' = Suc D" "0 < length b"
  shows "prod_ok p (b[Suc D mod length b := v]) vals P D'"
proof -
  have "Suc D mod length b \<noteq> Suc P mod length b" if "P < D + length b"
    using slot_neq [of D D "length b" P] that assms(2,4) by simp
  then show ?thesis using assms by (cases p) auto
qed

lemma inv_c_run:
  assumes inv: "spsc_conc_inv tr s" and busy: "consumer s \<noteq> CIdle" and ex: "exec_cons mv (sring s) (consumer s) = (r, p)"
  shows "spsc_conc_inv (tr @ [cons_event (consumer s)]) (s\<lparr>sring := r, consumer := p\<rparr>)"
proof -
  let ?b = "sbuffer (sring s)" and ?P = "published tr s" and ?D = "released tr s"
  let ?s = "s\<lparr>sring := r, consumer := p\<rparr>" and ?tr = "tr @ [cons_event (consumer s)]"
  have m: "spsc_mem ?b (pvals tr) ?P ?D (is_release (consumer s))"
    and ck: "cons_ok (consumer s) (pvals tr) ?P ?D" and pk: "prod_ok (producer s) ?b (pvals tr) ?P ?D"
    and n: "0 < length ?b" and c0: "0 < ccalls tr"
    using inv busy by (auto simp: spsc_conc_inv_def Let_def)
  note idx = spsc_conc_inv_idx(2) [OF inv busy]
  have ev: "pval (cons_event c) = []" "\<not> is_ccall (cons_event c)" for c :: "'a cons_pc" by (cases c; simp)+
  have P: "published ?tr ?s = ?P" by (simp add: published_def ev)
  show ?thesis
  proof (cases "consumer s")
    case CWait
    then have "r = sring s" "p = (if ?D < ?P then CTake else CWait)" using ex slot_filled_iff [OF inv busy] by auto
    moreover from this have "released ?tr ?s = ?D" using CWait by (auto simp: released_def)
    ultimately show ?thesis using inv CWait P by (auto simp: spsc_conc_inv_def Let_def)
  next
    case CTake
    let ?v = "(?b ! (Suc ?D mod length ?b))\<lparr>sdata := mv (sdata (?b ! (Suc ?D mod length ?b)))\<rparr>"
    have D: "?D < ?P" using ck CTake by simp
    have r: "sbuffer r = ?b[Suc ?D mod length ?b := ?v]" "lastWritten r = lastWritten (sring s)" "lastRead r = lastRead (sring s)"
      and p: "p = CRelease (sdata (?b ! (Suc ?D mod length ?b)))"
      using ex CTake idx by (auto simp: spsc_take_def spsc_upd_def spsc_slot_def)
    have "sdata (?b ! (Suc ?D mod length ?b)) = pvals tr ! ?D"
      using m CTake D by (auto simp: spsc_mem_def)
    moreover have "spsc_mem (sbuffer r) (pvals tr) ?P ?D True"
      using spsc_mem_take [OF _ D] m CTake r by simp
    moreover have "prod_ok (producer s) (sbuffer r) (pvals tr) ?P ?D"
      unfolding r by (rule prod_ok_other_slot [OF pk D _ n]) simp
    moreover have "released ?tr ?s = ?D" using CTake p by (simp add: released_def)
    ultimately show ?thesis using inv CTake P p D r by (simp add: spsc_conc_inv_def Let_def)
  next
    case (CRelease d)
    let ?v = "(?b ! (Suc ?D mod length ?b))\<lparr>ticket := 0\<rparr>"
    have D: "?D < ?P" and d: "d = pvals tr ! ?D" using ck CRelease by auto
    have r: "sbuffer r = ?b[Suc ?D mod length ?b := ?v]" "lastWritten r = lastWritten (sring s)" "lastRead r = lastRead (sring s)"
      and p: "p = CIdle"
      using ex CRelease idx by (auto simp: spsc_release_def spsc_upd_def spsc_slot_def)
    have "spsc_mem (sbuffer r) (pvals tr) ?P (Suc ?D) False"
      using spsc_mem_release [OF m D] r by simp
    moreover have "prod_ok (producer s) (sbuffer r) (pvals tr) ?P (Suc ?D)"
      unfolding r by (rule prod_ok_other_slot [OF pk D _ n]) simp
    moreover have "released ?tr ?s = Suc ?D" using CRelease p c0 by (simp add: released_def)
    moreover have "take (Suc ?D) (pvals tr) = take ?D (pvals tr) @ [d]"
      using D published_le [of tr s] d by (simp add: take_Suc_conv_app_nth)
    ultimately show ?thesis using inv CRelease P p r by (simp add: spsc_conc_inv_def Let_def)
  qed (use busy in simp)
qed

lemma spsc_conc_inv_step:
  assumes "spsc_conc_inv tr s" "spsc_step mv dead s e s'"
  shows "spsc_conc_inv (tr @ [e]) s'"
  using assms(2)
proof cases
  case (p_enqueue d)
  then show ?thesis using inv_p_call [OF assms(1)] by simp
next
  case (p_emplace d)
  then show ?thesis using inv_p_call [OF assms(1)] by simp
next
  case (p_run r p)
  then show ?thesis using inv_p_run [OF assms(1)] by simp
next
  case c_dequeue
  then show ?thesis using inv_c_call [OF assms(1)] by simp
next
  case (c_run r p)
  then show ?thesis using inv_c_run [OF assms(1)] by simp
qed

definition spsc_initial :: "'a spsc_sys \<Rightarrow> bool" where
  "spsc_initial s \<longleftrightarrow> (\<exists>ds. spsc_size_ok (length ds) \<and> s = spsc_start ds)"

lemma spsc_conc_inv_start:
  assumes "spsc_size_ok (length ds)"
  shows "spsc_conc_inv [] (spsc_start ds)"
proof -
  have "Suc t mod length ds < length ds" for t using assms by (auto intro: mod_less_divisor)
  then have "spsc_mem (sbuffer (new_spscRingBuffer ds)) [] 0 0 False"
    by (simp add: spsc_mem_def new_spscRingBuffer_def)
  moreover have "lastWritten (new_spscRingBuffer ds) = 0" "lastRead (new_spscRingBuffer ds) = 0"
    by (simp_all add: new_spscRingBuffer_def)
  ultimately show ?thesis
    using assms new_spscRingBuffer_inv(3) [OF assms]
    by (simp add: spsc_conc_inv_def Let_def spsc_start_def published_def released_def)
qed

interpretation spscm: lts_invariant "spsc_step mv dead" spsc_initial spsc_conc_inv
  for mv dead :: "'a \<Rightarrow> 'a"
  by unfold_locales (auto simp: spsc_initial_def intro: spsc_conc_inv_start spsc_conc_inv_step)

lemma spsc_reachable:
  assumes "spsc_size_ok (length ds)" "lts_run (spsc_step mv dead) (spsc_start ds) tr s"
  shows "spsc_conc_inv tr s"
  using spscm.inv_run [OF assms(2)] assms(1) by (auto simp: spsc_initial_def)

lemma spsc_cvals_take:
  assumes "spsc_size_ok (length ds)" "lts_run (spsc_step mv dead) (spsc_start ds) tr s"
  shows "cvals tr = take (released tr s) (pvals tr)" "released tr s \<le> length (pvals tr)"
  using spsc_reachable [OF assms] spsc_mem_bounds published_le [of tr s] by (fastforce simp: spsc_conc_inv_def Let_def)+




section \<open>Executable schedules\<close>

datatype 'a spsc_act = DoEnq 'a | DoDeq | DoProd | DoCons

fun spsc_do :: "('a \<Rightarrow> 'a) \<Rightarrow> ('a \<Rightarrow> 'a) \<Rightarrow> 'a spsc_act \<Rightarrow> 'a spsc_sys \<Rightarrow> 'a spsc_ev \<times> 'a spsc_sys" where
  "spsc_do mv dead (DoEnq d) s = (PCall d, s\<lparr>sring := advance_write (sring s), producer := PWait d\<rparr>)"
| "spsc_do mv dead DoDeq s = (CCall, s\<lparr>sring := advance_read (sring s), consumer := CWait\<rparr>)"
| "spsc_do mv dead DoProd s = (prod_event (producer s),
     let (r, p) = exec_prod dead (sring s) (producer s) in s\<lparr>sring := r, producer := p\<rparr>)"
| "spsc_do mv dead DoCons s = (cons_event (consumer s),
     let (r, p) = exec_cons mv (sring s) (consumer s) in s\<lparr>sring := r, consumer := p\<rparr>)"

fun p_idle :: "'a prod_pc \<Rightarrow> bool" where "p_idle PIdle = True" | "p_idle _ = False"
fun c_idle :: "'a cons_pc \<Rightarrow> bool" where "c_idle CIdle = True" | "c_idle _ = False"

fun spsc_can :: "'a spsc_act \<Rightarrow> 'a spsc_sys \<Rightarrow> bool" where
  "spsc_can (DoEnq d) s = p_idle (producer s)"
| "spsc_can DoDeq s = c_idle (consumer s)"
| "spsc_can DoProd s = (\<not> p_idle (producer s))"
| "spsc_can DoCons s = (\<not> c_idle (consumer s))"

fun spsc_script :: "('a \<Rightarrow> 'a) \<Rightarrow> ('a \<Rightarrow> 'a) \<Rightarrow> 'a spsc_act list \<Rightarrow> 'a spsc_sys \<Rightarrow> ('a spsc_ev list \<times> 'a spsc_sys) option" where
  "spsc_script mv dead [] s = Some ([], s)"
| "spsc_script mv dead (a # as) s =
     (if spsc_can a s then
        (let (e, s1) = spsc_do mv dead a s in
         map_option (\<lambda>(tr, s2). (e # tr, s2)) (spsc_script mv dead as s1))
      else None)"

lemma idle_iffs: "p_idle p \<longleftrightarrow> p = PIdle" "c_idle c \<longleftrightarrow> c = CIdle"
  by (cases p; simp) (cases c; simp)

lemma spsc_do_step: "spsc_can a s \<Longrightarrow> spsc_do mv dead a s = (e, s') \<Longrightarrow> spsc_step mv dead s e s'"
  by (cases a) (auto simp: idle_iffs split: prod.splits intro: spsc_step.intros)

lemma spsc_script_run: "spsc_script mv dead as s = Some (tr, s') \<Longrightarrow> lts_run (spsc_step mv dead) s tr s'"
proof (induction "as" arbitrary: s tr)
  case Nil
  then show ?case by (auto intro: lts_run.run_nil)
next
  case (Cons a "as")
  then show ?case by (auto split: if_splits prod.splits intro: lts_run_cons spsc_do_step)
qed

section \<open>Properties\<close>

text \<open>C13: Order. With one producer and one consumer running concurrently, the values returned by \<open>dequeue\<close> are at every
  moment a prefix of the values passed to \<open>enqueue\<close>: nothing is lost, duplicated, reordered or invented;
  and whenever the consumer is idle, each of its calls has returned a value.\<close>

theorem spsc_concurrent_prefix:
  assumes "spsc_size_ok (length ds)" "lts_run (spsc_step mv dead) (spsc_start ds) tr s"
  shows "prefix (cvals tr) (pvals tr) \<and> (consumer s = CIdle \<longrightarrow> length (cvals tr) = ccalls tr)"
  using spsc_cvals_take [OF assms] by (auto simp: take_is_prefix released_def)

text \<open>The producer is one element ahead while the consumer takes the first one out.\<close>

definition overlap :: "int spsc_act list" where
  "overlap = [DoEnq 5, DoProd, DoProd, DoProd, DoEnq 6, DoDeq, DoCons, DoProd]"

lemma overlap_run:
  obtains tr s where "lts_run (spsc_step id id) (spsc_start [0, 0]) tr s"
    "pvals tr = [5, 6 :: int]" "consumer s = CTake" "producer s = PStore 6"
proof -
  have "map_option (\<lambda>(tr, s). (pvals tr, consumer s, producer s)) (spsc_script id id overlap (spsc_start [0, 0])) =
    Some ([5, 6], CTake, PStore 6)"
    by code_simp
  then obtain tr s where "spsc_script id id overlap (spsc_start [0, 0]) = Some (tr, s)"
    "pvals tr = [5, 6]" "consumer s = CTake" "producer s = PStore 6"
    by (auto simp del: spsc_script.simps)
  from that [OF spsc_script_run [OF this(1)] this(2-4)] show ?thesis .
qed

theorem spsc_concurrent_prefix_witness: "\<exists>tr. pvals tr = [5, 6 :: int] \<and> prefix (cvals tr) (pvals tr)"
proof -
  obtain tr s where "lts_run (spsc_step id id) (spsc_start [0, 0]) tr s" "pvals tr = [5, 6 :: int]"
    by (rule overlap_run)
  with spsc_concurrent_prefix [of "[0, 0]" id id tr s] show ?thesis by auto
qed

fun writes_slot :: "'a prod_pc \<Rightarrow> bool" where
  "writes_slot (PDestroy d) = True"
| "writes_slot (PStore d) = True"
| "writes_slot PPublish = True"
| "writes_slot _ = False"

fun reads_slot :: "'a cons_pc \<Rightarrow> bool" where
  "reads_slot CTake = True"
| "reads_slot (CRelease d) = True"
| "reads_slot _ = False"

text \<open>C14: Exclusive slots. While the producer writes the payload of a slot (after its busy-wait loop, up to its final
  store) and the consumer moves out the payload of one, the two slots are different, so the plain
  accesses never race.\<close>

theorem spsc_slot_exclusive:
  assumes "spsc_size_ok (length ds)" "lts_run (spsc_step mv dead) (spsc_start ds) tr s"
    and "writes_slot (producer s)" "reads_slot (consumer s)"
  shows "spsc_index (lastWritten (sring s)) \<noteq> spsc_index (lastRead (sring s))"
proof -
  have inv: "spsc_conc_inv tr s" using assms(1,2) by (rule spsc_reachable)
  have busy: "producer s \<noteq> PIdle" "consumer s \<noteq> CIdle" using assms(3,4) by auto
  have "published tr s < released tr s + BUFFER_SIZE (sring s)"
    using inv assms(3) by (cases "producer s") (auto simp: spsc_conc_inv_def Let_def)
  moreover have "released tr s < published tr s"
    using inv assms(4) by (cases "consumer s") (auto simp: spsc_conc_inv_def Let_def)
  moreover have "sbuffer (sring s) \<noteq> []" using inv by (auto simp: spsc_conc_inv_def Let_def)
  ultimately show ?thesis
    using spsc_conc_inv_idx [OF inv] busy slot_neq [of "released tr s" "published tr s" "BUFFER_SIZE (sring s)" "released tr s"]
    by simp
qed

theorem spsc_slot_exclusive_witness:
  "\<exists>s :: int spsc_sys. producer s = PStore 6 \<and> consumer s = CTake \<and>
    spsc_index (lastWritten (sring s)) \<noteq> spsc_index (lastRead (sring s))"
proof -
  obtain tr s where "lts_run (spsc_step id id) (spsc_start [0, 0]) tr s" "consumer s = CTake" "producer s = PStore (6 :: int)"
    by (rule overlap_run)
  with spsc_slot_exclusive [of "[0, 0]" id id tr s] show ?thesis by auto
qed



section \<open>Uninterrupted calls\<close>

text \<open>A call that the other thread does not interrupt is the sequential function.\<close>

lemma solo_spsc_enqueue:
  assumes e: "spsc_enqueue d r = Returned r' ()"
  shows "lts_run (spsc_step mv dead) \<lparr>sring = r, producer = PIdle, consumer = c\<rparr> [PCall d, STau, STau, PRet] \<lparr>sring = r', producer = PIdle, consumer = c\<rparr>"
proof -
  let ?r = "advance_write r" and ?s = "\<lambda>r p. \<lparr>sring = r, producer = p, consumer = c\<rparr>"
  have w: "slot_free ?r" "r' = spsc_publish (spsc_store d ?r)" using e by (auto simp: spsc_enqueue_def Let_def split: if_splits)
  have "spsc_step mv dead (?s r PIdle) (PCall d) (?s ?r (PWait d))" using p_enqueue [of "?s r PIdle" mv dead d] by simp
  moreover have "spsc_step mv dead (?s ?r (PWait d)) STau (?s ?r (PStore d))" using p_run [of "?s ?r (PWait d)"] w(1) by simp
  moreover have "spsc_step mv dead (?s ?r (PStore d)) STau (?s (spsc_store d ?r) PPublish)" using p_run [of "?s ?r (PStore d)"] by simp
  moreover have "spsc_step mv dead (?s (spsc_store d ?r) PPublish) PRet (?s r' PIdle)" using p_run [of "?s (spsc_store d ?r) PPublish"] w(2) by simp
  ultimately show ?thesis by (blast intro: lts_run_cons lts_run.run_nil)
qed

lemma solo_spsc_dequeue:
  assumes e: "spsc_dequeue mv r = Returned r' d"
  shows "lts_run (spsc_step mv dead) \<lparr>sring = r, producer = p, consumer = CIdle\<rparr> [CCall, STau, STau, CRet d] \<lparr>sring = r', producer = p, consumer = CIdle\<rparr>"
proof -
  let ?r = "advance_read r" and ?s = "\<lambda>r c. \<lparr>sring = r, producer = p, consumer = c\<rparr>"
  obtain x r2 where k: "spsc_take mv ?r = (x, r2)" by (cases "spsc_take mv ?r")
  have w: "slot_filled ?r" "x = d" "r' = spsc_release r2" using e by (auto simp: spsc_dequeue_def Let_def k split: if_splits)
  have "spsc_step mv dead (?s r CIdle) CCall (?s ?r CWait)" using c_dequeue [of "?s r CIdle" mv dead] by simp
  moreover have "spsc_step mv dead (?s ?r CWait) STau (?s ?r CTake)" using c_run [of "?s ?r CWait"] w(1) by simp
  moreover have "spsc_step mv dead (?s ?r CTake) STau (?s r2 (CRelease d))" using c_run [of "?s ?r CTake" mv] k w(2) by simp
  moreover have "spsc_step mv dead (?s r2 (CRelease d)) (CRet d) (?s r' CIdle)" using c_run [of "?s r2 (CRelease d)"] w(3) by simp
  ultimately show ?thesis by (blast intro: lts_run_cons lts_run.run_nil)
qed

end
