(* ===== verification/Index_Pool.thy ===== *)
theory Index_Pool
  imports Ring_Concurrent
begin

text \<open>
  \<open>ThreadSafeIndexPool\<close> (include/AstraLib/Pools/threadSafeIndexPool.hpp): the free indices
  \<open>0, \<dots>, SIZE - 1\<close> circulate through an \<open>AtomicRingBuffer<int, SIZE>\<close>. The pool relies only on the
  contract of the bounded queue, so its bookkeeping is proved once for any such queue and then used
  for the ring; that no index is held twice under concurrency rests on the interleaved ring.
\<close>

section \<open>The pool\<close>

record ThreadSafeIndexPool =
  IndexPool :: "i32 AtomicRingBuffer"

abbreviation POOL_SIZE :: "ThreadSafeIndexPool \<Rightarrow> nat" where
  "POOL_SIZE p \<equiv> SIZE (IndexPool p)"

text \<open>\<open>for (int i = 0; i < SIZE; i++) IndexPool.enqueue(std::move(i))\<close>\<close>

definition index_list :: "nat \<Rightarrow> i32 list" where
  "index_list n = map of_nat [0..<n]"

definition initializeIndexes :: "ThreadSafeIndexPool \<Rightarrow> (ThreadSafeIndexPool, unit) run" where
  "initializeIndexes p =
     map_run (\<lambda>r. p\<lparr>IndexPool := r\<rparr>) id (enqueue_all enqueue (index_list (POOL_SIZE p)) (IndexPool p))"

definition getIndex :: "ThreadSafeIndexPool \<Rightarrow> (ThreadSafeIndexPool, i32) run" where
  "getIndex p = map_run (\<lambda>r. p\<lparr>IndexPool := r\<rparr>) id (dequeue id (IndexPool p))"

definition returnIndex :: "i32 \<Rightarrow> ThreadSafeIndexPool \<Rightarrow> (ThreadSafeIndexPool, unit) run" where
  "returnIndex i p = map_run (\<lambda>r. p\<lparr>IndexPool := r\<rparr>) id (enqueue i (IndexPool p))"

definition reInitializePool :: "ThreadSafeIndexPool \<Rightarrow> (ThreadSafeIndexPool, unit) run" where
  "reInitializePool p = initializeIndexes (p\<lparr>IndexPool := clearBuffer (IndexPool p)\<rparr>)"

text \<open>The constructor; the uninitialised payload of the ring is the argument \<open>ds\<close>.\<close>

definition new_ThreadSafeIndexPool :: "i32 list \<Rightarrow> i32 list \<Rightarrow> (ThreadSafeIndexPool, unit) run" where
  "new_ThreadSafeIndexPool batch ds = initializeIndexes \<lparr>IndexPool = new_AtomicRingBuffer batch ds\<rparr>"

section \<open>Index accounting over any bounded queue\<close>

text \<open>The free indices in the queue and the indices handed out together are \<open>0, \<dots>, cap - 1\<close>, once each.\<close>

locale index_queue = bounded_queue enq deq items cap invar
  for enq :: "i32 \<Rightarrow> 'q \<Rightarrow> ('q, unit) run" and deq :: "'q \<Rightarrow> ('q, i32) run"
    and items :: "'q \<Rightarrow> i32 list" and cap :: "'q \<Rightarrow> nat" and invar :: "'q \<Rightarrow> bool"
begin

definition accounted :: "'q \<Rightarrow> i32 list \<Rightarrow> bool" where
  "accounted q held \<longleftrightarrow> invar q \<and> mset (items q) + mset held = mset (index_list (cap q))"

lemma accounted_length:
  assumes "accounted q held"
  shows "length (items q) + length held = cap q"
proof -
  have "size (mset (items q) + mset held) = size (mset (index_list (cap q)))"
    using assms by (simp add: accounted_def)
  then show ?thesis by (simp add: index_list_def)
qed

lemma init_accounted:
  assumes "invar q" "items q = []"
  shows "\<exists>q'. enqueue_all enq (index_list (cap q)) q = Returned q' () \<and> accounted q' [] \<and> cap q' = cap q"
  using enqueue_all_room [OF assms(1), of "index_list (cap q)"] assms(2)
  by (auto simp: accounted_def index_list_def)

lemma get_accounted:
  assumes "accounted q held" "length held < cap q"
  shows "\<exists>q' i. deq q = Returned q' i \<and> accounted q' (i # held) \<and> cap q' = cap q"
proof -
  have "items q \<noteq> []" using accounted_length [OF assms(1)] assms(2) by auto
  then obtain x xs where "items q = x # xs" by (cases "items q") auto
  with assms(1) deq_item [of q x xs] show ?thesis by (auto simp: accounted_def)
qed

lemma get_exhausted:
  assumes "accounted q held" "cap q \<le> length held"
  shows "\<exists>q'. deq q = Spinning q'"
proof -
  have "length (items q) = 0" using accounted_length [OF assms(1)] assms(2) by linarith
  then show ?thesis using assms(1) deq_empty [of q] by (simp add: accounted_def)
qed

lemma put_accounted:
  assumes "accounted q held" "i \<in> set held"
  shows "\<exists>q'. enq i q = Returned q' () \<and> accounted q' (remove1 i held) \<and> cap q' = cap q"
proof -
  have "0 < length held" using assms(2) by (rule length_pos_if_in_set)
  then have "length (items q) < cap q" using accounted_length [OF assms(1)] by linarith
  with assms enq_room [of q i] show ?thesis by (force simp: accounted_def)
qed

end

interpretation pool: index_queue enqueue "dequeue id" contents "\<lambda>s. SIZE s" ring_inv
  by unfold_locales

definition pool_inv :: "ThreadSafeIndexPool \<Rightarrow> i32 list \<Rightarrow> bool" where
  "pool_inv p held \<longleftrightarrow> pool.accounted (IndexPool p) held"

lemma pool_inv_iff:
  "pool_inv p held \<longleftrightarrow> ring_inv (IndexPool p) \<and>
     mset (contents (IndexPool p)) + mset held = mset (index_list (POOL_SIZE p))"
  by (simp add: pool_inv_def pool.accounted_def)

lemma index_list_inj:
  assumes "n < 2 ^ 31"
  shows "distinct (index_list n)" "i \<in> set (index_list n) \<longleftrightarrow> 0 \<le> sint i \<and> sint i < int n"
proof -
  have "inj_on (of_nat :: nat \<Rightarrow> i32) {0..<n}"
  proof (rule inj_onI)
    fix x y assume xy: "x \<in> {0..<n}" "y \<in> {0..<n}" "(of_nat x :: i32) = of_nat y"
    then have "x < 2 ^ 31" "y < 2 ^ 31" using assms by auto
    then show "x = y" using sint_of_nat_i32 xy(3) by (metis of_nat_eq_iff)
  qed
  then show "distinct (index_list n)" by (simp add: index_list_def distinct_map)
  show "i \<in> set (index_list n) \<longleftrightarrow> 0 \<le> sint i \<and> sint i < int n"
  proof
    assume "i \<in> set (index_list n)"
    then obtain k where "k < n" "i = of_nat k" by (auto simp: index_list_def)
    with assms show "0 \<le> sint i \<and> sint i < int n" using sint_of_nat_i32 [of k] by simp
  next
    assume i: "0 \<le> sint i \<and> sint i < int n"
    then have "i = of_nat (nat (sint i))" by (simp add: of_nat_nat)
    moreover have "nat (sint i) \<in> set [0..<n]" using i by auto
    ultimately show "i \<in> set (index_list n)" unfolding index_list_def set_map by (rule image_eqI)
  qed
qed

lemma pool_inv_held:
  assumes "pool_inv p held"
  shows "distinct held" "i \<in> set held \<Longrightarrow> 0 \<le> sint i \<and> sint i < int (POOL_SIZE p)"
    "set held \<inter> set (contents (IndexPool p)) = {}" "distinct (contents (IndexPool p))"
proof -
  have n: "POOL_SIZE p < 2 ^ 31" using assms by (auto simp: pool_inv_iff ring_inv_def)
  have eq: "mset (contents (IndexPool p) @ held) = mset (index_list (POOL_SIZE p))"
    using assms by (simp add: pool_inv_iff)
  then have "distinct (contents (IndexPool p) @ held)"
    using index_list_inj(1) [OF n] mset_eq_imp_distinct_iff by blast
  then show "distinct held" "set held \<inter> set (contents (IndexPool p)) = {}" "distinct (contents (IndexPool p))"
    by auto
  show "0 \<le> sint i \<and> sint i < int (POOL_SIZE p)" if "i \<in> set held"
    using mset_eq_setD [OF eq] that index_list_inj(2) [OF n, of i] by auto
qed

lemma initializeIndexes_inv:
  assumes "ring_inv (IndexPool p)" "contents (IndexPool p) = []"
  shows "\<exists>p'. initializeIndexes p = Returned p' () \<and> pool_inv p' [] \<and> POOL_SIZE p' = POOL_SIZE p \<and>
    contents (IndexPool p') = index_list (POOL_SIZE p)"
proof -
  from arb.enqueue_all_room [OF assms(1), of "index_list (POOL_SIZE p)"] assms(2) obtain r where
    "enqueue_all enqueue (index_list (POOL_SIZE p)) (IndexPool p) = Returned r ()" "ring_inv r"
    "contents r = index_list (POOL_SIZE p)" "SIZE r = POOL_SIZE p"
    by (auto simp: index_list_def)
  then show ?thesis by (simp add: initializeIndexes_def pool_inv_iff)
qed

section \<open>Properties\<close>

text \<open>Construction and \<open>reInitializePool\<close>. Filling the ring with all \<open>SIZE\<close> indices never blocks; a new pool, and any pool
  after \<open>reInitializePool\<close> whatever its state, holds \<open>0, \<dots>, SIZE - 1\<close> in this order, all free.\<close>

theorem pool_initialised:
  assumes "ring_size_ok (length ds)" "ring_size_ok (POOL_SIZE p)"
  shows "(\<exists>p'. new_ThreadSafeIndexPool batch ds = Returned p' () \<and> pool_inv p' [] \<and>
      contents (IndexPool p') = index_list (length ds)) \<and>
    (\<exists>p'. reInitializePool p = Returned p' () \<and> pool_inv p' [] \<and>
      contents (IndexPool p') = index_list (POOL_SIZE p))"
  using initializeIndexes_inv [of "\<lparr>IndexPool = new_AtomicRingBuffer batch ds\<rparr>"]
    initializeIndexes_inv [of "p\<lparr>IndexPool := clearBuffer (IndexPool p)\<rparr>"]
    new_AtomicRingBuffer_inv [OF assms(1), of batch] clearBuffer_inv [OF assms(2)]
  by (auto simp: new_ThreadSafeIndexPool_def reInitializePool_def)

text \<open>A pool of two indices.\<close>

definition pool2 :: ThreadSafeIndexPool where
  "pool2 = (case new_ThreadSafeIndexPool [] [0, 0] of Returned p _ \<Rightarrow> p | Spinning p \<Rightarrow> p | Threw p \<Rightarrow> p)"

lemma pool2_inv [simp]: "pool_inv pool2 []" "POOL_SIZE pool2 = 2"
proof -
  have ok: "ring_size_ok (length [0, 0 :: i32])" by simp
  from initializeIndexes_inv [of "\<lparr>IndexPool = new_AtomicRingBuffer [] [0, 0]\<rparr>"] new_AtomicRingBuffer_inv [OF ok, of "[]"]
  show "pool_inv pool2 []" "POOL_SIZE pool2 = 2" by (auto simp: pool2_def new_ThreadSafeIndexPool_def)
qed

theorem pool_initialised_witness:
  "\<exists>p'. reInitializePool pool2 = Returned p' () \<and> pool_inv p' [] \<and> contents (IndexPool p') = [0, 1]"
  using pool_initialised [of "[0, 0]" pool2 "[]"] by (simp add: index_list_def upt_rec)

text \<open>\<open>getIndex\<close> and \<open>returnIndex\<close>. While fewer than \<open>SIZE\<close> indices are out, \<open>getIndex\<close> returns one that lies in
  \<open>0, \<dots>, SIZE - 1\<close> and that nobody holds; when all are out it waits. Returning a held index never
  waits. Both keep the free and the held indices a partition of all indices.\<close>

theorem getIndex_returnIndex_spec:
  assumes "pool_inv p held"
  shows "(if length held < POOL_SIZE p
      then \<exists>p' i. getIndex p = Returned p' i \<and> i \<notin> set held \<and> 0 \<le> sint i \<and> sint i < int (POOL_SIZE p) \<and>
             pool_inv p' (i # held) \<and> POOL_SIZE p' = POOL_SIZE p
      else \<exists>p'. getIndex p = Spinning p') \<and>
    (\<forall>i \<in> set held. \<exists>p'. returnIndex i p = Returned p' () \<and> pool_inv p' (remove1 i held) \<and> POOL_SIZE p' = POOL_SIZE p)"
proof -
  have acc: "pool.accounted (IndexPool p) held" using assms by (simp add: pool_inv_def)
  have "\<exists>p' i. getIndex p = Returned p' i \<and> i \<notin> set held \<and> 0 \<le> sint i \<and> sint i < int (POOL_SIZE p) \<and>
      pool_inv p' (i # held) \<and> POOL_SIZE p' = POOL_SIZE p" if "length held < POOL_SIZE p"
  proof -
    from pool.get_accounted [OF acc that] obtain r i where
      r: "dequeue id (IndexPool p) = Returned r i" "pool.accounted r (i # held)" "SIZE r = POOL_SIZE p" by auto
    then have "getIndex p = Returned (p\<lparr>IndexPool := r\<rparr>) i" "pool_inv (p\<lparr>IndexPool := r\<rparr>) (i # held)"
      by (simp_all add: getIndex_def pool_inv_def)
    with pool_inv_held(1,2) [OF this(2)] r(3) show ?thesis by auto
  qed
  moreover have "\<exists>p'. getIndex p = Spinning p'" if "\<not> length held < POOL_SIZE p"
    using pool.get_exhausted [OF acc] that by (auto simp: getIndex_def)
  moreover have "\<exists>p'. returnIndex i p = Returned p' () \<and> pool_inv p' (remove1 i held) \<and> POOL_SIZE p' = POOL_SIZE p"
    if "i \<in> set held" for i
    using pool.put_accounted [OF acc that] by (auto simp: returnIndex_def pool_inv_def)
  ultimately show ?thesis by simp
qed

theorem getIndex_returnIndex_spec_witness:
  "\<exists>p' i. getIndex pool2 = Returned p' i \<and> 0 \<le> sint i \<and> sint i < 2 \<and> pool_inv p' [i]"
  using getIndex_returnIndex_spec [OF pool2_inv(1)] by auto

text \<open>A double return goes undetected. Returning a valid index that is already free, while another one is out, succeeds and
  leaves the index in the pool twice, so it can be handed out to two holders.\<close>

theorem double_return_duplicates:
  assumes "pool_inv p held" "held \<noteq> []" "i \<in> set (contents (IndexPool p))"
  shows "\<exists>p'. returnIndex i p = Returned p' () \<and> \<not> distinct (contents (IndexPool p'))"
proof -
  have "length (contents (IndexPool p)) < POOL_SIZE p"
    using pool.accounted_length [of "IndexPool p" held] assms(1,2) by (cases held) (auto simp: pool_inv_def)
  with arb.enq_room [of "IndexPool p" i] assms(1,3) show ?thesis
    by (auto simp: returnIndex_def pool_inv_iff)
qed

theorem double_return_duplicates_witness:
  "\<exists>p i p'. returnIndex i p = Returned p' () \<and> \<not> distinct (contents (IndexPool p'))"
proof -
  from pool.get_accounted [of "IndexPool pool2" "[]"] pool2_inv obtain r i where
    r: "pool.accounted r [i]" "SIZE r = 2" by (auto simp: pool_inv_def)
  then have "length (contents r) = 1" using pool.accounted_length [OF r(1)] by simp
  then obtain j where "contents r = [j]" by (metis One_nat_def length_0_conv length_Suc_conv)
  then show ?thesis
    using double_return_duplicates [of "\<lparr>IndexPool = r\<rparr>" "[i]" j] r(1) by (auto simp: pool_inv_def)
qed

section \<open>Concurrent use\<close>

text \<open>
  Threads share the pool: \<open>getIndex\<close> is a \<open>dequeue\<close>, \<open>returnIndex\<close> an \<open>enqueue\<close> of the interleaved
  ring. The indices in use along a run, and the discipline of the callers: only an index in use is
  returned (\<open>None\<close> when a call breaks it).
\<close>

fun in_use :: "i32 multiset \<Rightarrow> i32 ring_ev list \<Rightarrow> i32 multiset option" where
  "in_use h [] = Some h"
| "in_use h (DeqRet i v # tr) = in_use (add_mset v h) tr"
| "in_use h (EnqCall i v # tr) = (if v \<in># h then in_use (h - {#v#}) tr else None)"
| "in_use h (_ # tr) = in_use h tr"

lemma event_lists_Cons:
  "enq_vals (e # tr) = enq_val e @ enq_vals tr" "deq_vals (e # tr) = deq_val e @ deq_vals tr"
  by (simp_all add: enq_vals_def deq_vals_def)

lemma event_lists_append:
  "enq_vals (tr @ tr') = enq_vals tr @ enq_vals tr'" "deq_vals (tr @ tr') = deq_vals tr @ deq_vals tr'"
  by (simp_all add: enq_vals_def deq_vals_def)

lemma in_use_balance:
  "in_use h tr = Some h' \<Longrightarrow> h' + mset (enq_vals tr) = h + mset (deq_vals tr)"
proof (induction h tr rule: in_use.induct)
  case (3 h i v tr)
  then have "v \<in># h" and eq: "h' + mset (enq_vals tr) = h - {#v#} + mset (deq_vals tr)" by (auto split: if_splits)
  then have "add_mset v (h' + mset (enq_vals tr)) = h + mset (deq_vals tr)"
    by (simp add: eq flip: union_mset_add_mset_left)
  then show ?case by (simp add: event_lists_Cons)
qed (simp_all add: event_lists_Cons)

lemma concurrent_in_use:
  assumes "ring_size_ok (length ds)" "n < 2 ^ 32"
    and "lts_run (ring_step mv dead) (ring_start n batch ds) (init @ tr) c"
    and "enq_vals init = index_list (length ds)" "deq_vals init = []" "in_use {#} tr = Some h"
  shows "h \<subseteq># mset (index_list (length ds))"
proof -
  have "mset (deq_vals tr) \<subseteq># mset (index_list (length ds)) + mset (enq_vals tr)"
    using concurrent_submultiset [OF assms(1-3)] assms(4,5) by (simp add: event_lists_append)
  moreover have "h + mset (enq_vals tr) = mset (deq_vals tr)" using in_use_balance [OF assms(6)] by simp
  ultimately show ?thesis by (metis mset_subset_eq_mono_add_right_cancel)
qed

lemma index_list_part:
  assumes "n < 2 ^ 31" "h \<subseteq># mset (index_list n)"
  shows "count h v \<le> 1" "v \<in># h \<Longrightarrow> 0 \<le> sint v \<and> sint v < int n"
proof -
  show "count h v \<le> 1"
    using mset_subset_eq_count [OF assms(2), of v] distinct_count_atmost_1 [of "index_list n"] index_list_inj(1) [OF assms(1)]
    by (metis le_trans order_refl zero_le)
  show "v \<in># h \<Longrightarrow> 0 \<le> sint v \<and> sint v < int n"
    using mset_subset_eqD [OF assms(2)] index_list_inj(2) [OF assms(1), of v] by simp
qed

text \<open>C16: No index is ever in use twice. After construction, for any number of threads and any
  interleaving in which the callers return only indices that are in use, the indices in use are
  distinct members of \<open>0, \<dots>, SIZE - 1\<close>.\<close>

theorem concurrent_indices_unique:
  assumes "ring_size_ok (length ds)" "n < 2 ^ 32"
    and "lts_run (ring_step mv dead) (ring_start n batch ds) (init @ tr) c"
    and "enq_vals init = index_list (length ds)" "deq_vals init = []"
    and "in_use {#} tr = Some h"
  shows "h \<subseteq># mset (index_list (length ds)) \<and>
    (\<forall>v. count h v \<le> 1) \<and> (\<forall>v \<in># h. 0 \<le> sint v \<and> sint v < int (length ds))"
proof -
  have n: "length ds < 2 ^ 31" using assms(1) by (rule ring_size_okD)
  have sub: "h \<subseteq># mset (index_list (length ds))" using assms by (rule concurrent_in_use)
  then show ?thesis using index_list_part [OF n sub] by blast
qed

text \<open>Thread 0 constructs a pool of two indices, then threads 0 and 1 take one each.\<close>

definition two_holders :: "i32 act list" where
  "two_holders = [ActEnq 0 0, ActStep 0, ActStep 0, ActStep 0, ActEnq 0 1, ActStep 0, ActStep 0, ActStep 0,
     ActDeq 0, ActDeq 1, ActStep 1, ActStep 0, ActStep 1, ActStep 0, ActStep 0, ActStep 1]"

lemma two_holders_run:
  obtains tr c where "lts_run (ring_step id id) (ring_start 2 [] [0, 0]) tr c"
    "enq_vals (take 8 tr) = [0, 1 :: i32]" "deq_vals (take 8 tr) = []" "in_use {#} (drop 8 tr) = Some {#1, 0#}"
proof -
  have "map_option (\<lambda>(tr, c). (enq_vals (take 8 tr), deq_vals (take 8 tr), deq_vals (drop 8 tr), enq_vals (drop 8 tr)))
      (performs id id two_holders (ring_start 2 [] [0, 0])) = Some ([0, 1], [], [0, 1], [])"
    by code_simp
  then obtain tr c where tr: "performs id id two_holders (ring_start 2 [] [0, 0]) = Some (tr, c)"
    "enq_vals (take 8 tr) = [0, 1]" "deq_vals (take 8 tr) = []" "deq_vals (drop 8 tr) = [0, 1]" "enq_vals (drop 8 tr) = []"
    by (auto simp del: performs.simps)
  have "enq_vals t = [] \<Longrightarrow> in_use h t = Some (h + mset (deq_vals t))" for h and t :: "i32 ring_ev list"
    by (induction h t rule: in_use.induct) (auto simp: event_lists_Cons)
  with tr(4,5) have "in_use {#} (drop 8 tr) = Some {#1, 0#}" by simp
  with that [OF performs_run [OF tr(1)] tr(2,3)] show ?thesis by blast
qed

theorem concurrent_indices_unique_witness:
  "{#1, 0 :: i32#} \<subseteq># mset (index_list 2) \<and> (\<forall>v. count {#1, 0 :: i32#} v \<le> 1)"
proof -
  obtain tr c where tr: "lts_run (ring_step id id) (ring_start 2 [] [0, 0]) (take 8 tr @ drop 8 tr) c"
    "enq_vals (take 8 tr) = [0, 1 :: i32]" "deq_vals (take 8 tr) = []" "in_use {#} (drop 8 tr) = Some {#1, 0#}"
    by (rule two_holders_run) simp
  have "index_list (length [0, 0 :: i32]) = [0, 1]" by (simp add: index_list_def upt_rec)
  with concurrent_indices_unique [OF _ _ tr(1) _ tr(3,4)] tr(2) show ?thesis by (simp add: numeral_2_eq_2)
qed

end
