(* ===== verification/Spinlock.thy ===== *)
theory Spinlock
  imports Astra_Prelude
begin

text \<open>
  \<open>Spinlock\<close> and \<open>SpinlockGuard\<close> (include/AstraLib/Atomic/spinlock.hpp). First the operations as one
  thread runs them, with the back-off loop at its integer widths; then any number of threads that
  compete for one lock around a critical section. The machine is generic in the waiting strategy
  after a failed exchange and in the critical section, so that it covers \<open>Spinlock\<close> and the
  test-and-test-and-set lock of the benchmarks alike.
\<close>

section \<open>The lock\<close>

record Spinlock =
  atomic :: bool
  waitTime :: "64 word"

definition new_Spinlock :: Spinlock where
  "new_Spinlock = \<lparr>atomic = False, waitTime = 1000\<rparr>"

definition new_Spinlock_wait :: "64 word \<Rightarrow> Spinlock" where
  "new_Spinlock_wait wt = \<lparr>atomic = False, waitTime = wt\<rparr>"

text \<open>
  \<open>for (int i = 0; i < waitTime; ++i) _mm_pause()\<close>: the \<open>int\<close> counter is compared with an \<open>int64_t\<close>;
  incrementing \<open>INT_MAX\<close> is undefined behaviour. The result is the number of pauses.
\<close>

datatype backoff_result = Paused nat | IntOverflow

function backoff_from :: "64 word \<Rightarrow> int \<Rightarrow> nat \<Rightarrow> backoff_result" where
  "backoff_from wt i k =
     (if i < sint wt then
        (if i < 2 ^ 31 - 1 then backoff_from wt (i + 1) (Suc k) else IntOverflow)
      else Paused k)"
  by auto
termination by (relation "measure (\<lambda>(wt, i, k). nat (2 ^ 31 - i))") auto

definition backoff :: "64 word \<Rightarrow> backoff_result" where
  "backoff wt = backoff_from wt 0 0"

text \<open>One iteration of the loop of \<open>lock\<close>.\<close>

datatype lock_outcome = Acquired | Busy nat | Undefined

definition lock_attempt :: "Spinlock \<Rightarrow> lock_outcome \<times> Spinlock" where
  "lock_attempt s =
     (if atomic s then (case backoff (waitTime s) of Paused k \<Rightarrow> Busy k | IntOverflow \<Rightarrow> Undefined)
      else Acquired,
      s\<lparr>atomic := True\<rparr>)"

text \<open>\<open>lock\<close> run by one thread alone: on a held lock every iteration fails.\<close>

definition lock :: "Spinlock \<Rightarrow> (Spinlock, unit) run" where
  "lock s = (case lock_attempt s of (Acquired, s') \<Rightarrow> Returned s' () | (_, s') \<Rightarrow> Spinning s')"

definition unlock :: "Spinlock \<Rightarrow> Spinlock" where
  "unlock s = s\<lparr>atomic := False\<rparr>"

text \<open>
  A scope that holds a \<open>SpinlockGuard\<close>: the constructor locks, the destructor unlocks however the
  scope is left, by return or by exception.
\<close>

definition with_guard :: "('d \<Rightarrow> ('d, 'r) run) \<Rightarrow> Spinlock \<Rightarrow> 'd \<Rightarrow> (Spinlock \<times> 'd, 'r) run" where
  "with_guard body s d =
     (case lock s of
        Returned s1 _ \<Rightarrow>
          (case body d of
             Returned d' r \<Rightarrow> Returned (unlock s1, d') r
           | Threw d' \<Rightarrow> Threw (unlock s1, d')
           | Spinning d' \<Rightarrow> Spinning (s1, d'))
      | Spinning s1 \<Rightarrow> Spinning (s1, d)
      | Threw s1 \<Rightarrow> Threw (s1, d))"

declare backoff_from.simps [simp del]

lemma backoff_from_pauses:
  "0 \<le> i \<Longrightarrow> i \<le> sint wt \<Longrightarrow> sint wt < 2 ^ 31 \<Longrightarrow> backoff_from wt i k = Paused (k + nat (sint wt - i))"
proof (induction "nat (sint wt - i)" arbitrary: i k)
  case 0
  then show ?case by (simp add: backoff_from.simps [of wt i])
next
  case (Suc n)
  then have "backoff_from wt (i + 1) (Suc k) = Paused (Suc k + nat (sint wt - (i + 1)))" by (intro Suc.hyps) auto
  moreover have "Suc k + nat (sint wt - (i + 1)) = k + nat (sint wt - i)" using Suc.hyps(2) by linarith
  ultimately show ?case using Suc by (simp add: backoff_from.simps [of wt i])
qed

lemma backoff_from_overflows:
  "i < 2 ^ 31 \<Longrightarrow> 2 ^ 31 \<le> sint wt \<Longrightarrow> backoff_from wt i k = IntOverflow"
proof (induction "nat (2 ^ 31 - 1 - i)" arbitrary: i k)
  case 0
  then show ?case by (simp add: backoff_from.simps [of wt i])
next
  case (Suc n)
  then have "backoff_from wt (i + 1) (Suc k) = IntOverflow" by (intro Suc.hyps) auto
  then show ?case using Suc.prems Suc.hyps(2) by (simp add: backoff_from.simps [of wt i])
qed

section \<open>Competing threads\<close>

text \<open>
  \<open>wait flag k\<close> is what a waiting thread does after a failed exchange: \<open>Some k'\<close> to keep waiting,
  \<open>None\<close> to try again; the first waiting position is 0. \<open>cs i k d\<close> is one action of thread \<open>i\<close> at
  point \<open>k\<close> of its critical section on the protected plain data \<open>d\<close>; after \<open>None\<close> it unlocks. With
  \<open>weak\<close> the exchange may fail although the lock is free, as \<open>compare_exchange_weak\<close> may.
\<close>

datatype 'k lpc = LIdle | LTry | LBack nat | LCrit 'k | LUnlock

record ('k, 'd) lock_sys =
  lflag :: bool
  ldata :: 'd
  lpcs :: "'k lpc list"

datatype lock_ev = LockCall tid | Acquire tid | Release tid | StrayUnlock tid | LTau tid

inductive lock_step :: "bool \<Rightarrow> (bool \<Rightarrow> nat \<Rightarrow> nat option) \<Rightarrow> (tid \<Rightarrow> 'k \<Rightarrow> 'd \<Rightarrow> 'k option \<times> 'd) \<Rightarrow> 'k \<Rightarrow>
    ('k, 'd) lock_sys \<Rightarrow> lock_ev \<Rightarrow> ('k, 'd) lock_sys \<Rightarrow> bool"
  for weak and wait and cs and k0 where
  call_lock: "i < length (lpcs s) \<Longrightarrow> lpcs s ! i = LIdle \<Longrightarrow>
    lock_step weak wait cs k0 s (LockCall i) (s\<lparr>lpcs := (lpcs s)[i := LTry]\<rparr>)"
| exchange_won: "i < length (lpcs s) \<Longrightarrow> lpcs s ! i = LTry \<Longrightarrow> \<not> lflag s \<Longrightarrow>
    lock_step weak wait cs k0 s (Acquire i) (s\<lparr>lflag := True, lpcs := (lpcs s)[i := LCrit k0]\<rparr>)"
| exchange_lost: "i < length (lpcs s) \<Longrightarrow> lpcs s ! i = LTry \<Longrightarrow> lflag s \<Longrightarrow>
    lock_step weak wait cs k0 s (LTau i) (s\<lparr>lflag := True, lpcs := (lpcs s)[i := LBack 0]\<rparr>)"
| exchange_spurious: "i < length (lpcs s) \<Longrightarrow> lpcs s ! i = LTry \<Longrightarrow> weak \<Longrightarrow>
    lock_step weak wait cs k0 s (LTau i) (s\<lparr>lpcs := (lpcs s)[i := LBack 0]\<rparr>)"
| wait_more: "i < length (lpcs s) \<Longrightarrow> lpcs s ! i = LBack k \<Longrightarrow> wait (lflag s) k = Some k' \<Longrightarrow>
    lock_step weak wait cs k0 s (LTau i) (s\<lparr>lpcs := (lpcs s)[i := LBack k']\<rparr>)"
| wait_over: "i < length (lpcs s) \<Longrightarrow> lpcs s ! i = LBack k \<Longrightarrow> wait (lflag s) k = None \<Longrightarrow>
    lock_step weak wait cs k0 s (LTau i) (s\<lparr>lpcs := (lpcs s)[i := LTry]\<rparr>)"
| critical: "i < length (lpcs s) \<Longrightarrow> lpcs s ! i = LCrit k \<Longrightarrow> cs i k (ldata s) = (Some k', d) \<Longrightarrow>
    lock_step weak wait cs k0 s (LTau i) (s\<lparr>ldata := d, lpcs := (lpcs s)[i := LCrit k']\<rparr>)"
| critical_end: "i < length (lpcs s) \<Longrightarrow> lpcs s ! i = LCrit k \<Longrightarrow> cs i k (ldata s) = (None, d) \<Longrightarrow>
    lock_step weak wait cs k0 s (LTau i) (s\<lparr>ldata := d, lpcs := (lpcs s)[i := LUnlock]\<rparr>)"
| call_unlock: "i < length (lpcs s) \<Longrightarrow> lpcs s ! i = LUnlock \<Longrightarrow>
    lock_step weak wait cs k0 s (Release i) (s\<lparr>lflag := False, lpcs := (lpcs s)[i := LIdle]\<rparr>)"
| stray_unlock: "i < length (lpcs s) \<Longrightarrow> lpcs s ! i = LIdle \<Longrightarrow>
    lock_step weak wait cs k0 s (StrayUnlock i) (s\<lparr>lflag := False\<rparr>)"

definition lock_start :: "nat \<Rightarrow> 'd \<Rightarrow> ('k, 'd) lock_sys" where
  "lock_start n d = \<lparr>lflag = False, ldata = d, lpcs = replicate n LIdle\<rparr>"

text \<open>The back-off of \<open>Spinlock\<close> as a waiting strategy (\<open>waitTime\<close> below \<open>2 ^ 31\<close>).\<close>

definition spin_wait :: "64 word \<Rightarrow> bool \<Rightarrow> nat \<Rightarrow> nat option" where
  "spin_wait wt flag k = (if int k < sint wt then Some (Suc k) else None)"

section \<open>Serial executions of critical sections\<close>

text \<open>A critical section run without interruption, and a sequence of them.\<close>

inductive section_at :: "(tid \<Rightarrow> 'k \<Rightarrow> 'd \<Rightarrow> 'k option \<times> 'd) \<Rightarrow> 'k \<Rightarrow> tid \<Rightarrow> 'd \<Rightarrow> 'k \<Rightarrow> 'd \<Rightarrow> bool"
  for cs and k0 where
  section_enter: "section_at cs k0 i d k0 d"
| section_step: "section_at cs k0 i d k d1 \<Longrightarrow> cs i k d1 = (Some k', d2) \<Longrightarrow> section_at cs k0 i d k' d2"

inductive serial :: "(tid \<Rightarrow> 'k \<Rightarrow> 'd \<Rightarrow> 'k option \<times> 'd) \<Rightarrow> 'k \<Rightarrow> 'd \<Rightarrow> tid list \<Rightarrow> 'd \<Rightarrow> bool"
  for cs and k0 and d0 where
  serial_nil: "serial cs k0 d0 [] d0"
| serial_snoc: "serial cs k0 d0 is d \<Longrightarrow> section_at cs k0 i d k d1 \<Longrightarrow> cs i k d1 = (None, d2) \<Longrightarrow>
    serial cs k0 d0 (is @ [i]) d2"

fun acquire_of :: "lock_ev \<Rightarrow> tid list" where
  "acquire_of (Acquire i) = [i]"
| "acquire_of _ = []"

fun is_stray :: "lock_ev \<Rightarrow> bool" where
  "is_stray (StrayUnlock i) = True"
| "is_stray _ = False"

definition acquirers :: "lock_ev list \<Rightarrow> tid list" where
  "acquirers tr = concat (map acquire_of tr)"

lemma acquirers_simps [simp]: "acquirers [] = []" "acquirers (tr @ [e]) = acquirers tr @ acquire_of e"
  by (simp_all add: acquirers_def)

section \<open>The invariant\<close>

fun holds :: "'k lpc \<Rightarrow> bool" where
  "holds (LCrit k) = True"
| "holds LUnlock = True"
| "holds _ = False"

text \<open>
  Without stray unlocks the flag is set exactly when one thread holds the lock, and the protected data
  is what a serial execution in the order of acquisition gives, up to where the holder stands.
\<close>

definition free_ok :: "(tid \<Rightarrow> 'k \<Rightarrow> 'd \<Rightarrow> 'k option \<times> 'd) \<Rightarrow> 'k \<Rightarrow> 'd \<Rightarrow> tid list \<Rightarrow> ('k, 'd) lock_sys \<Rightarrow> bool" where
  "free_ok cs k0 d0 acq s \<longleftrightarrow> \<not> lflag s \<and> (\<forall>j < length (lpcs s). \<not> holds (lpcs s ! j)) \<and>
     serial cs k0 d0 acq (ldata s)"

definition held_ok :: "(tid \<Rightarrow> 'k \<Rightarrow> 'd \<Rightarrow> 'k option \<times> 'd) \<Rightarrow> 'k \<Rightarrow> 'd \<Rightarrow> tid list \<Rightarrow> ('k, 'd) lock_sys \<Rightarrow> tid \<Rightarrow> bool" where
  "held_ok cs k0 d0 acq s i \<longleftrightarrow> lflag s \<and> i < length (lpcs s) \<and>
     (\<forall>j < length (lpcs s). holds (lpcs s ! j) \<longleftrightarrow> j = i) \<and>
     (\<forall>k. lpcs s ! i = LCrit k \<longrightarrow>
        (\<exists>is d. acq = is @ [i] \<and> serial cs k0 d0 is d \<and> section_at cs k0 i d k (ldata s))) \<and>
     (lpcs s ! i = LUnlock \<longrightarrow> serial cs k0 d0 acq (ldata s))"

definition lock_inv :: "(tid \<Rightarrow> 'k \<Rightarrow> 'd \<Rightarrow> 'k option \<times> 'd) \<Rightarrow> 'k \<Rightarrow> 'd \<Rightarrow> lock_ev list \<Rightarrow> ('k, 'd) lock_sys \<Rightarrow> bool" where
  "lock_inv cs k0 d0 tr s \<longleftrightarrow>
     list_ex is_stray tr \<or> free_ok cs k0 d0 (acquirers tr) s \<or> (\<exists>i. held_ok cs k0 d0 (acquirers tr) s i)"

lemma free_ok_local:
  "free_ok cs k0 d0 acq s \<Longrightarrow> j < length (lpcs s) \<Longrightarrow> \<not> holds p \<Longrightarrow> free_ok cs k0 d0 acq (s\<lparr>lpcs := (lpcs s)[j := p]\<rparr>)"
  by (auto simp: free_ok_def nth_list_update)

lemma held_ok_local:
  assumes "held_ok cs k0 d0 acq s i" "j < length (lpcs s)" "\<not> holds (lpcs s ! j)" "\<not> holds p"
  shows "held_ok cs k0 d0 acq (s\<lparr>lpcs := (lpcs s)[j := p]\<rparr>) i"
proof -
  have "j \<noteq> i" using assms by (auto simp: held_ok_def)
  then show ?thesis using assms by (auto simp: held_ok_def nth_list_update)
qed

lemma lock_inv_local:
  assumes "lock_inv cs k0 d0 tr s" "j < length (lpcs s)" "\<not> holds (lpcs s ! j)" "\<not> holds p" "acquire_of e = []"
  shows "lock_inv cs k0 d0 (tr @ [e]) (s\<lparr>lpcs := (lpcs s)[j := p]\<rparr>)"
  using assms free_ok_local [of cs k0 d0 "acquirers tr" s j p] held_ok_local [of cs k0 d0 "acquirers tr" s _ j p]
  by (auto simp: lock_inv_def)

text \<open>A step of a holder: it is the only one.\<close>

lemma lock_inv_holder:
  assumes "lock_inv cs k0 d0 tr s" "j < length (lpcs s)" "holds (lpcs s ! j)"
  shows "list_ex is_stray tr \<or> held_ok cs k0 d0 (acquirers tr) s j"
  using assms by (auto simp: lock_inv_def free_ok_def held_ok_def)

lemma lock_inv_acquire:
  assumes "lock_inv cs k0 d0 tr s" "i < length (lpcs s)" "\<not> lflag s"
  shows "lock_inv cs k0 d0 (tr @ [Acquire i]) (s\<lparr>lflag := True, lpcs := (lpcs s)[i := LCrit k0]\<rparr>)"
proof (cases "list_ex is_stray tr")
  case False
  then have f: "free_ok cs k0 d0 (acquirers tr) s" using assms by (auto simp: lock_inv_def held_ok_def)
  then have "\<exists>is d. acquirers tr @ [i] = is @ [i] \<and> serial cs k0 d0 is d \<and> section_at cs k0 i d k0 (ldata s)"
    by (auto simp: free_ok_def intro: section_enter)
  then have "held_ok cs k0 d0 (acquirers tr @ [i]) (s\<lparr>lflag := True, lpcs := (lpcs s)[i := LCrit k0]\<rparr>) i"
    using f assms(2) by (auto simp: held_ok_def free_ok_def nth_list_update)
  then show ?thesis by (auto simp: lock_inv_def)
qed (simp add: lock_inv_def)

lemma lock_inv_critical:
  assumes "lock_inv cs k0 d0 tr s" "i < length (lpcs s)" "lpcs s ! i = LCrit k"
    and c: "cs i k (ldata s) = (ko, d)" and p: "p = (case ko of Some k' \<Rightarrow> LCrit k' | None \<Rightarrow> LUnlock)"
  shows "lock_inv cs k0 d0 (tr @ [LTau i]) (s\<lparr>ldata := d, lpcs := (lpcs s)[i := p]\<rparr>)"
proof (cases "list_ex is_stray tr")
  case False
  then have h: "held_ok cs k0 d0 (acquirers tr) s i" using lock_inv_holder [OF assms(1,2)] assms(3) by simp
  then obtain "is" d1 where sec: "acquirers tr = is @ [i]" "serial cs k0 d0 is d1" "section_at cs k0 i d1 k (ldata s)"
    using assms(3) by (auto simp: held_ok_def)
  have "\<exists>is d1. acquirers tr = is @ [i] \<and> serial cs k0 d0 is d1 \<and> section_at cs k0 i d1 k' d" if "ko = Some k'" for k'
    using sec section_step [OF sec(3)] c that by blast
  moreover have "serial cs k0 d0 (acquirers tr) d" if "ko = None"
    using serial_snoc [OF sec(2,3)] c that sec(1) by simp
  moreover have "holds p" using p by (cases ko) auto
  ultimately have "held_ok cs k0 d0 (acquirers tr) (s\<lparr>ldata := d, lpcs := (lpcs s)[i := p]\<rparr>) i"
    using h p by (auto simp: held_ok_def nth_list_update split: option.splits)
  then show ?thesis by (auto simp: lock_inv_def)
qed (simp add: lock_inv_def)

lemma lock_inv_release:
  assumes "lock_inv cs k0 d0 tr s" "i < length (lpcs s)" "lpcs s ! i = LUnlock"
  shows "lock_inv cs k0 d0 (tr @ [Release i]) (s\<lparr>lflag := False, lpcs := (lpcs s)[i := LIdle]\<rparr>)"
proof (cases "list_ex is_stray tr")
  case False
  then have "held_ok cs k0 d0 (acquirers tr) s i" using lock_inv_holder [OF assms(1,2)] assms(3) by simp
  then have "free_ok cs k0 d0 (acquirers tr) (s\<lparr>lflag := False, lpcs := (lpcs s)[i := LIdle]\<rparr>)"
    using assms(3) by (auto simp: held_ok_def free_ok_def nth_list_update)
  then show ?thesis by (auto simp: lock_inv_def)
qed (simp add: lock_inv_def)

lemma lock_inv_step:
  assumes "lock_inv cs k0 d0 tr s" "lock_step weak wait cs k0 s e s'"
  shows "lock_inv cs k0 d0 (tr @ [e]) s'"
  using assms(2)
proof cases
  case (exchange_lost i)
  then have "s' = s\<lparr>lpcs := (lpcs s)[i := LBack 0]\<rparr>" by (cases s) auto
  moreover have "lock_inv cs k0 d0 (tr @ [e]) (s\<lparr>lpcs := (lpcs s)[i := LBack 0]\<rparr>)"
    by (rule lock_inv_local [OF assms(1)]) (use exchange_lost in auto)
  ultimately show ?thesis by simp
next
  case (stray_unlock i)
  then show ?thesis by (simp add: lock_inv_def)
next
  case (critical i k k' d)
  then show ?thesis using lock_inv_critical [OF assms(1) critical(3-5), of "LCrit k'"] by simp
next
  case (critical_end i k d)
  then show ?thesis using lock_inv_critical [OF assms(1) critical_end(3-5), of LUnlock] by simp
qed (auto intro!: lock_inv_local [OF assms(1)] lock_inv_acquire [OF assms(1)] lock_inv_release [OF assms(1)])

lemma lock_inv_start: "lock_inv cs k0 d0 [] (lock_start n d0)"
  by (simp add: lock_inv_def free_ok_def lock_start_def serial_nil)

interpretation lockm: lts_invariant "lock_step weak wait cs k0" "\<lambda>s. \<exists>n. s = lock_start n d0" "lock_inv cs k0 d0"
  for weak wait and cs :: "tid \<Rightarrow> 'k \<Rightarrow> 'd \<Rightarrow> 'k option \<times> 'd" and k0 d0
  by unfold_locales (auto intro: lock_inv_start lock_inv_step)

lemma lock_reachable:
  assumes "lts_run (lock_step weak wait cs k0) (lock_start n d0) tr s" "\<not> list_ex is_stray tr"
  obtains "free_ok cs k0 d0 (acquirers tr) s" | i where "held_ok cs k0 d0 (acquirers tr) s i"
  using lockm.inv_run [OF assms(1)] assms(2) by (auto simp: lock_inv_def)

lemma lock_run_length:
  "lts_run (lock_step weak wait cs k0) s0 tr s \<Longrightarrow> length (lpcs s) = length (lpcs s0)"
  by (induction rule: lts_run.induct) (auto elim!: lock_step.cases)

section \<open>Executable schedules\<close>

text \<open>The next step of thread \<open>i\<close>; an idle thread calls \<open>lock\<close>.\<close>

definition lock_do :: "(bool \<Rightarrow> nat \<Rightarrow> nat option) \<Rightarrow> (tid \<Rightarrow> 'k \<Rightarrow> 'd \<Rightarrow> 'k option \<times> 'd) \<Rightarrow> 'k \<Rightarrow>
    tid \<Rightarrow> ('k, 'd) lock_sys \<Rightarrow> lock_ev \<times> ('k, 'd) lock_sys" where
  "lock_do wait cs k0 i s =
     (case lpcs s ! i of
        LIdle \<Rightarrow> (LockCall i, s\<lparr>lpcs := (lpcs s)[i := LTry]\<rparr>)
      | LTry \<Rightarrow> if lflag s then (LTau i, s\<lparr>lflag := True, lpcs := (lpcs s)[i := LBack 0]\<rparr>)
               else (Acquire i, s\<lparr>lflag := True, lpcs := (lpcs s)[i := LCrit k0]\<rparr>)
      | LBack k \<Rightarrow> (LTau i, s\<lparr>lpcs := (lpcs s)[i := (case wait (lflag s) k of Some k' \<Rightarrow> LBack k' | None \<Rightarrow> LTry)]\<rparr>)
      | LCrit k \<Rightarrow> (case cs i k (ldata s) of
           (Some k', d) \<Rightarrow> (LTau i, s\<lparr>ldata := d, lpcs := (lpcs s)[i := LCrit k']\<rparr>)
         | (None, d) \<Rightarrow> (LTau i, s\<lparr>ldata := d, lpcs := (lpcs s)[i := LUnlock]\<rparr>))
      | LUnlock \<Rightarrow> (Release i, s\<lparr>lflag := False, lpcs := (lpcs s)[i := LIdle]\<rparr>))"

fun lock_script :: "(bool \<Rightarrow> nat \<Rightarrow> nat option) \<Rightarrow> (tid \<Rightarrow> 'k \<Rightarrow> 'd \<Rightarrow> 'k option \<times> 'd) \<Rightarrow> 'k \<Rightarrow>
    tid list \<Rightarrow> ('k, 'd) lock_sys \<Rightarrow> (lock_ev list \<times> ('k, 'd) lock_sys) option" where
  "lock_script wait cs k0 [] s = Some ([], s)"
| "lock_script wait cs k0 (i # is) s =
     (if i < length (lpcs s) then
        (let (e, s1) = lock_do wait cs k0 i s
         in map_option (\<lambda>(tr, s2). (e # tr, s2)) (lock_script wait cs k0 is s1))
      else None)"

lemma lock_do_step: "i < length (lpcs s) \<Longrightarrow> lock_do wait cs k0 i s = (e, s') \<Longrightarrow> lock_step weak wait cs k0 s e s'"
  by (cases "lpcs s ! i")
    (auto simp: lock_do_def split: if_splits option.splits prod.splits intro: lock_step.intros)

lemma lock_script_run:
  "lock_script wait cs k0 is s = Some (tr, s') \<Longrightarrow> lts_run (lock_step weak wait cs k0) s tr s'"
proof (induction "is" arbitrary: s tr)
  case Nil
  then show ?case by (auto intro: lts_run.run_nil)
next
  case (Cons i "is")
  then show ?case by (auto split: if_splits prod.splits intro: lts_run_cons lock_do_step)
qed

section \<open>Properties\<close>

text \<open>C24: The back-off loop. It pauses exactly \<open>max 0 waitTime\<close> times when \<open>waitTime\<close> fits an \<open>int\<close>; for a larger
  \<open>waitTime\<close> the \<open>int\<close> counter always runs into signed overflow, which is undefined behaviour.\<close>

theorem backoff_exact:
  "backoff wt = (if sint wt < 2 ^ 31 then Paused (nat (sint wt)) else IntOverflow)"
proof (cases "0 \<le> sint wt")
  case True
  then show ?thesis
    using backoff_from_pauses [of 0 wt 0] backoff_from_overflows [of 0 wt 0] by (simp add: backoff_def)
next
  case False
  then show ?thesis by (simp add: backoff_def backoff_from.simps)
qed

text \<open>A scope with a \<open>SpinlockGuard\<close> on a free lock runs its body once and leaves the lock free, whether the body returns or
  throws; on a held lock it never runs the body, so taking the same lock twice in one thread hangs.\<close>

theorem guard_releases:
  "with_guard body s d =
     (if atomic s then Spinning (s, d)
      else case body d of
             Returned d' r \<Rightarrow> Returned (s, d') r
           | Threw d' \<Rightarrow> Threw (s, d')
           | Spinning d' \<Rightarrow> Spinning (s\<lparr>atomic := True\<rparr>, d'))"
proof -
  have "s\<lparr>atomic := True\<rparr> = s" if "atomic s" using that by (cases s) simp
  moreover have "s\<lparr>atomic := False\<rparr> = s" if "\<not> atomic s" using that by (cases s) simp
  ultimately show ?thesis
    by (auto simp: with_guard_def lock_def lock_attempt_def unlock_def split: run.splits backoff_result.splits)
qed

text \<open>C17: Mutual exclusion. With any number of threads, any waiting strategy and any critical section, as long as no
  thread unlocks a lock it does not hold, at most one thread is between its acquisition and its
  \<open>unlock\<close>, and the lock word is set exactly while there is one.\<close>

theorem spinlock_mutual_exclusion:
  assumes "lts_run (lock_step weak wait cs k0) (lock_start n d0) tr s" "\<not> list_ex is_stray tr"
  shows "(\<forall>i < n. \<forall>j < n. holds (lpcs s ! i) \<and> holds (lpcs s ! j) \<longrightarrow> i = j) \<and>
    (lflag s \<longleftrightarrow> (\<exists>i < n. holds (lpcs s ! i)))"
proof -
  have "length (lpcs s) = n" using lock_run_length [OF assms(1)] by (simp add: lock_start_def)
  then show ?thesis
    by (cases rule: lock_reachable [OF assms]) (auto simp: free_ok_def held_ok_def)
qed

text \<open>A critical section of two actions on a plain counter, a load and a store.\<close>

fun incr_cs :: "tid \<Rightarrow> int option \<Rightarrow> int \<Rightarrow> int option option \<times> int" where
  "incr_cs i None d = (Some (Some d), d)"
| "incr_cs i (Some v) d = (None, v + 1)"

text \<open>Two threads compete and increment twice, once each.\<close>

lemma two_lockers_run:
  obtains tr s where "lts_run (lock_step False (spin_wait 2) incr_cs None) (lock_start 2 0) tr s"
    "\<not> list_ex is_stray tr" "lpcs s = [LBack 0, LCrit None]"
proof -
  have "map_option (\<lambda>(tr, s). (list_ex is_stray tr, lpcs s)) (lock_script (spin_wait 2) incr_cs None [0, 1, 1, 0] (lock_start 2 0)) =
    Some (False, [LBack 0, LCrit None])"
    by code_simp
  then obtain tr s where "lock_script (spin_wait 2) incr_cs None [0, 1, 1, 0] (lock_start 2 0) = Some (tr, s)"
    "\<not> list_ex is_stray tr" "lpcs s = [LBack 0, LCrit None]" by (auto simp del: lock_script.simps)
  from that [OF lock_script_run [OF this(1)] this(2,3)] show ?thesis .
qed

lemma two_sections_run:
  obtains tr s where "lts_run (lock_step False (spin_wait 2) incr_cs None) (lock_start 2 0) tr s"
    "\<not> list_ex is_stray tr" "acquirers tr = [1, 0]" "lpcs s = [LIdle, LIdle]" "ldata s = 2"
proof -
  let ?is = "[0, 1, 1, 0, 1, 1, 1, 0, 0, 0, 0, 0, 0, 0 :: nat]"
  have "map_option (\<lambda>(tr, s). (list_ex is_stray tr, acquirers tr, lpcs s, ldata s)) (lock_script (spin_wait 2) incr_cs None ?is (lock_start 2 0)) =
    Some (False, [1, 0], [LIdle, LIdle], 2)"
    by code_simp
  then obtain tr s where "lock_script (spin_wait 2) incr_cs None ?is (lock_start 2 0) = Some (tr, s)"
    "\<not> list_ex is_stray tr" "acquirers tr = [1, 0]" "lpcs s = [LIdle, LIdle]" "ldata s = 2"
    by (auto simp del: lock_script.simps)
  from that [OF lock_script_run [OF this(1)] this(2-5)] show ?thesis .
qed

theorem spinlock_mutual_exclusion_witness:
  "\<exists>s :: (int option, int) lock_sys. holds (lpcs s ! 1) \<and> lflag s"
proof -
  obtain tr s where s: "lts_run (lock_step False (spin_wait 2) incr_cs None) (lock_start 2 0) tr s"
    "\<not> list_ex is_stray tr" "lpcs s = [LBack 0, LCrit None]" by (rule two_lockers_run)
  then have "holds (lpcs s ! 1)" by simp
  moreover from this spinlock_mutual_exclusion [OF s(1,2)] have "lflag s" by fastforce
  ultimately show ?thesis by blast
qed

text \<open>C18: Critical sections are atomic. Whenever nobody holds the lock, the protected plain data is the
  result of running the critical sections one after the other, without interruption, in the order in
  which the lock was acquired.\<close>

theorem critical_sections_serializable:
  assumes "lts_run (lock_step weak wait cs k0) (lock_start n d0) tr s" "\<not> list_ex is_stray tr"
    and "\<forall>i < n. \<not> holds (lpcs s ! i)"
  shows "serial cs k0 d0 (acquirers tr) (ldata s)"
proof -
  have "length (lpcs s) = n" using lock_run_length [OF assms(1)] by (simp add: lock_start_def)
  then show ?thesis
    using assms(3) by (cases rule: lock_reachable [OF assms(1,2)]) (auto simp: free_ok_def held_ok_def)
qed

theorem critical_sections_serializable_witness: "serial incr_cs None 0 [1, 0] 2"
proof -
  obtain tr s where s: "lts_run (lock_step False (spin_wait 2) incr_cs None) (lock_start 2 0) tr s"
    "\<not> list_ex is_stray tr" "acquirers tr = [1, 0]" "lpcs s = [LIdle, LIdle]" "ldata s = 2" by (rule two_sections_run)
  have "\<forall>i < 2. \<not> holds (lpcs s ! i)" using s(4) by (simp add: less_Suc_eq numeral_2_eq_2)
  from critical_sections_serializable [OF s(1,2) this] s(3,5) show ?thesis by simp
qed

text \<open>A thread that unlocks without holding the lock breaks mutual exclusion: the lock does not know
  its owner, so two threads can be in the critical section together.\<close>

theorem stray_unlock_breaks_exclusion:
  "\<exists>tr (s :: (int option, int) lock_sys). lts_run (lock_step False (spin_wait 1000) incr_cs None) (lock_start 3 0) tr s \<and>
     list_ex is_stray tr \<and> holds (lpcs s ! 0) \<and> holds (lpcs s ! 1)"
proof -
  let ?step = "lock_step False (spin_wait 1000) incr_cs None"
  let ?s = "\<lambda>f ps. \<lparr>lflag = f, ldata = 0 :: int, lpcs = ps\<rparr> :: (int option, int) lock_sys"
  let ?tr = "[LockCall 0, LockCall 1, Acquire 0, StrayUnlock 2, Acquire 1]"
  have s0: "lock_start 3 0 = ?s False [LIdle, LIdle, LIdle]" by (simp add: lock_start_def numeral_3_eq_3)
  have "?step (?s False [LIdle, LIdle, LIdle]) (LockCall 0) (?s False [LTry, LIdle, LIdle])"
    using call_lock [of 0 "?s False [LIdle, LIdle, LIdle]" False "spin_wait 1000" incr_cs None] by simp
  moreover have "?step (?s False [LTry, LIdle, LIdle]) (LockCall 1) (?s False [LTry, LTry, LIdle])"
    using call_lock [of 1 "?s False [LTry, LIdle, LIdle]" False "spin_wait 1000" incr_cs None] by simp
  moreover have "?step (?s False [LTry, LTry, LIdle]) (Acquire 0) (?s True [LCrit None, LTry, LIdle])"
    using exchange_won [of 0 "?s False [LTry, LTry, LIdle]" False "spin_wait 1000" incr_cs None] by simp
  moreover have "?step (?s True [LCrit None, LTry, LIdle]) (StrayUnlock 2) (?s False [LCrit None, LTry, LIdle])"
    using stray_unlock [of 2 "?s True [LCrit None, LTry, LIdle]" False "spin_wait 1000" incr_cs None] by simp
  moreover have "?step (?s False [LCrit None, LTry, LIdle]) (Acquire 1) (?s True [LCrit None, LCrit None, LIdle])"
    using exchange_won [of 1 "?s False [LCrit None, LTry, LIdle]" False "spin_wait 1000" incr_cs None] by simp
  ultimately have "lts_run ?step (lock_start 3 0) ?tr (?s True [LCrit None, LCrit None, LIdle])"
    unfolding s0 by (intro lts_run_cons) (auto intro: lts_run.run_nil)
  then show ?thesis by (intro exI [of _ ?tr] exI [of _ "?s True [LCrit None, LCrit None, LIdle]"]) simp
qed

lemma backoff_runs_out:
  "i < length (lpcs s) \<Longrightarrow> lpcs s ! i = LBack k \<Longrightarrow>
    \<exists>tr. lts_run (lock_step False (spin_wait wt) cs k0) s tr (s\<lparr>lpcs := (lpcs s)[i := LTry]\<rparr>) \<and>
      length tr = Suc (nat (sint wt) - k) \<and> set tr \<subseteq> {LTau i}"
proof (induction "nat (sint wt) - k" arbitrary: k s)
  case 0
  then have "spin_wait wt (lflag s) k = None" by (simp add: spin_wait_def)
  then have "lock_step False (spin_wait wt) cs k0 s (LTau i) (s\<lparr>lpcs := (lpcs s)[i := LTry]\<rparr>)"
    by (rule wait_over [OF 0(2,3)])
  then have "lts_run (lock_step False (spin_wait wt) cs k0) s [LTau i] (s\<lparr>lpcs := (lpcs s)[i := LTry]\<rparr>)"
    by (rule lts_run_cons) (rule lts_run.run_nil)
  then show ?case using 0(1) by (intro exI [of _ "[LTau i]"]) simp
next
  case (Suc n)
  let ?s = "s\<lparr>lpcs := (lpcs s)[i := LBack (Suc k)]\<rparr>"
  have "spin_wait wt (lflag s) k = Some (Suc k)" using Suc.hyps(2) by (auto simp: spin_wait_def)
  from wait_more [OF Suc.prems, of "spin_wait wt", OF this, of False]
  have step: "lock_step False (spin_wait wt) cs k0 s (LTau i) ?s" .
  have "n = nat (sint wt) - Suc k" using Suc.hyps(2) by simp
  from Suc.hyps(1) [OF this, of ?s] Suc.prems obtain tr where
    "lts_run (lock_step False (spin_wait wt) cs k0) ?s tr (s\<lparr>lpcs := (lpcs s)[i := LTry]\<rparr>)"
    "length tr = Suc (nat (sint wt) - Suc k)" "set tr \<subseteq> {LTau i}" by auto
  with lts_run_cons [where step = "lock_step False (spin_wait wt) cs k0", OF step] Suc.hyps(2) show ?case by (intro exI [of _ "LTau i # tr"]) auto
qed

text \<open>Progress. A thread that wants a free lock and is left to run gets it after at most \<open>waitTime + 2\<close> steps of
  its own: the rest of its back-off and one exchange.\<close>

theorem free_lock_is_acquired:
  assumes "i < length (lpcs s)" "\<not> lflag s" "lpcs s ! i = LTry \<or> lpcs s ! i = LBack k"
  shows "\<exists>tr. lts_run (lock_step False (spin_wait wt) cs k0) s tr (s\<lparr>lflag := True, lpcs := (lpcs s)[i := LCrit k0]\<rparr>) \<and>
    length tr \<le> nat (sint wt) + 2 \<and> set tr \<subseteq> {LTau i, Acquire i}"
proof -
  let ?t = "s\<lparr>lpcs := (lpcs s)[i := LTry]\<rparr>"
  have won: "lock_step False (spin_wait wt) cs k0 ?t (Acquire i) (s\<lparr>lflag := True, lpcs := (lpcs s)[i := LCrit k0]\<rparr>)"
    using exchange_won [of i ?t False "spin_wait wt" cs k0] assms(1,2) by simp
  have "\<exists>tr. lts_run (lock_step False (spin_wait wt) cs k0) s tr ?t \<and> length tr \<le> nat (sint wt) + 1 \<and> set tr \<subseteq> {LTau i}"
  proof (cases "lpcs s ! i = LTry")
    case True
    then have "(lpcs s)[i := LTry] = lpcs s" by (metis list_update_id)
    then have "?t = s" by simp
    then show ?thesis using lts_run.run_nil [of "lock_step False (spin_wait wt) cs k0" s] by (intro exI [of _ "[]"]) simp
  next
    case False
    then have "lpcs s ! i = LBack k" using assms(3) by simp
    from backoff_runs_out [OF assms(1) this, of wt cs k0] show ?thesis by force
  qed
  then obtain tr where tr: "lts_run (lock_step False (spin_wait wt) cs k0) s tr ?t" "length tr \<le> nat (sint wt) + 1"
    "set tr \<subseteq> {LTau i}" by blast
  from lts_run.run_snoc [OF tr(1) won] tr(2,3) show ?thesis by (intro exI [of _ "tr @ [Acquire i]"]) auto
qed

theorem free_lock_is_acquired_witness:
  "\<exists>tr. lts_run (lock_step False (spin_wait 16) incr_cs None) \<lparr>lflag = False, ldata = 0, lpcs = [LBack 3]\<rparr> tr
      \<lparr>lflag = True, ldata = 0, lpcs = [LCrit None]\<rparr> \<and> length tr \<le> nat (sint (16 :: 64 word)) + 2"
  using free_lock_is_acquired [of 0 "\<lparr>lflag = False, ldata = 0, lpcs = [LBack 3]\<rparr>" 3 16 incr_cs None] by auto

end
