(* ===== verification/Thread_Pool.thy ===== *)
theory Thread_Pool
  imports Astra_Prelude
begin

text \<open>
  \<open>ThreadGate\<close>, \<open>Worker\<close> and \<open>ThreadPool\<close> (include/AstraLib/Threading/ThreadPool.hpp) as one machine:
  client threads that call \<open>assignTask\<close>, the dispatcher thread, \<open>THREAD_COUNT\<close> worker threads and
  the thread that runs the destructor. A step is one atomic action of one thread.

  \<^item> A \<open>std::function\<close> is \<open>Some\<close> of what it does or \<open>None\<close> when it is empty.
  \<^item> The flags of the gates and \<open>poolFlag\<close> only ever hold 0 and 1 and are truth values.
  \<^item> The task queue is the ticket protocol that \<open>AtomicRingBuffer\<close> implements (theory
    \<open>Ring_Concurrent\<close>): \<open>qvals\<close> are the values in the order of the write tickets, \<open>qpub\<close> says which
    are published, \<open>qread\<close> is the read ticket, \<open>qrel\<close> the number of released slots; the dispatcher is
    the only consumer.
  \<^item> The kernel is a parameter: \<open>kblock v\<close> says whether \<open>FUTEX_WAIT\<close> with the expected value 0 puts the
    caller to sleep when the flag is \<open>v\<close>; a sleeping thread wakes by \<open>FUTEX_WAKE\<close> or spuriously.
  \<^item> With \<open>tso\<close> the stores of the dispatcher to the flag of its own gate go through a store buffer, as
    release stores do on x86; without it all accesses are sequentially consistent.
\<close>

section \<open>State\<close>

datatype wpc = WLoop | WLoad | WFutex | WSleep | WCheck | WRun | WClear | WReset | WFree | WExited

record 'a Worker =
  wflag :: bool
  poolFlag :: bool
  wtask :: "'a option"
  wrunning :: bool
  wpc :: wpc

datatype cpc = CIdle | CWait nat | CPublish nat | CSignal nat | CWake

datatype 'a dpc =
    DLoop | DLoad | DFutex | DSleep
  | DInner | DInner2 | DDeq | DWaitPub nat
  | DScan "'a option" nat bool | DTask "'a option" | DGate | DWakeW
  | DEmpty | DReset | DRecheck | DSig | DSelfWake
  | DExited

datatype mpc = MAlive | MStore | MWake | MJoin | MWRun nat | MWStore nat | MWWake nat | MWJoin nat | MDone

record 'a ThreadPool =
  taskFlag :: bool
  dbuf :: "bool list"
  qvals :: "'a option list"
  qpub :: "bool list"
  qread :: nat
  qrel :: nat
  running :: bool
  lastIdDispatched :: nat
  dpc :: "'a dpc"
  workers :: "'a Worker list"
  clients :: "cpc list"
  mpc :: mpc

abbreviation THREAD_COUNT :: "'a ThreadPool \<Rightarrow> nat" where
  "THREAD_COUNT s \<equiv> length (workers s)"

definition new_Worker :: "'a Worker" where
  "new_Worker = \<lparr>wflag = False, poolFlag = False, wtask = None, wrunning = True, wpc = WLoop\<rparr>"

definition new_ThreadPool :: "nat \<Rightarrow> nat \<Rightarrow> 'a ThreadPool" where
  "new_ThreadPool n m = \<lparr>taskFlag = False, dbuf = [], qvals = [], qpub = [], qread = 0, qrel = 0, running = True,
     lastIdDispatched = 0, dpc = DLoop, workers = replicate n new_Worker, clients = replicate m CIdle, mpc = MAlive\<rparr>"

definition upd_worker :: "nat \<Rightarrow> ('a Worker \<Rightarrow> 'a Worker) \<Rightarrow> 'a ThreadPool \<Rightarrow> 'a ThreadPool" where
  "upd_worker i f s = s\<lparr>workers := (workers s)[i := f (workers s ! i)]\<rparr>"

section \<open>Gates\<close>

text \<open>A sleeping waiter woken by \<open>FUTEX_WAKE\<close> looks at the flag again.\<close>

definition wake_worker :: "nat \<Rightarrow> 'a ThreadPool \<Rightarrow> 'a ThreadPool" where
  "wake_worker i s = upd_worker i (\<lambda>w. if wpc w = WSleep then w\<lparr>wpc := WLoad\<rparr> else w) s"

fun wake_dpc :: "'a dpc \<Rightarrow> 'a dpc" where
  "wake_dpc DSleep = DLoad"
| "wake_dpc p = p"

definition wake_dispatcher :: "'a ThreadPool \<Rightarrow> 'a ThreadPool" where
  "wake_dispatcher s = s\<lparr>dpc := wake_dpc (dpc s)\<rparr>"

text \<open>The dispatcher's view of and stores to the flag of \<open>taskGate\<close>.\<close>

definition load_taskFlag :: "'a ThreadPool \<Rightarrow> bool" where
  "load_taskFlag s = (if dbuf s = [] then taskFlag s else last (dbuf s))"

definition store_taskFlag :: "bool \<Rightarrow> bool \<Rightarrow> 'a ThreadPool \<Rightarrow> 'a ThreadPool" where
  "store_taskFlag tso v s = (if tso then s\<lparr>dbuf := dbuf s @ [v]\<rparr> else s\<lparr>taskFlag := v\<rparr>)"

definition queue_isEmpty :: "'a ThreadPool \<Rightarrow> bool" where
  "queue_isEmpty s \<longleftrightarrow> length (qvals s) = qread s"

section \<open>The dispatcher\<close>

text \<open>
  One action of \<open>taskDispatcher\<close>. An operation that locks the bus or enters the kernel first waits
  for the store buffer to drain. \<open>DScan v start retry\<close> is the round-robin search for a free worker,
  in the first pass or in the retry loop; \<open>DTask\<close>, \<open>DGate\<close>, \<open>DWakeW\<close> are \<open>activateWorker\<close>.
\<close>

fun disp_exec :: "bool \<Rightarrow> (bool \<Rightarrow> bool) \<Rightarrow> 'a dpc \<Rightarrow> 'a ThreadPool \<Rightarrow> 'a ThreadPool" where
  "disp_exec tso kblock DLoop s = s\<lparr>dpc := (if running s then DLoad else DExited)\<rparr>"
| "disp_exec tso kblock DLoad s = s\<lparr>dpc := (if load_taskFlag s then DInner else DFutex)\<rparr>"
| "disp_exec tso kblock DFutex s =
     (if dbuf s = [] then s\<lparr>dpc := (if kblock (taskFlag s) then DSleep else DLoad)\<rparr> else s)"
| "disp_exec tso kblock DSleep s = s"
| "disp_exec tso kblock DInner s = s\<lparr>dpc := (if running s then DInner2 else DEmpty)\<rparr>"
| "disp_exec tso kblock DInner2 s = s\<lparr>dpc := (if queue_isEmpty s then DEmpty else DDeq)\<rparr>"
| "disp_exec tso kblock DDeq s =
     (if dbuf s = [] then s\<lparr>qread := Suc (qread s), dpc := DWaitPub (qread s)\<rparr> else s)"
| "disp_exec tso kblock (DWaitPub t) s =
     (if qpub s ! t then s\<lparr>qrel := Suc (qrel s), dpc := DScan (qvals s ! t) (lastIdDispatched s) False\<rparr> else s)"
| "disp_exec tso kblock (DScan v start retry) s =
     (let i = lastIdDispatched s in
      if dbuf s \<noteq> [] then s
      else if \<not> poolFlag (workers s ! i) then (upd_worker i (\<lambda>w. w\<lparr>poolFlag := True\<rparr>) s)\<lparr>dpc := DTask v\<rparr>
      else let i' = (i + 1) mod THREAD_COUNT s
           in s\<lparr>lastIdDispatched := i', dpc := DScan v start (retry \<or> i' = start)\<rparr>)"
| "disp_exec tso kblock (DTask v) s =
     (upd_worker (lastIdDispatched s) (\<lambda>w. w\<lparr>wtask := v\<rparr>) s)\<lparr>dpc := DGate\<rparr>"
| "disp_exec tso kblock DGate s =
     (upd_worker (lastIdDispatched s) (\<lambda>w. w\<lparr>wflag := True\<rparr>) s)\<lparr>dpc := DWakeW\<rparr>"
| "disp_exec tso kblock DWakeW s =
     (wake_worker (lastIdDispatched s) s)\<lparr>lastIdDispatched := (lastIdDispatched s + 1) mod THREAD_COUNT s, dpc := DInner\<rparr>"
| "disp_exec tso kblock DEmpty s = s\<lparr>dpc := (if queue_isEmpty s then DReset else DLoop)\<rparr>"
| "disp_exec tso kblock DReset s = (store_taskFlag tso False s)\<lparr>dpc := DRecheck\<rparr>"
| "disp_exec tso kblock DRecheck s = s\<lparr>dpc := (if queue_isEmpty s then DLoop else DSig)\<rparr>"
| "disp_exec tso kblock DSig s = (store_taskFlag tso True s)\<lparr>dpc := DSelfWake\<rparr>"
| "disp_exec tso kblock DSelfWake s = (if dbuf s = [] then s\<lparr>dpc := DLoop\<rparr> else s)"
| "disp_exec tso kblock DExited s = s"

section \<open>Workers\<close>

text \<open>One action of \<open>thread_loop\<close>.\<close>

fun worker_exec :: "(bool \<Rightarrow> bool) \<Rightarrow> wpc \<Rightarrow> 'a Worker \<Rightarrow> 'a Worker" where
  "worker_exec kblock WLoop w = w\<lparr>wpc := (if wrunning w then WLoad else WExited)\<rparr>"
| "worker_exec kblock WLoad w = w\<lparr>wpc := (if wflag w then WCheck else WFutex)\<rparr>"
| "worker_exec kblock WFutex w = w\<lparr>wpc := (if kblock (wflag w) then WSleep else WLoad)\<rparr>"
| "worker_exec kblock WSleep w = w"
| "worker_exec kblock WCheck w = w\<lparr>wpc := (case wtask w of Some _ \<Rightarrow> WRun | None \<Rightarrow> WLoop)\<rparr>"
| "worker_exec kblock WRun w = w\<lparr>wpc := WClear\<rparr>"
| "worker_exec kblock WClear w = w\<lparr>wtask := None, wpc := WReset\<rparr>"
| "worker_exec kblock WReset w = w\<lparr>wflag := False, wpc := WFree\<rparr>"
| "worker_exec kblock WFree w = w\<lparr>poolFlag := False, wpc := WLoop\<rparr>"
| "worker_exec kblock WExited w = w"

section \<open>Clients and the destructor\<close>

text \<open>\<open>assignTask\<close> after its \<open>fetch_add\<close> on the write ticket; \<open>cap\<close> is the capacity of the task queue, 1024.\<close>

fun client_exec :: "nat \<Rightarrow> nat \<Rightarrow> cpc \<Rightarrow> 'a ThreadPool \<Rightarrow> 'a ThreadPool" where
  "client_exec cap c CIdle s = s"
| "client_exec cap c (CWait t) s = (if t < qrel s + cap then s\<lparr>clients := (clients s)[c := CPublish t]\<rparr> else s)"
| "client_exec cap c (CPublish t) s = s\<lparr>qpub := (qpub s)[t := True], clients := (clients s)[c := CSignal t]\<rparr>"
| "client_exec cap c (CSignal t) s = s\<lparr>taskFlag := True, clients := (clients s)[c := CWake]\<rparr>"
| "client_exec cap c CWake s = (wake_dispatcher s)\<lparr>clients := (clients s)[c := CIdle]\<rparr>"

text \<open>
  \<open>~ThreadPool\<close>: stop and join the dispatcher, then the members are destroyed, the workers from the
  last to the first, each stopped and joined by \<open>~Worker\<close>.
\<close>

definition next_worker_dtor :: "nat \<Rightarrow> mpc" where
  "next_worker_dtor k = (case k of 0 \<Rightarrow> MDone | Suc j \<Rightarrow> MWRun j)"

fun main_exec :: "mpc \<Rightarrow> 'a ThreadPool \<Rightarrow> 'a ThreadPool" where
  "main_exec MAlive s = s\<lparr>running := False, mpc := MStore\<rparr>"
| "main_exec MStore s = s\<lparr>taskFlag := True, mpc := MWake\<rparr>"
| "main_exec MWake s = (wake_dispatcher s)\<lparr>mpc := MJoin\<rparr>"
| "main_exec MJoin s = (case dpc s of DExited \<Rightarrow> s\<lparr>mpc := next_worker_dtor (THREAD_COUNT s)\<rparr> | _ \<Rightarrow> s)"
| "main_exec (MWRun k) s = (upd_worker k (\<lambda>w. w\<lparr>wrunning := False\<rparr>) s)\<lparr>mpc := MWStore k\<rparr>"
| "main_exec (MWStore k) s = (upd_worker k (\<lambda>w. w\<lparr>wflag := True\<rparr>) s)\<lparr>mpc := MWWake k\<rparr>"
| "main_exec (MWWake k) s = (wake_worker k s)\<lparr>mpc := MWJoin k\<rparr>"
| "main_exec (MWJoin k) s = (if wpc (workers s ! k) = WExited then s\<lparr>mpc := next_worker_dtor k\<rparr> else s)"
| "main_exec MDone s = s"

section \<open>Steps\<close>

datatype 'a pool_ev = Submit nat "'a option" | Exec nat 'a | PTau

fun worker_event :: "nat \<Rightarrow> 'a Worker \<Rightarrow> 'a pool_ev" where
  "worker_event i w = (if wpc w = WRun then (case wtask w of Some v \<Rightarrow> Exec i v | None \<Rightarrow> PTau) else PTau)"

inductive pool_step :: "bool \<Rightarrow> (bool \<Rightarrow> bool) \<Rightarrow> nat \<Rightarrow> 'a ThreadPool \<Rightarrow> 'a pool_ev \<Rightarrow> 'a ThreadPool \<Rightarrow> bool"
  for tso kblock cap where
  call_assignTask: "c < length (clients s) \<Longrightarrow> clients s ! c = CIdle \<Longrightarrow> mpc s = MAlive \<Longrightarrow>
    pool_step tso kblock cap s (Submit c v)
      (s\<lparr>qvals := qvals s @ [v], qpub := qpub s @ [False], clients := (clients s)[c := CWait (length (qvals s))]\<rparr>)"
| client_run: "c < length (clients s) \<Longrightarrow> clients s ! c \<noteq> CIdle \<Longrightarrow>
    pool_step tso kblock cap s PTau (client_exec cap c (clients s ! c) s)"
| dispatcher_run: "pool_step tso kblock cap s PTau (disp_exec tso kblock (dpc s) s)"
| worker_run: "i < THREAD_COUNT s \<Longrightarrow>
    pool_step tso kblock cap s (worker_event i (workers s ! i)) (upd_worker i (worker_exec kblock (wpc (workers s ! i))) s)"
| destructor_run: "mpc s = MAlive \<longrightarrow> set (clients s) \<subseteq> {CIdle} \<Longrightarrow>
    pool_step tso kblock cap s PTau (main_exec (mpc s) s)"
| spurious_dispatcher: "pool_step tso kblock cap s PTau (wake_dispatcher s)"
| spurious_worker: "i < THREAD_COUNT s \<Longrightarrow> pool_step tso kblock cap s PTau (wake_worker i s)"
| drain: "dbuf s = v # vs \<Longrightarrow> pool_step tso kblock cap s PTau (s\<lparr>taskFlag := v, dbuf := vs\<rparr>)"

text \<open>The tasks submitted and the tasks executed in a run.\<close>

fun submit_of :: "'a pool_ev \<Rightarrow> 'a option list" where
  "submit_of (Submit c v) = [v]"
| "submit_of _ = []"

fun exec_of :: "'a pool_ev \<Rightarrow> 'a list" where
  "exec_of (Exec i v) = [v]"
| "exec_of _ = []"

definition submitted :: "'a pool_ev list \<Rightarrow> 'a option list" where "submitted tr = concat (map submit_of tr)"
definition executed :: "'a pool_ev list \<Rightarrow> 'a list" where "executed tr = concat (map exec_of tr)"

lemma pool_events_simps [simp]:
  "submitted [] = []" "executed [] = []"
  "submitted (tr @ [e]) = submitted tr @ submit_of e" "executed (tr @ [e]) = executed tr @ exec_of e"
  by (simp_all add: submitted_def executed_def)

end
