(* ===== verification/Thread_Pool_Safety.thy ===== *)
theory Thread_Pool_Safety
  imports Thread_Pool
begin

text \<open>
  Safety of the thread pool: the hand-over between the dispatcher and a worker never overlaps with
  the worker's own use of its task, and every task is executed at most once and never invented;
  with sequentially consistent or with buffered stores of the dispatcher, and during destruction.
\<close>

section \<open>Frame facts\<close>

lemma upd_worker_simps [simp]:
  "workers (upd_worker i f s) = (workers s)[i := f (workers s ! i)]"
  "taskFlag (upd_worker i f s) = taskFlag s" "dbuf (upd_worker i f s) = dbuf s"
  "qvals (upd_worker i f s) = qvals s" "qpub (upd_worker i f s) = qpub s"
  "qread (upd_worker i f s) = qread s" "qrel (upd_worker i f s) = qrel s"
  "running (upd_worker i f s) = running s" "lastIdDispatched (upd_worker i f s) = lastIdDispatched s"
  "dpc (upd_worker i f s) = dpc s" "clients (upd_worker i f s) = clients s" "mpc (upd_worker i f s) = mpc s"
  by (simp_all add: upd_worker_def)

lemma wake_worker_simps [simp]:
  "taskFlag (wake_worker i s) = taskFlag s" "dbuf (wake_worker i s) = dbuf s"
  "qvals (wake_worker i s) = qvals s" "qpub (wake_worker i s) = qpub s"
  "qread (wake_worker i s) = qread s" "qrel (wake_worker i s) = qrel s"
  "running (wake_worker i s) = running s" "lastIdDispatched (wake_worker i s) = lastIdDispatched s"
  "dpc (wake_worker i s) = dpc s" "clients (wake_worker i s) = clients s" "mpc (wake_worker i s) = mpc s"
  "THREAD_COUNT (wake_worker i s) = THREAD_COUNT s"
  by (simp_all add: wake_worker_def)

lemma wake_dispatcher_simps [simp]:
  "workers (wake_dispatcher s) = workers s" "taskFlag (wake_dispatcher s) = taskFlag s" "dbuf (wake_dispatcher s) = dbuf s"
  "qvals (wake_dispatcher s) = qvals s" "qpub (wake_dispatcher s) = qpub s"
  "qread (wake_dispatcher s) = qread s" "qrel (wake_dispatcher s) = qrel s"
  "running (wake_dispatcher s) = running s" "lastIdDispatched (wake_dispatcher s) = lastIdDispatched s"
  "dpc (wake_dispatcher s) = wake_dpc (dpc s)" "clients (wake_dispatcher s) = clients s" "mpc (wake_dispatcher s) = mpc s"
  by (simp_all add: wake_dispatcher_def)

lemma store_taskFlag_simps [simp]:
  "workers (store_taskFlag tso v s) = workers s"
  "qvals (store_taskFlag tso v s) = qvals s" "qpub (store_taskFlag tso v s) = qpub s"
  "qread (store_taskFlag tso v s) = qread s" "qrel (store_taskFlag tso v s) = qrel s"
  "running (store_taskFlag tso v s) = running s" "lastIdDispatched (store_taskFlag tso v s) = lastIdDispatched s"
  "dpc (store_taskFlag tso v s) = dpc s" "clients (store_taskFlag tso v s) = clients s" "mpc (store_taskFlag tso v s) = mpc s"
  by (simp_all add: store_taskFlag_def)

lemma client_exec_frame [simp]:
  "workers (client_exec cap c p s) = workers s" "lastIdDispatched (client_exec cap c p s) = lastIdDispatched s"
  "mpc (client_exec cap c p s) = mpc s" "running (client_exec cap c p s) = running s"
  "qvals (client_exec cap c p s) = qvals s" "qread (client_exec cap c p s) = qread s"
  by (cases p; simp)+

lemma client_exec_dpc: "dpc (client_exec cap c p s) = dpc s \<or> dpc (client_exec cap c p s) = wake_dpc (dpc s)"
  by (cases p) simp_all

section \<open>Hand-over of tasks to workers\<close>

fun waiting :: "wpc \<Rightarrow> bool" where
  "waiting WLoop = True"
| "waiting WLoad = True"
| "waiting WFutex = True"
| "waiting WSleep = True"
| "waiting _ = False"

text \<open>The dispatcher has won the worker with its compare-and-swap and has not yet opened its gate.\<close>

fun activates :: "'a dpc \<Rightarrow> bool" where
  "activates (DTask v) = True"
| "activates DGate = True"
| "activates _ = False"

lemma wake_dpc_simps [simp]:
  "wake_dpc p = DTask v \<longleftrightarrow> p = DTask v" "wake_dpc p = DExited \<longleftrightarrow> p = DExited"
  "DTask v = wake_dpc p \<longleftrightarrow> p = DTask v" "DExited = wake_dpc p \<longleftrightarrow> p = DExited"
  "activates (wake_dpc p) = activates p"
  by (cases p; auto)+

definition activating :: "'a ThreadPool \<Rightarrow> nat \<Rightarrow> bool" where
  "activating s i \<longleftrightarrow> activates (dpc s) \<and> lastIdDispatched s = i"

text \<open>
  A worker that is not marked busy waits, with a closed gate and without a task; a worker that is being
  activated waits with a closed gate; a busy worker with an open gate is on its way to its task or
  has it, and closes the gate before it frees itself.
\<close>

definition wphase :: "bool \<Rightarrow> 'a Worker \<Rightarrow> bool" where
  "wphase act w \<longleftrightarrow> wpc w \<noteq> WExited \<and>
     (\<not> poolFlag w \<longrightarrow> \<not> wflag w \<and> wtask w = None \<and> waiting (wpc w)) \<and>
     (act \<longrightarrow> poolFlag w \<and> \<not> wflag w \<and> waiting (wpc w)) \<and>
     (poolFlag w \<and> \<not> act \<longrightarrow>
        (if wflag w then waiting (wpc w) \<or> wpc w \<in> {WCheck, WRun, WClear} \<or> wpc w = WReset \<and> wtask w = None
         else wpc w = WFree \<and> wtask w = None))"

definition wok :: "bool \<Rightarrow> 'a Worker \<Rightarrow> bool" where
  "wok act w \<longleftrightarrow> (wpc w \<in> {WRun, WClear} \<longrightarrow> wtask w \<noteq> None) \<and> (wrunning w \<longrightarrow> wphase act w)"

fun destroys_workers :: "mpc \<Rightarrow> bool" where
  "destroys_workers (MWRun k) = True"
| "destroys_workers (MWStore k) = True"
| "destroys_workers (MWWake k) = True"
| "destroys_workers (MWJoin k) = True"
| "destroys_workers MDone = True"
| "destroys_workers _ = False"

fun dtor_worker :: "mpc \<Rightarrow> nat option" where
  "dtor_worker (MWRun k) = Some k"
| "dtor_worker (MWStore k) = Some k"
| "dtor_worker (MWWake k) = Some k"
| "dtor_worker (MWJoin k) = Some k"
| "dtor_worker _ = None"

definition handover_inv :: "'a ThreadPool \<Rightarrow> bool" where
  "handover_inv s \<longleftrightarrow> lastIdDispatched s < THREAD_COUNT s \<and>
     (\<forall>i < THREAD_COUNT s. wok (activating s i) (workers s ! i)) \<and>
     (\<forall>v. dpc s = DTask v \<longrightarrow> wtask (workers s ! lastIdDispatched s) = None) \<and>
     (destroys_workers (mpc s) \<longrightarrow> dpc s = DExited) \<and>
     (\<not> destroys_workers (mpc s) \<longrightarrow> (\<forall>i < THREAD_COUNT s. wrunning (workers s ! i))) \<and>
     (\<forall>k. dtor_worker (mpc s) = Some k \<longrightarrow> k < THREAD_COUNT s \<and> (mpc s \<noteq> MWRun k \<longrightarrow> \<not> wrunning (workers s ! k)))"

lemma wok_exec: "wok act w \<Longrightarrow> wok act (worker_exec kblock (wpc w) w)"
  by (cases "wpc w"; cases "wflag w") (auto simp: wok_def wphase_def split: option.splits)

lemma wok_wake: "wok act w \<Longrightarrow> wpc w = WSleep \<Longrightarrow> wok act (w\<lparr>wpc := WLoad\<rparr>)"
  by (auto simp: wok_def wphase_def)

lemma worker_exec_frame [simp]: "wrunning (worker_exec kblock p w) = wrunning w"
  by (cases p) simp_all

text \<open>Only the phase of one worker changes.\<close>

lemma handover_upd_worker:
  assumes "handover_inv s" "i < THREAD_COUNT s" "wok (activating s i) (f (workers s ! i))"
    and "wrunning (f (workers s ! i)) = wrunning (workers s ! i)"
    and "\<And>v. dpc s = DTask v \<Longrightarrow> i = lastIdDispatched s \<Longrightarrow> wtask (f (workers s ! i)) = None"
  shows "handover_inv (upd_worker i f s)"
  using assms by (auto simp: handover_inv_def activating_def nth_list_update)

lemma handover_wake_worker:
  assumes "handover_inv s" "i < THREAD_COUNT s"
  shows "handover_inv (wake_worker i s)"
  unfolding wake_worker_def
  by (rule handover_upd_worker [OF assms]) (use assms in \<open>auto simp: handover_inv_def intro: wok_wake\<close>)

lemma handover_worker_run:
  assumes "handover_inv s" "i < THREAD_COUNT s"
  shows "handover_inv (upd_worker i (worker_exec kblock (wpc (workers s ! i))) s)"
proof (rule handover_upd_worker [OF assms])
  show "wok (activating s i) (worker_exec kblock (wpc (workers s ! i)) (workers s ! i))"
    using assms by (auto simp: handover_inv_def intro: wok_exec)
  show "wtask (worker_exec kblock (wpc (workers s ! i)) (workers s ! i)) = None" if "dpc s = DTask v" "i = lastIdDispatched s" for v
    using assms that by (cases "wpc (workers s ! i)") (auto simp: handover_inv_def)
qed simp

text \<open>The dispatcher moves without touching a worker and without an activation on either side.\<close>

lemma handover_dpc:
  assumes "handover_inv s" "workers s' = workers s" "lastIdDispatched s' < THREAD_COUNT s" "mpc s' = mpc s"
    and "\<not> activates (dpc s)" "\<not> activates (dpc s')" "dpc s = DExited \<longrightarrow> dpc s' = DExited"
  shows "handover_inv s'"
  using assms by (auto simp: handover_inv_def activating_def)

lemma handover_same:
  assumes "handover_inv s" "workers s' = workers s" "lastIdDispatched s' = lastIdDispatched s" "mpc s' = mpc s"
    and "dpc s' = dpc s \<or> dpc s' = wake_dpc (dpc s)"
  shows "handover_inv s'"
proof -
  have "activates (dpc s') = activates (dpc s)" "dpc s' = DTask v \<longleftrightarrow> dpc s = DTask v" "dpc s' = DExited \<longleftrightarrow> dpc s = DExited" for v
    using assms(5) by auto
  then show ?thesis using assms(1-4) by (simp add: handover_inv_def activating_def)
qed

lemma handover_exited: "handover_inv s \<Longrightarrow> dpc s \<noteq> DExited \<Longrightarrow> i < THREAD_COUNT s \<Longrightarrow> wrunning (workers s ! i)"
  by (auto simp: handover_inv_def)

lemma handover_win:
  assumes inv: "handover_inv s" and pc: "dpc s = DScan v st r" and i: "i = lastIdDispatched s" "\<not> poolFlag (workers s ! i)"
  shows "handover_inv ((upd_worker i (\<lambda>w. w\<lparr>poolFlag := True\<rparr>) s)\<lparr>dpc := DTask v\<rparr>)"
proof -
  have lt: "i < THREAD_COUNT s" using inv i(1) by (simp add: handover_inv_def)
  have r: "wrunning (workers s ! i)" using handover_exited [OF inv _ lt] pc by simp
  then have "wphase False (workers s ! i)" using inv lt pc by (auto simp: handover_inv_def wok_def activating_def)
  then have "wok True ((workers s ! i)\<lparr>poolFlag := True\<rparr>)" "wtask (workers s ! i) = None"
    using i(2) r by (auto simp: wok_def wphase_def)
  moreover have "wok False (workers s ! j)" if "j < THREAD_COUNT s" for j
    using inv that pc by (auto simp: handover_inv_def activating_def)
  ultimately show ?thesis using inv pc i(1) lt
    by (auto simp: handover_inv_def activating_def nth_list_update)
qed

lemma handover_activation:
  assumes inv: "handover_inv s" and i: "i = lastIdDispatched s"
  shows "dpc s = DTask v \<Longrightarrow> handover_inv ((upd_worker i (\<lambda>w. w\<lparr>wtask := v\<rparr>) s)\<lparr>dpc := DGate\<rparr>)"
    "dpc s = DGate \<Longrightarrow> handover_inv ((upd_worker i (\<lambda>w. w\<lparr>wflag := True\<rparr>) s)\<lparr>dpc := DWakeW\<rparr>)"
proof -
  have lt: "i < THREAD_COUNT s" using inv i by (simp add: handover_inv_def)
  have r: "wrunning (workers s ! i)" if "dpc s \<noteq> DExited" using handover_exited [OF inv that lt] .
  have ph: "wok True (workers s ! i)" if "activates (dpc s)"
    using inv lt that i by (auto simp: handover_inv_def activating_def)
  have others: "wok False (workers s ! j)" if "j < THREAD_COUNT s" "j \<noteq> i" for j
    using inv that i by (auto simp: handover_inv_def activating_def)
  show "handover_inv ((upd_worker i (\<lambda>w. w\<lparr>wtask := v\<rparr>) s)\<lparr>dpc := DGate\<rparr>)" if "dpc s = DTask v"
  proof -
    have "wok True ((workers s ! i)\<lparr>wtask := v\<rparr>)" using ph r that by (auto simp: wok_def wphase_def)
    then show ?thesis using inv that i lt others
      by (auto simp: handover_inv_def activating_def nth_list_update)
  qed
  show "handover_inv ((upd_worker i (\<lambda>w. w\<lparr>wflag := True\<rparr>) s)\<lparr>dpc := DWakeW\<rparr>)" if "dpc s = DGate"
  proof -
    have "wok False ((workers s ! i)\<lparr>wflag := True\<rparr>)" using ph r that by (auto simp: wok_def wphase_def)
    then show ?thesis using inv that i lt others
      by (auto simp: handover_inv_def activating_def nth_list_update)
  qed
qed

lemma handover_dispatcher_run:
  assumes inv: "handover_inv s"
  shows "handover_inv (disp_exec tso kblock (dpc s) s)"
proof -
  have lt: "lastIdDispatched s < THREAD_COUNT s" using inv by (simp add: handover_inv_def)
  have nx: "(lastIdDispatched s + 1) mod THREAD_COUNT s < THREAD_COUNT s" using lt by (intro mod_less_divisor) linarith
  show ?thesis
  proof (cases "dpc s")
    case (DScan v st r)
    show ?thesis
    proof (cases "dbuf s = [] \<and> \<not> poolFlag (workers s ! lastIdDispatched s)")
      case True
      then show ?thesis using handover_win [OF inv DScan refl] DScan by simp
    next
      case False
      then show ?thesis using DScan lt nx inv by (auto simp: Let_def intro: handover_dpc [OF inv])
    qed
  next
    case (DTask v)
    then show ?thesis using handover_activation(1) [OF inv refl] by simp
  next
    case DGate
    then show ?thesis using handover_activation(2) [OF inv refl] by simp
  next
    case DWakeW
    have "handover_inv (wake_worker (lastIdDispatched s) s)" using inv lt by (rule handover_wake_worker)
    then show ?thesis
      by (rule handover_dpc) (use DWakeW nx in auto)
  qed (use lt inv in \<open>auto intro!: handover_dpc [OF inv]\<close>)
qed

lemma handover_main_run:
  assumes inv: "handover_inv s"
  shows "handover_inv (main_exec (mpc s) s)"
proof (cases "mpc s")
  case MWake
  then show ?thesis using inv by (auto simp: handover_inv_def activating_def)
next
  case MJoin
  then show ?thesis using inv
    by (auto simp: handover_inv_def activating_def next_worker_dtor_def split: dpc.splits nat.splits)
next
  case (MWRun k)
  moreover have "wpc (workers s ! k) \<in> {WRun, WClear} \<longrightarrow> wtask (workers s ! k) \<noteq> None"
    using inv MWRun by (auto simp: handover_inv_def wok_def)
  ultimately show ?thesis using inv
    by (auto simp: handover_inv_def activating_def nth_list_update) (auto simp: wok_def)
next
  case (MWStore k)
  then have "wok False ((workers s ! k)\<lparr>wflag := True\<rparr>)" using inv by (auto simp: handover_inv_def wok_def)
  then show ?thesis using inv MWStore by (auto simp: handover_inv_def activating_def nth_list_update)
next
  case (MWWake k)
  then have "k < THREAD_COUNT s" using inv by (simp add: handover_inv_def)
  then have "handover_inv (wake_worker k s)" using inv by (simp add: handover_wake_worker)
  then show ?thesis using MWWake by (auto simp: handover_inv_def activating_def)
next
  case (MWJoin k)
  then show ?thesis using inv by (auto simp: handover_inv_def activating_def next_worker_dtor_def split: nat.splits)
qed (use inv in \<open>auto simp: handover_inv_def activating_def\<close>)

lemma handover_step:
  assumes "handover_inv s" "pool_step tso kblock cap s e s'"
  shows "handover_inv s'"
  using assms(2)
proof cases
  case (client_run c)
  then show ?thesis
    using handover_same [OF assms(1), of "client_exec cap c (clients s ! c) s"] client_exec_dpc [of cap c "clients s ! c" s]
    by simp
next
  case dispatcher_run
  then show ?thesis using handover_dispatcher_run [OF assms(1)] by simp
next
  case (worker_run i)
  then show ?thesis using handover_worker_run [OF assms(1)] by simp
next
  case destructor_run
  then show ?thesis using handover_main_run [OF assms(1)] by simp
next
  case (spurious_worker i)
  then show ?thesis using handover_wake_worker [OF assms(1)] by simp
qed (use assms(1) in \<open>auto simp: handover_inv_def activating_def\<close>)

lemma handover_start: "0 < n \<Longrightarrow> handover_inv (new_ThreadPool n m)"
  by (simp add: handover_inv_def new_ThreadPool_def activating_def new_Worker_def wok_def wphase_def)

section \<open>Accounting of tasks\<close>

fun task_mset :: "'a option \<Rightarrow> 'a multiset" where
  "task_mset None = {#}"
| "task_mset (Some x) = {#x#}"

definition tasks :: "'a option list \<Rightarrow> 'a multiset" where
  "tasks vs = sum_list (map task_mset vs)"

text \<open>The task a worker still has to execute, and the task in the hands of the dispatcher.\<close>

definition pending :: "'a Worker \<Rightarrow> 'a multiset" where
  "pending w = (if wpc w = WClear then {#} else task_mset (wtask w))"

fun dispatching :: "'a option list \<Rightarrow> 'a dpc \<Rightarrow> 'a multiset" where
  "dispatching vs (DWaitPub t) = task_mset (vs ! t)"
| "dispatching vs (DScan v st r) = task_mset v"
| "dispatching vs (DTask v) = task_mset v"
| "dispatching vs _ = {#}"

definition all_pending :: "'a ThreadPool \<Rightarrow> 'a multiset" where
  "all_pending s = sum_list (map pending (workers s))"

definition account_inv :: "'a pool_ev list \<Rightarrow> 'a ThreadPool \<Rightarrow> bool" where
  "account_inv tr s \<longleftrightarrow> qvals s = submitted tr \<and> qread s \<le> length (qvals s) \<and>
     (dpc s = DDeq \<longrightarrow> qread s < length (qvals s)) \<and>
     (\<forall>t. dpc s = DWaitPub t \<longrightarrow> Suc t = qread s) \<and>
     tasks (take (qread s) (qvals s)) = mset (executed tr) + dispatching (qvals s) (dpc s) + all_pending s"

lemma all_pending_upd:
  assumes "i < THREAD_COUNT s"
  shows "all_pending (upd_worker i f s) + pending (workers s ! i) = all_pending s + pending (f (workers s ! i))"
  using sum_list_map_update [OF assms, of pending "f (workers s ! i)"] by (simp add: all_pending_def)

lemma all_pending_upd_same:
  assumes "pending (f (workers s ! i)) = pending (workers s ! i)"
  shows "all_pending (upd_worker i f s) = all_pending s"
proof (cases "i < THREAD_COUNT s")
  case True
  then show ?thesis using all_pending_upd [OF True, of f] assms by simp
next
  case False
  then show ?thesis by (simp add: all_pending_def list_update_beyond)
qed

lemma all_pending_cong: "workers s' = workers s \<Longrightarrow> all_pending s' = all_pending s"
  by (simp add: all_pending_def)

lemma all_pending_wake [simp]: "all_pending (wake_worker i s) = all_pending s"
  unfolding wake_worker_def by (rule all_pending_upd_same) (simp add: pending_def)

lemma tasks_take_Suc: "k < length vs \<Longrightarrow> tasks (take (Suc k) vs) = tasks (take k vs) + task_mset (vs ! k)"
  by (simp add: tasks_def take_Suc_conv_app_nth)

lemma account_worker_run:
  assumes acc: "account_inv tr s" and ho: "handover_inv s" and i: "i < THREAD_COUNT s"
  shows "account_inv (tr @ [worker_event i (workers s ! i)]) (upd_worker i (worker_exec kblock (wpc (workers s ! i))) s)"
proof -
  let ?w = "workers s ! i" and ?s = "upd_worker i (worker_exec kblock (wpc (workers s ! i))) s"
  have sub: "submit_of (worker_event i ?w) = []" by (auto split: option.splits)
  have ok: "wpc ?w \<in> {WRun, WClear} \<longrightarrow> wtask ?w \<noteq> None" using ho i by (auto simp: handover_inv_def wok_def)
  show ?thesis
  proof (cases "wpc ?w = WRun")
    case True
    then obtain v where v: "wtask ?w = Some v" using ok by auto
    have "all_pending s = add_mset v (all_pending ?s)"
      using all_pending_upd [OF i, of "worker_exec kblock WRun"] True v by (simp add: pending_def)
    then show ?thesis using acc sub True v by (auto simp: account_inv_def)
  next
    case False
    have "pending (worker_exec kblock (wpc ?w) ?w) = pending ?w"
      using False by (cases "wpc ?w") (auto simp: pending_def split: option.splits)
    then have "all_pending ?s = all_pending s" by (rule all_pending_upd_same)
    then show ?thesis using acc sub False by (auto simp: account_inv_def)
  qed
qed

lemma account_quiet:
  assumes "account_inv tr s" "qvals s' = qvals s" "qread s' = qread s" "all_pending s' = all_pending s"
    and "dispatching (qvals s) (dpc s') = dispatching (qvals s) (dpc s)"
    and "dpc s' = DDeq \<longrightarrow> qread s < length (qvals s)" "\<And>t. dpc s' = DWaitPub t \<Longrightarrow> Suc t = qread s"
  shows "account_inv (tr @ [PTau]) s'"
  using assms by (auto simp: account_inv_def)

lemma account_dispatcher_run:
  assumes acc: "account_inv tr s" and ho: "handover_inv s"
  shows "account_inv (tr @ [PTau]) (disp_exec tso kblock (dpc s) s)"
proof (cases "dpc s")
  case DInner2
  then show ?thesis using acc by (auto simp: queue_isEmpty_def account_inv_def all_pending_def)
next
  case DDeq
  have "tasks (take (Suc (qread s)) (qvals s)) = tasks (take (qread s) (qvals s)) + task_mset (qvals s ! qread s)"
    using acc DDeq by (intro tasks_take_Suc) (auto simp: account_inv_def)
  then show ?thesis using acc DDeq by (auto simp: account_inv_def all_pending_def)
next
  case (DWaitPub t)
  then show ?thesis using acc by (auto intro!: account_quiet [OF acc] simp: account_inv_def all_pending_def)
next
  case (DScan v st r)
  let ?i = "lastIdDispatched s"
  have "all_pending ((upd_worker ?i (\<lambda>w. w\<lparr>poolFlag := True\<rparr>) s)\<lparr>dpc := DTask v\<rparr>) = all_pending s"
    using all_pending_upd_same [of "\<lambda>w. w\<lparr>poolFlag := True\<rparr>" s ?i] by (simp add: pending_def all_pending_def)
  then show ?thesis using DScan by (auto intro!: account_quiet [OF acc] simp: Let_def all_pending_def)
next
  case (DTask v)
  let ?i = "lastIdDispatched s"
  have i: "?i < THREAD_COUNT s" "wtask (workers s ! ?i) = None" using ho DTask by (auto simp: handover_inv_def)
  then have "wrunning (workers s ! ?i)" using handover_exited [OF ho] DTask by simp
  then have "waiting (wpc (workers s ! ?i))"
    using ho i(1) DTask by (auto simp: handover_inv_def activating_def wok_def wphase_def)
  then have "wpc (workers s ! ?i) \<noteq> WClear" by auto
  then have "all_pending (upd_worker ?i (\<lambda>w. w\<lparr>wtask := v\<rparr>) s) = all_pending s + task_mset v"
    using all_pending_upd [OF i(1), of "\<lambda>w. w\<lparr>wtask := v\<rparr>"] i(2) by (simp add: pending_def)
  then show ?thesis using acc DTask by (auto simp: account_inv_def all_pending_def ac_simps)
next
  case DGate
  have "all_pending (upd_worker (lastIdDispatched s) (\<lambda>w. w\<lparr>wflag := True\<rparr>) s) = all_pending s"
    by (rule all_pending_upd_same) (simp add: pending_def)
  then show ?thesis using DGate by (auto intro!: account_quiet [OF acc] simp: all_pending_def)
next
  case DWakeW
  have "all_pending (wake_worker (lastIdDispatched s) s) = all_pending s" by simp
  then show ?thesis using DWakeW by (auto intro!: account_quiet [OF acc] simp: all_pending_def)
qed (use acc in \<open>auto intro!: account_quiet [OF acc] all_pending_cong simp: account_inv_def\<close>)

lemma account_main_run:
  assumes acc: "account_inv tr s"
  shows "account_inv (tr @ [PTau]) (main_exec (mpc s) s)"
proof (cases "mpc s")
  case MWake
  then show ?thesis using acc
    by (intro account_quiet [OF acc]) (cases "dpc s"; auto simp: account_inv_def all_pending_def)+
next
  case (MWRun k)
  have "all_pending (upd_worker k (\<lambda>w. w\<lparr>wrunning := False\<rparr>) s) = all_pending s"
    by (rule all_pending_upd_same) (simp add: pending_def)
  then show ?thesis using acc MWRun by (auto simp: account_inv_def all_pending_def)
next
  case (MWStore k)
  have "all_pending (upd_worker k (\<lambda>w. w\<lparr>wflag := True\<rparr>) s) = all_pending s"
    by (rule all_pending_upd_same) (simp add: pending_def)
  then show ?thesis using acc MWStore by (auto simp: account_inv_def all_pending_def)
next
  case (MWWake k)
  have "all_pending (wake_worker k s) = all_pending s" by simp
  then show ?thesis using acc MWWake by (auto simp: account_inv_def all_pending_def)
qed (use acc in \<open>auto simp: account_inv_def all_pending_def split: dpc.splits\<close>)


lemma wake_dpc_account:
  "dispatching vs (wake_dpc p) = dispatching vs p" "wake_dpc p = DDeq \<longleftrightarrow> p = DDeq" "wake_dpc p = DWaitPub t \<longleftrightarrow> p = DWaitPub t"
  by (cases p; simp)+

lemma account_step:
  assumes "account_inv tr s" "handover_inv s" "pool_step tso kblock cap s e s'"
  shows "account_inv (tr @ [e]) s'"
  using assms(3)
proof cases
  case (call_assignTask c v)
  have "dispatching (qvals s @ [v]) (dpc s) = dispatching (qvals s) (dpc s)"
    using assms(1) by (cases "dpc s") (auto simp: account_inv_def nth_append)
  then show ?thesis using assms(1) call_assignTask by (auto simp: account_inv_def all_pending_def)
next
  case (client_run c)
  let ?s = "client_exec cap c (clients s ! c) s"
  have "account_inv (tr @ [PTau]) ?s"
  proof (rule account_quiet [OF assms(1)])
    note wk = client_exec_dpc [of cap c "clients s ! c" s] wake_dpc_account
    show "dispatching (qvals s) (dpc ?s) = dispatching (qvals s) (dpc s)" using wk by metis
    show "dpc ?s = DDeq \<longrightarrow> qread s < length (qvals s)" using wk assms(1) by (metis account_inv_def)
    show "dpc ?s = DWaitPub t \<Longrightarrow> Suc t = qread s" for t using wk assms(1) by (metis account_inv_def)
  qed (simp_all add: all_pending_def)
  then show ?thesis using client_run by simp
next
  case dispatcher_run
  then show ?thesis using account_dispatcher_run [OF assms(1,2)] by simp
next
  case (worker_run i)
  then show ?thesis using account_worker_run [OF assms(1,2)] by simp
next
  case destructor_run
  then show ?thesis using account_main_run [OF assms(1)] by simp
next
  case spurious_dispatcher
  then show ?thesis using assms(1)
    by (cases "dpc s") (auto simp: account_inv_def all_pending_def)
next
  case (spurious_worker i)
  then show ?thesis using assms(1) by (auto simp: account_inv_def)
next
  case (drain v vs)
  then show ?thesis using assms(1) by (auto simp: account_inv_def all_pending_def)
qed

definition pool_safe :: "'a pool_ev list \<Rightarrow> 'a ThreadPool \<Rightarrow> bool" where
  "pool_safe tr s \<longleftrightarrow> handover_inv s \<and> account_inv tr s"

definition pool_initial :: "'a ThreadPool \<Rightarrow> bool" where
  "pool_initial s \<longleftrightarrow> (\<exists>n m. 0 < n \<and> s = new_ThreadPool n m)"

lemma pool_safe_start: "0 < n \<Longrightarrow> pool_safe [] (new_ThreadPool n m)"
proof -
  have "sum_list (map pending (replicate n (new_Worker :: 'a Worker))) = {#}"
    by (induction n) (simp_all add: pending_def new_Worker_def)
  then show "0 < n \<Longrightarrow> pool_safe [] (new_ThreadPool n m :: 'a ThreadPool)"
    using handover_start [of n m] by (simp add: pool_safe_def account_inv_def all_pending_def new_ThreadPool_def tasks_def)
qed

interpretation poolm: lts_invariant "pool_step tso kblock cap" pool_initial pool_safe
  for tso kblock cap
  by unfold_locales (auto simp: pool_safe_def pool_initial_def intro: handover_step account_step
      pool_safe_start [unfolded pool_safe_def, THEN conjunct1] pool_safe_start [unfolded pool_safe_def, THEN conjunct2])

lemma pool_reachable:
  assumes "0 < n" "lts_run (pool_step tso kblock cap) (new_ThreadPool n m) tr s"
  shows "handover_inv s" "account_inv tr s"
  using poolm.inv_run [OF assms(2)] assms(1) by (auto simp: pool_safe_def pool_initial_def)

lemma tasks_append: "tasks (xs @ ys) = tasks xs + tasks ys"
  by (simp add: tasks_def)

lemma disp_exec_size [simp]: "THREAD_COUNT (disp_exec tso kblock p s) = THREAD_COUNT s"
  by (cases p) (simp_all add: Let_def)

lemma main_exec_size [simp]: "THREAD_COUNT (main_exec p s) = THREAD_COUNT s"
  by (cases p) (simp_all split: dpc.splits)

lemma pool_step_size: "pool_step tso kblock cap s e s' \<Longrightarrow> THREAD_COUNT s' = THREAD_COUNT s"
  by (cases rule: pool_step.cases) auto

lemma pool_run_size: "lts_run (pool_step tso kblock cap) (new_ThreadPool n m) tr s \<Longrightarrow> THREAD_COUNT s = n"
  by (induction rule: lts_run.induct) (simp_all add: new_ThreadPool_def pool_step_size)

lemma pool_at_most_once:
  assumes "0 < n" "lts_run (pool_step tso kblock cap) (new_ThreadPool n m) tr s"
  shows "mset (executed tr) \<subseteq># tasks (submitted tr)"
proof -
  have acc: "account_inv tr s" using pool_reachable(2) [OF assms] .
  have "tasks (submitted tr) = tasks (take (qread s) (qvals s)) + tasks (drop (qread s) (qvals s))"
    using acc by (simp add: account_inv_def flip: tasks_append)
  then show ?thesis using acc by (auto simp: account_inv_def)
qed

section \<open>Executable schedules\<close>

datatype 'a pool_act = PSubmit nat "'a option" | PClient nat | PDisp | PWork nat | PDrain

definition pool_submit :: "nat \<Rightarrow> 'a option \<Rightarrow> 'a ThreadPool \<Rightarrow> 'a ThreadPool" where
  "pool_submit c v s =
     s\<lparr>qvals := qvals s @ [v], qpub := qpub s @ [False], clients := (clients s)[c := CWait (length (qvals s))]\<rparr>"

fun pool_do :: "bool \<Rightarrow> (bool \<Rightarrow> bool) \<Rightarrow> nat \<Rightarrow> 'a pool_act \<Rightarrow> 'a ThreadPool \<Rightarrow> ('a pool_ev \<times> 'a ThreadPool) option" where
  "pool_do tso kblock cap (PSubmit c v) s =
     (if c < length (clients s) \<and> clients s ! c = CIdle \<and> mpc s = MAlive then Some (Submit c v, pool_submit c v s) else None)"
| "pool_do tso kblock cap (PClient c) s =
     (if c < length (clients s) \<and> clients s ! c \<noteq> CIdle then Some (PTau, client_exec cap c (clients s ! c) s) else None)"
| "pool_do tso kblock cap PDisp s = Some (PTau, disp_exec tso kblock (dpc s) s)"
| "pool_do tso kblock cap (PWork i) s =
     (if i < THREAD_COUNT s
      then Some (worker_event i (workers s ! i), upd_worker i (worker_exec kblock (wpc (workers s ! i))) s) else None)"
| "pool_do tso kblock cap PDrain s =
     (case dbuf s of [] \<Rightarrow> None | v # vs \<Rightarrow> Some (PTau, s\<lparr>taskFlag := v, dbuf := vs\<rparr>))"

fun pool_script :: "bool \<Rightarrow> (bool \<Rightarrow> bool) \<Rightarrow> nat \<Rightarrow> 'a pool_act list \<Rightarrow> 'a ThreadPool \<Rightarrow> ('a pool_ev list \<times> 'a ThreadPool) option" where
  "pool_script tso kblock cap [] s = Some ([], s)"
| "pool_script tso kblock cap (a # as) s =
     (case pool_do tso kblock cap a s of
        None \<Rightarrow> None
      | Some (e, s1) \<Rightarrow> map_option (\<lambda>(tr, s2). (e # tr, s2)) (pool_script tso kblock cap as s1))"

lemma pool_do_step: "pool_do tso kblock cap a s = Some (e, s') \<Longrightarrow> pool_step tso kblock cap s e s'"
  by (cases a) (auto simp del: worker_event.simps simp: pool_submit_def split: if_splits list.splits intro: pool_step.intros)

lemma pool_script_run:
  "pool_script tso kblock cap as s = Some (tr, s') \<Longrightarrow> lts_run (pool_step tso kblock cap) s tr s'"
proof (induction "as" arbitrary: s tr)
  case Nil
  then show ?case by (auto intro: lts_run.run_nil)
next
  case (Cons a "as")
  then show ?case by (auto split: option.splits intro: lts_run_cons pool_do_step)
qed

text \<open>One client submits a task to a pool of one worker, which executes it.\<close>

definition one_task :: "int pool_act list" where
  "one_task = [PSubmit 0 (Some 7), PClient 0, PClient 0, PClient 0, PClient 0] @ replicate 8 PDisp @
     [PWork 0, PWork 0, PWork 0, PDisp, PDisp, PDisp] @ replicate 9 (PWork 0) @ replicate 7 PDisp"

lemma one_task_run:
  obtains tr s where "lts_run (pool_step False Not 1024) (new_ThreadPool 1 1) tr s"
    "submitted tr = [Some (7 :: int)]" "executed tr = [7]" "dpc s = DSleep" "map wpc (workers s) = [WSleep]"
    "clients s = [CIdle]" "mpc s = MAlive"
proof -
  have "map_option (\<lambda>(tr, s). (submitted tr, executed tr, dpc s, map wpc (workers s), clients s, mpc s))
      (pool_script False Not 1024 one_task (new_ThreadPool 1 1)) =
    Some ([Some 7], [7], DSleep, [WSleep], [CIdle], MAlive)"
    by code_simp
  then obtain tr s where "pool_script False Not 1024 one_task (new_ThreadPool 1 1) = Some (tr, s)"
    "submitted tr = [Some 7]" "executed tr = [7]" "dpc s = DSleep" "map wpc (workers s) = [WSleep]"
    "clients s = [CIdle]" "mpc s = MAlive"
    by (auto simp del: pool_script.simps)
  from that [OF pool_script_run [OF this(1)] this(2-7)] show ?thesis .
qed

section \<open>Properties\<close>

text \<open>At most once. In every interleaving, also during destruction and also with a store buffer, the
  tasks executed so far are a sub-multiset of the tasks submitted: no task is run twice or made up.\<close>

theorem tasks_run_at_most_once:
  assumes "0 < n" "lts_run (pool_step tso kblock cap) (new_ThreadPool n m) tr s"
  shows "mset (executed tr) \<subseteq># tasks (submitted tr)"
  using assms by (rule pool_at_most_once)

theorem tasks_run_at_most_once_witness: "mset [7 :: int] \<subseteq># tasks [Some 7]"
proof -
  obtain tr and s :: "int ThreadPool" where "lts_run (pool_step False Not 1024) (new_ThreadPool 1 1) tr s"
    "submitted tr = [Some 7]" "executed tr = [7]"
    by (rule one_task_run)
  with tasks_run_at_most_once [of 1 False Not 1024 1 tr s] show ?thesis by simp
qed



section \<open>An empty task\<close>

text \<open>
  A worker that was activated with an empty \<open>std::function\<close>: its gate is open, it is marked busy and it
  has no task.
\<close>

definition lost_worker :: "'a ThreadPool \<Rightarrow> nat \<Rightarrow> bool" where
  "lost_worker s i \<longleftrightarrow> i < THREAD_COUNT s \<and> \<not> activating s i \<and> \<not> destroys_workers (mpc s) \<and>
     wflag (workers s ! i) \<and> poolFlag (workers s ! i) \<and> wtask (workers s ! i) = None \<and>
     (waiting (wpc (workers s ! i)) \<or> wpc (workers s ! i) = WCheck)"

lemma lost_worker_disp:
  assumes "lost_worker s i" "handover_inv s"
  shows "lost_worker (disp_exec tso kblock (dpc s) s) i"
proof -
  have lt: "lastIdDispatched s < THREAD_COUNT s" using assms(2) by (simp add: handover_inv_def)
  show ?thesis
  proof (cases "dpc s")
    case DWakeW
    then show ?thesis using assms(1) lt
      by (auto simp: lost_worker_def activating_def wake_worker_def nth_list_update)
  qed (use assms(1) lt in \<open>auto simp: lost_worker_def activating_def nth_list_update Let_def\<close>)
qed

lemma lost_worker_step:
  assumes lost: "lost_worker s i" and ho: "handover_inv s" and st: "pool_step tso kblock cap s e s'"
    and alive: "\<not> destroys_workers (mpc s')"
  shows "lost_worker s' i"
  using st
proof cases
  case (client_run c)
  then show ?thesis using lost client_exec_dpc [of cap c "clients s ! c" s]
    by (auto simp: lost_worker_def activating_def)
next
  case dispatcher_run
  then show ?thesis using lost_worker_disp [OF lost ho] by simp
next
  case (worker_run j)
  show ?thesis
  proof (cases "j = i")
    case True
    have "wpc (workers s ! i) = WCheck \<or> waiting (wpc (workers s ! i))" "wrunning (workers s ! i)"
      using lost ho by (auto simp: lost_worker_def handover_inv_def)
    then show ?thesis using worker_run lost True
      by (cases "wpc (workers s ! i)") (auto simp: lost_worker_def activating_def nth_list_update)
  qed (use worker_run lost in \<open>auto simp: lost_worker_def activating_def nth_list_update\<close>)
next
  case destructor_run
  then show ?thesis using lost alive by (cases "mpc s") (auto simp: lost_worker_def activating_def split: dpc.splits)
next
  case (spurious_worker j)
  then show ?thesis using lost by (auto simp: lost_worker_def activating_def wake_worker_def nth_list_update)
qed (use lost in \<open>auto simp: lost_worker_def activating_def\<close>)

lemma main_exec_not_alive: "mpc (main_exec (mpc s) s) \<noteq> MAlive"
  by (cases "mpc s") (auto simp: next_worker_dtor_def split: nat.splits dpc.splits)

lemma disp_exec_mpc [simp]: "mpc (disp_exec tso kblock p s) = mpc s"
  by (cases p) (simp_all add: Let_def)

lemma alive_before: "pool_step tso kblock cap s e s' \<Longrightarrow> mpc s' = MAlive \<Longrightarrow> mpc s = MAlive"
  by (cases rule: pool_step.cases) (auto simp: main_exec_not_alive)

lemma lost_worker_run:
  "lts_run (pool_step tso kblock cap) s tr s' \<Longrightarrow> lost_worker s i \<Longrightarrow> handover_inv s \<Longrightarrow> mpc s' = MAlive \<Longrightarrow>
    lost_worker s' i \<and> handover_inv s'"
proof (induction rule: lts_run.induct)
  case (run_snoc tr s1 e s2)
  then have "lost_worker s1 i" "handover_inv s1" using alive_before by blast+
  with run_snoc.hyps(2) run_snoc.prems(3) show ?case
    using lost_worker_step handover_step by (metis destroys_workers.simps(6))
qed simp

text \<open>An empty task costs a worker. Once a worker has been activated with an empty \<open>std::function\<close>, then for as long as
  the pool lives it never becomes free again: it keeps running through its open gate, and the
  dispatcher can never give it another task.\<close>

theorem empty_task_loses_worker:
  assumes "0 < n" "lts_run (pool_step tso kblock cap) (new_ThreadPool n m) tr s" "lost_worker s i"
    and "lts_run (pool_step tso kblock cap) s tr' s'" "mpc s' = MAlive"
  shows "lost_worker s' i \<and> poolFlag (workers s' ! i) \<and> wtask (workers s' ! i) = None"
  using lost_worker_run [OF assms(4,3) pool_reachable(1) [OF assms(1,2)] assms(5)] by (simp add: lost_worker_def)

text \<open>A pool of one worker after an empty task was submitted and handed over.\<close>

lemma empty_task_run:
  obtains tr and s :: "int ThreadPool" where "lts_run (pool_step False Not 1024) (new_ThreadPool 1 1) tr s"
    "submitted tr = [None]" "lost_worker s 0" "mpc s = MAlive"
proof -
  let ?as = "[PSubmit 0 (None :: int option), PClient 0, PClient 0, PClient 0, PClient 0] @ replicate 9 PDisp"
  have "map_option (\<lambda>(tr, s). (submitted tr, lost_worker s 0, mpc s))
      (pool_script False Not 1024 ?as (new_ThreadPool 1 1)) = Some ([None], True, MAlive)"
    by code_simp
  then obtain tr s where "pool_script False Not 1024 ?as (new_ThreadPool 1 1) = Some (tr, s)"
    "submitted tr = [None]" "lost_worker s 0" "mpc s = MAlive"
    by (auto simp del: pool_script.simps)
  from that [OF pool_script_run [OF this(1)] this(2-4)] show ?thesis .
qed

theorem empty_task_loses_worker_witness:
  "\<exists>(tr :: int pool_ev list) (s :: int ThreadPool). submitted tr = [None] \<and> lost_worker s 0 \<and> poolFlag (workers s ! 0)"
proof -
  obtain tr and s :: "int ThreadPool" where s: "lts_run (pool_step False Not 1024) (new_ThreadPool 1 1) tr s"
    "submitted tr = [None]" "lost_worker s 0" "mpc s = MAlive"
    by (rule empty_task_run)
  from empty_task_loses_worker [OF zero_less_one s(1,3) lts_run.run_nil s(4)] s(2) show ?thesis by blast
qed

section \<open>Well-formed states\<close>

text \<open>The write ticket a client holds.\<close>

fun ticket_of :: "cpc \<Rightarrow> nat option" where
  "ticket_of (CWait t) = Some t"
| "ticket_of (CPublish t) = Some t"
| "ticket_of (CSignal t) = Some t"
| "ticket_of _ = None"

definition tickets_inv :: "'a ThreadPool \<Rightarrow> bool" where
  "tickets_inv s \<longleftrightarrow> length (qpub s) = length (qvals s) \<and>
     (\<forall>c < length (clients s). \<forall>t. ticket_of (clients s ! c) = Some t \<longrightarrow> t < length (qvals s))"

lemma tickets_step:
  assumes inv: "tickets_inv s" and st: "pool_step tso kblock cap s e s'"
  shows "tickets_inv s' \<and> length (clients s') = length (clients s)"
  using st
proof cases
  case (call_assignTask c v)
  then show ?thesis using inv by (auto simp: tickets_inv_def nth_list_update less_Suc_eq)
next
  case (client_run c)
  then show ?thesis using inv
    by (cases "clients s ! c") (auto simp: tickets_inv_def nth_list_update)
next
  case dispatcher_run
  have "qpub s' = qpub s \<and> qvals s' = qvals s \<and> clients s' = clients s"
    using dispatcher_run by (cases "dpc s") (simp_all add: Let_def)
  then show ?thesis using inv by (simp add: tickets_inv_def)
next
  case destructor_run
  have "qpub s' = qpub s \<and> qvals s' = qvals s \<and> clients s' = clients s"
    using destructor_run by (cases "mpc s") (simp_all split: dpc.splits)
  then show ?thesis using inv by (simp add: tickets_inv_def)
qed (use inv in \<open>auto simp: tickets_inv_def\<close>)

lemma tickets_run:
  "lts_run (pool_step tso kblock cap) (new_ThreadPool n m) tr s \<Longrightarrow> tickets_inv s \<and> length (clients s) = m"
proof (induction rule: lts_run.induct)
  case run_nil
  show ?case by (simp add: tickets_inv_def new_ThreadPool_def)
next
  case (run_snoc tr s e s')
  then show ?case using tickets_step by metis
qed

text \<open>C8: Well-formed states. In every reachable state, also during destruction, the pool has its \<open>n\<close> workers and \<open>m\<close> clients, and every access the next step of a thread makes is in
  range: the dispatcher to \<open>threads[id]\<close> and \<open>threadFlags[id]\<close>, the destructor to the worker it stops, the
  dispatcher and the clients to the slots of their tickets. A ticket that the dispatcher reads has been handed out.\<close>

theorem pool_states_well_formed:
  assumes "0 < n" "lts_run (pool_step tso kblock cap) (new_ThreadPool n m) tr s"
  shows "THREAD_COUNT s = n \<and> length (clients s) = m \<and> lastIdDispatched s < n \<and>
    (\<forall>k. dtor_worker (mpc s) = Some k \<longrightarrow> k < n) \<and>
    length (qpub s) = length (qvals s) \<and> qread s \<le> length (qvals s) \<and>
    (\<forall>t. dpc s = DWaitPub t \<longrightarrow> t < length (qvals s)) \<and>
    (\<forall>c < m. \<forall>t. ticket_of (clients s ! c) = Some t \<longrightarrow> t < length (qvals s))"
proof -
  have "handover_inv s" "account_inv tr s" using pool_reachable [OF assms] by auto
  moreover have "THREAD_COUNT s = n" using pool_run_size [OF assms(2)] .
  ultimately show ?thesis using tickets_run [OF assms(2)]
    by (auto simp: tickets_inv_def handover_inv_def account_inv_def)
qed

theorem pool_states_well_formed_witness:
  "\<exists>s :: int ThreadPool. THREAD_COUNT s = 1 \<and> lastIdDispatched s < 1 \<and> length (qpub s) = length (qvals s) \<and> dpc s = DSleep"
proof -
  obtain tr and s :: "int ThreadPool" where s: "lts_run (pool_step False Not 1024) (new_ThreadPool 1 1) tr s" "dpc s = DSleep"
    by (rule one_task_run)
  from pool_states_well_formed [OF zero_less_one s(1)] s(2) show ?thesis by (intro exI [of _ s]) simp
qed

end
