(* ===== verification/Thread_Pool_Wakeup.thy ===== *)
theory Thread_Pool_Wakeup
  imports Thread_Pool_Safety
begin

text \<open>
  Wake-ups of the thread pool. With sequentially consistent accesses no wake-up is lost: whenever the
  dispatcher or a worker sleeps although its flag is set, a \<open>FUTEX_WAKE\<close> for it is on its way, and
  the dispatcher never sleeps on a task whose submission is complete. The only fact used of the
  kernel is that \<open>FUTEX_WAIT\<close> does not block when the flag differs from the expected value. With the
  dispatcher's stores in a store buffer, as x86 has, the check after the reset can read the ticket
  before the reset is visible, and a wake-up can be lost.
\<close>

section \<open>The invariant\<close>

fun dwaits :: "'a dpc \<Rightarrow> bool" where
  "dwaits DLoop = True"
| "dwaits DLoad = True"
| "dwaits DFutex = True"
| "dwaits DSleep = True"
| "dwaits _ = False"

fun saw_flag :: "'a dpc \<Rightarrow> bool" where
  "saw_flag DLoop = False"
| "saw_flag DLoad = False"
| "saw_flag DFutex = False"
| "saw_flag DSleep = False"
| "saw_flag DRecheck = False"
| "saw_flag DSig = False"
| "saw_flag DExited = False"
| "saw_flag _ = True"

text \<open>A client that holds write ticket \<open>t\<close> and has not yet set the flag.\<close>

fun unsignalled :: "cpc \<Rightarrow> nat \<Rightarrow> bool" where
  "unsignalled (CWait t) u = (t = u)"
| "unsignalled (CPublish t) u = (t = u)"
| "unsignalled (CSignal t) u = (t = u)"
| "unsignalled _ u = False"

definition unread_unsignalled :: "'a ThreadPool \<Rightarrow> bool" where
  "unread_unsignalled s \<longleftrightarrow>
     (\<forall>t. qread s \<le> t \<and> t < length (qvals s) \<longrightarrow> (\<exists>p \<in> set (clients s). unsignalled p t))"

definition gate_inv :: "'a ThreadPool \<Rightarrow> bool" where
  "gate_inv s \<longleftrightarrow> dbuf s = [] \<and> (saw_flag (dpc s) \<longrightarrow> taskFlag s) \<and>
     (dwaits (dpc s) \<and> \<not> taskFlag s \<longrightarrow> unread_unsignalled s) \<and>
     (dpc s = DSleep \<and> taskFlag s \<longrightarrow> CWake \<in> set (clients s) \<or> mpc s = MWake)"

definition sleepers_inv :: "'a ThreadPool \<Rightarrow> bool" where
  "sleepers_inv s \<longleftrightarrow> (\<forall>i < THREAD_COUNT s. wpc (workers s ! i) = WSleep \<and> wflag (workers s ! i) \<longrightarrow>
     dpc s = DWakeW \<and> lastIdDispatched s = i \<or> mpc s = MWWake i)"

lemma wake_dpc_gate [simp]:
  "dwaits (wake_dpc p) = dwaits p" "saw_flag (wake_dpc p) = saw_flag p" "wake_dpc p \<noteq> DSleep"
  by (cases p; simp)+

lemma gate_inv_frame:
  assumes "gate_inv s" "dbuf s' = dbuf s" "taskFlag s' = taskFlag s" "dpc s' = dpc s" "qread s' = qread s"
    "qvals s' = qvals s" "clients s' = clients s" "mpc s = MWake \<longrightarrow> mpc s' = MWake"
  shows "gate_inv s'"
  using assms by (auto simp: gate_inv_def unread_unsignalled_def)

lemma unread_unsignalled_client:
  assumes "unread_unsignalled s" "qread s' = qread s" "qvals s' = qvals s" "clients s' = (clients s)[c := p]"
    and "\<And>t. unsignalled (clients s ! c) t \<Longrightarrow> unsignalled p t" "c < length (clients s)"
  shows "unread_unsignalled s'"
  unfolding unread_unsignalled_def
proof (intro allI impI)
  fix t assume "qread s' \<le> t \<and> t < length (qvals s')"
  then obtain q where q: "q \<in> set (clients s)" "unsignalled q t"
    using assms(1-3) by (auto simp: unread_unsignalled_def)
  show "\<exists>p \<in> set (clients s'). unsignalled p t"
  proof (cases "q = clients s ! c")
    case True
    then show ?thesis using q(2) assms(4-6) by (auto intro!: bexI [of _ p] set_update_memI)
  next
    case False
    then show ?thesis using q assms(4) by (auto intro: in_set_update_other)
  qed
qed

lemma gate_client_run:
  assumes inv: "gate_inv s" and c: "c < length (clients s)"
  shows "gate_inv (client_exec cap c (clients s ! c) s)"
proof (cases "clients s ! c")
  case (CWait t)
  then have "unread_unsignalled (s\<lparr>clients := (clients s)[c := CPublish t]\<rparr>)" if "unread_unsignalled s"
    using that c by (auto intro: unread_unsignalled_client [where c = c and p = "CPublish t"])
  then show ?thesis using inv CWait by (auto simp: gate_inv_def in_set_update_other)
next
  case (CPublish t)
  then have "unread_unsignalled (client_exec cap c (CPublish t) s)" if "unread_unsignalled s"
    using that c by (auto intro: unread_unsignalled_client [where c = c and p = "CSignal t"])
  then show ?thesis using inv CPublish by (auto simp: gate_inv_def in_set_update_other)
next
  case (CSignal t)
  then show ?thesis using inv c by (auto simp: gate_inv_def set_update_memI)
next
  case CWake
  then have "unread_unsignalled (client_exec cap c CWake s)" if "unread_unsignalled s"
    using that c by (auto intro: unread_unsignalled_client [where c = c and p = CIdle])
  then show ?thesis using inv CWake by (auto simp: gate_inv_def)
qed (use inv in simp)

lemma gate_submit:
  assumes inv: "gate_inv s" and c: "c < length (clients s)" "clients s ! c = CIdle"
  shows "gate_inv (s\<lparr>qvals := qvals s @ [v], qpub := qpub s @ [False], clients := (clients s)[c := CWait (length (qvals s))]\<rparr>)"
proof -
  let ?s = "s\<lparr>qvals := qvals s @ [v], qpub := qpub s @ [False], clients := (clients s)[c := CWait (length (qvals s))]\<rparr>"
  have "\<exists>p \<in> set (clients ?s). unsignalled p t" if un: "unread_unsignalled s" "qread s \<le> t" "t < Suc (length (qvals s))" for t
  proof (cases "t = length (qvals s)")
    case True
    then show ?thesis using c by (auto intro!: bexI [of _ "CWait t"] set_update_memI)
  next
    case False
    then obtain p where "p \<in> set (clients s)" "unsignalled p t"
      using un by (auto simp: unread_unsignalled_def less_Suc_eq)
    then show ?thesis using c(2) in_set_update_other [of p "clients s" c] by force
  qed
  then have "unread_unsignalled s \<Longrightarrow> unread_unsignalled ?s" by (simp add: unread_unsignalled_def)
  then show ?thesis using inv c by (auto simp: gate_inv_def in_set_update_other)
qed

lemma gate_dispatcher_run:
  assumes inv: "gate_inv s" and k: "\<not> kblock True"
  shows "gate_inv (disp_exec False kblock (dpc s) s)"
proof (cases "dpc s")
  case DFutex
  then show ?thesis using inv k by (cases "taskFlag s") (auto simp: gate_inv_def unread_unsignalled_def)
next
  case DRecheck
  then show ?thesis using inv by (auto simp: gate_inv_def unread_unsignalled_def queue_isEmpty_def)
qed (use inv in \<open>auto simp: gate_inv_def unread_unsignalled_def load_taskFlag_def store_taskFlag_def Let_def\<close>)

lemma gate_main_run:
  assumes inv: "gate_inv s"
  shows "gate_inv (main_exec (mpc s) s)"
proof (cases "mpc s")
  case MWake
  then show ?thesis using inv by (auto simp: gate_inv_def unread_unsignalled_def)
qed (use inv in \<open>auto simp: gate_inv_def unread_unsignalled_def split: dpc.splits\<close>)

lemma gate_step:
  assumes "gate_inv s" "\<not> kblock True" "pool_step False kblock cap s e s'"
  shows "gate_inv s'"
  using assms(3)
proof cases
  case (call_assignTask c v)
  then show ?thesis using gate_submit [OF assms(1)] by simp
next
  case (client_run c)
  then show ?thesis using gate_client_run [OF assms(1)] by simp
next
  case dispatcher_run
  then show ?thesis using gate_dispatcher_run [where kblock = kblock, OF assms(1,2)] by simp
next
  case destructor_run
  then show ?thesis using gate_main_run [OF assms(1)] by simp
next
  case (worker_run i)
  then show ?thesis using assms(1) by (auto intro: gate_inv_frame)
next
  case (spurious_worker i)
  then show ?thesis using assms(1) by (auto intro: gate_inv_frame)
next
  case spurious_dispatcher
  then show ?thesis using assms(1) by (auto simp: gate_inv_def unread_unsignalled_def)
next
  case (drain v vs)
  then show ?thesis using assms(1) by (simp add: gate_inv_def)
qed

section \<open>Sleeping workers\<close>

lemma sleepers_dispatcher_run:
  assumes "sleepers_inv s" "handover_inv s"
  shows "sleepers_inv (disp_exec tso kblock (dpc s) s)"
proof -
  have lt: "lastIdDispatched s < THREAD_COUNT s" using assms(2) by (simp add: handover_inv_def)
  show ?thesis
  proof (cases "dpc s")
    case DWakeW
    then show ?thesis using assms(1) lt
      by (auto simp: sleepers_inv_def wake_worker_def nth_list_update split: if_splits)
  qed (use assms(1) lt in \<open>auto simp: sleepers_inv_def nth_list_update Let_def split: if_splits\<close>)
qed

lemma sleepers_main_run:
  assumes "sleepers_inv s" "handover_inv s"
  shows "sleepers_inv (main_exec (mpc s) s)"
proof (cases "mpc s")
  case (MWRun k)
  then show ?thesis using assms by (auto simp: sleepers_inv_def handover_inv_def nth_list_update split: if_splits)
next
  case (MWStore k)
  then show ?thesis using assms by (auto simp: sleepers_inv_def handover_inv_def nth_list_update split: if_splits)
next
  case (MWWake k)
  then show ?thesis using assms
    by (auto simp: sleepers_inv_def handover_inv_def wake_worker_def nth_list_update split: if_splits)
qed (use assms in \<open>auto simp: sleepers_inv_def split: dpc.splits\<close>)

lemma sleepers_frame:
  assumes "sleepers_inv s" "workers s' = workers s" "lastIdDispatched s' = lastIdDispatched s" "mpc s' = mpc s"
    and "dpc s' = dpc s \<or> dpc s' = wake_dpc (dpc s)"
  shows "sleepers_inv s'"
proof -
  have "dpc s' = DWakeW" if "dpc s = DWakeW" using assms(5) that by auto
  then show ?thesis using assms(1-4) by (auto simp: sleepers_inv_def)
qed

lemma worker_asleep:
  assumes "\<not> kblock True" "wpc (worker_exec kblock p w) = WSleep" "wflag (worker_exec kblock p w)" "p = wpc w"
  shows "wpc w = WSleep \<and> wflag w"
  using assms by (cases p) (auto split: if_splits option.splits)

lemma sleepers_step:
  assumes sl: "sleepers_inv s" and ho: "handover_inv s" and k: "\<not> kblock True" and st: "pool_step tso kblock cap s e s'"
  shows "sleepers_inv s'"
  using st
proof cases
  case (client_run c)
  then show ?thesis using sleepers_frame [OF sl] client_exec_dpc [of cap c "clients s ! c" s] by simp
next
  case dispatcher_run
  then show ?thesis using sleepers_dispatcher_run [OF sl ho] by simp
next
  case (worker_run i)
  then show ?thesis using sl worker_asleep [of kblock, OF k]
    by (auto simp: sleepers_inv_def nth_list_update split: if_splits)
next
  case destructor_run
  then show ?thesis using sleepers_main_run [OF sl ho] by simp
next
  case (spurious_worker i)
  then show ?thesis using sl by (auto simp: sleepers_inv_def wake_worker_def nth_list_update split: if_splits)
qed (use sleepers_frame [OF sl] in auto)

definition pool_live :: "'a pool_ev list \<Rightarrow> 'a ThreadPool \<Rightarrow> bool" where
  "pool_live tr s \<longleftrightarrow> pool_safe tr s \<and> gate_inv s \<and> sleepers_inv s"

lemma pool_live_start: "0 < n \<Longrightarrow> pool_live [] (new_ThreadPool n m)"
  using pool_safe_start [of n m]
  by (simp add: pool_live_def gate_inv_def unread_unsignalled_def sleepers_inv_def new_ThreadPool_def new_Worker_def)

lemma pool_live_step:
  assumes "pool_live tr s" "\<not> kblock True" "pool_step False kblock cap s e s'"
  shows "pool_live (tr @ [e]) s'"
proof -
  have safe: "handover_inv s" "account_inv tr s" "gate_inv s" "sleepers_inv s"
    using assms(1) by (auto simp: pool_live_def pool_safe_def)
  show ?thesis
    using handover_step [OF safe(1) assms(3)] account_step [OF safe(2,1) assms(3)] gate_step [OF safe(3) assms(2,3)]
      sleepers_step [OF safe(4,1) assms(2,3)] by (simp add: pool_live_def pool_safe_def)
qed

text \<open>What the pool relies on of the kernel, as an interface.\<close>

locale futex_kernel =
  fixes kblock :: "bool \<Rightarrow> bool"
  assumes no_block_on_change: "\<not> kblock True"
begin

lemma live_run:
  "lts_run (pool_step False kblock cap) s0 tr s \<Longrightarrow> pool_live [] s0 \<Longrightarrow> pool_live tr s"
  by (induction rule: lts_run.induct) (auto intro: pool_live_step no_block_on_change)

end

text \<open>A kernel that blocks exactly when the flag still has the expected value.\<close>

interpretation strict_kernel: futex_kernel Not
  by unfold_locales simp

lemma pool_live_reachable:
  assumes "\<not> kblock True" "0 < n" "lts_run (pool_step False kblock cap) (new_ThreadPool n m) tr s"
  shows "handover_inv s" "account_inv tr s" "gate_inv s" "sleepers_inv s"
  using futex_kernel.live_run [of kblock, OF futex_kernel.intro, OF assms(1,3) pool_live_start [OF assms(2)]]
  by (auto simp: pool_live_def pool_safe_def)

section \<open>Properties\<close>

text \<open>C9: No lost wake-up (sequentially consistent). When the dispatcher sleeps, every task in the queue belongs to a client that has not
  set the gate's flag yet, or a wake-up for the dispatcher is on its way; when a worker sleeps, its
  gate is closed or a wake-up for it is on its way.\<close>

theorem no_lost_wakeup:
  assumes "\<not> kblock True" "0 < n" "lts_run (pool_step False kblock cap) (new_ThreadPool n m) tr s"
  shows "(dpc s = DSleep \<longrightarrow>
      (\<forall>t. qread s \<le> t \<and> t < length (qvals s) \<longrightarrow> (\<exists>p \<in> set (clients s). unsignalled p t)) \<or>
      CWake \<in> set (clients s) \<or> mpc s = MWake) \<and>
    (\<forall>i < n. wpc (workers s ! i) = WSleep \<longrightarrow>
      \<not> wflag (workers s ! i) \<or> dpc s = DWakeW \<and> lastIdDispatched s = i \<or> mpc s = MWWake i)"
proof -
  have "gate_inv s" "sleepers_inv s" "THREAD_COUNT s = n"
    using pool_live_reachable [OF assms] pool_run_size [OF assms(3)] by auto
  then show ?thesis by (auto simp: gate_inv_def sleepers_inv_def unread_unsignalled_def)
qed

theorem no_lost_wakeup_witness:
  "\<exists>s :: int ThreadPool. dpc s = DSleep \<and> clients s = [CIdle] \<and> (\<forall>t. \<not> (qread s \<le> t \<and> t < length (qvals s)))"
proof -
  obtain tr and s :: "int ThreadPool" where s: "lts_run (pool_step False Not 1024) (new_ThreadPool 1 1) tr s"
    "dpc s = DSleep" "clients s = [CIdle]" "mpc s = MAlive"
    by (rule one_task_run)
  from no_lost_wakeup [OF _ _ s(1)] s(2-4) show ?thesis by (intro exI [of _ s]) auto
qed

lemma settled_executed:
  assumes "\<not> kblock True" "0 < n" "lts_run (pool_step False kblock cap) (new_ThreadPool n m) tr s"
    and "set (clients s) \<subseteq> {CIdle}" "dpc s = DSleep" "mpc s = MAlive" "\<forall>i < n. wpc (workers s ! i) = WSleep"
  shows "mset (executed tr) = tasks (submitted tr)"
proof -
  note inv = pool_live_reachable [OF assms(1-3)]
  have sz: "THREAD_COUNT s = n" using pool_run_size [OF assms(3)] .
  have "CWake \<notin> set (clients s)" "\<forall>p \<in> set (clients s). \<not> unsignalled p t" for t using assms(4) by auto
  then have q: "qread s = length (qvals s)"
    using inv(2,3) assms(5,6) by (fastforce simp: gate_inv_def unread_unsignalled_def account_inv_def)
  have "wtask (workers s ! i) = None" if "i < n" for i
  proof -
    have "\<not> wflag (workers s ! i)" using inv(4) that sz assms(5-7) by (auto simp: sleepers_inv_def)
    moreover have "wphase False (workers s ! i)" "wpc (workers s ! i) = WSleep"
      using inv(1) that sz assms(5-7) by (auto simp: handover_inv_def wok_def activating_def)
    ultimately show ?thesis by (auto simp: wphase_def)
  qed
  then have "\<forall>w \<in> set (workers s). pending w = {#}" using sz by (auto simp: in_set_conv_nth pending_def)
  moreover have "\<forall>w \<in> set ws. pending w = {#} \<Longrightarrow> sum_list (map pending ws) = {#}" for ws :: "'a Worker list"
    by (induction ws) auto
  ultimately have "all_pending s = {#}" by (simp add: all_pending_def)
  then show ?thesis using inv(2) q assms(5) by (auto simp: account_inv_def)
qed

text \<open>Every task is executed. When all clients have returned and the dispatcher and all workers sleep, the tasks executed are
  exactly the non-empty tasks submitted.\<close>

theorem settled_pool_has_run_everything:
  assumes "\<not> kblock True" "0 < n" "lts_run (pool_step False kblock cap) (new_ThreadPool n m) tr s"
    and "set (clients s) \<subseteq> {CIdle}" "dpc s = DSleep" "mpc s = MAlive" "\<forall>i < n. wpc (workers s ! i) = WSleep"
  shows "mset (executed tr) = tasks (submitted tr)"
  using assms by (rule settled_executed)

theorem settled_pool_has_run_everything_witness: "mset [7 :: int] = tasks [Some 7]"
proof -
  obtain tr and s :: "int ThreadPool" where s: "lts_run (pool_step False Not 1024) (new_ThreadPool 1 1) tr s"
    "submitted tr = [Some 7]" "executed tr = [7]" "dpc s = DSleep" "map wpc (workers s) = [WSleep]" "clients s = [CIdle]" "mpc s = MAlive"
    by (rule one_task_run)
  then have "\<forall>i < 1. wpc (workers s ! i) = WSleep" by auto
  with settled_pool_has_run_everything [OF _ _ s(1)] s show ?thesis by simp
qed

text \<open>
  The dispatcher finds the queue empty, resets its gate and checks the queue again while the reset is
  still in its store buffer; a client submits a second task and sets the flag; then the reset reaches
  memory and overwrites it.
\<close>

definition buffered_reset :: "int pool_act list" where
  "buffered_reset =
     [PSubmit 0 (Some 7), PClient 0, PClient 0, PClient 0, PClient 0] @ replicate 10 PDisp @ replicate 12 (PWork 0) @
     replicate 5 PDisp @
     [PSubmit 0 (Some 8), PClient 0, PClient 0, PClient 0, PClient 0] @
     [PDisp, PDisp, PDrain, PDisp]"

text \<open>C28: A lost wake-up on x86. With the dispatcher's release stores in a store buffer the pool can reach a state in
  which both tasks were submitted and every client has returned, yet the dispatcher and the worker
  sleep with the gate's flag down and the second task is never executed.\<close>

theorem store_buffer_loses_wakeup:
  "\<exists>tr (s :: int ThreadPool). lts_run (pool_step True Not 1024) (new_ThreadPool 1 1) tr s \<and>
     submitted tr = [Some 7, Some 8] \<and> executed tr = [7] \<and> clients s = [CIdle] \<and> dpc s = DSleep \<and>
     map wpc (workers s) = [WSleep] \<and> mpc s = MAlive \<and> \<not> taskFlag s \<and> dbuf s = []"
proof -
  have "map_option (\<lambda>(tr, s). (submitted tr, executed tr, clients s, dpc s, map wpc (workers s), mpc s, taskFlag s, dbuf s))
      (pool_script True Not 1024 buffered_reset (new_ThreadPool 1 1)) =
    Some ([Some 7, Some 8], [7], [CIdle], DSleep, [WSleep], MAlive, False, [])"
    by code_simp
  then obtain tr and s :: "int ThreadPool" where "pool_script True Not 1024 buffered_reset (new_ThreadPool 1 1) = Some (tr, s)"
    "submitted tr = [Some 7, Some 8]" "executed tr = [7]" "clients s = [CIdle]" "dpc s = DSleep"
    "map wpc (workers s) = [WSleep]" "mpc s = MAlive" "\<not> taskFlag s" "dbuf s = []"
    by (auto simp del: pool_script.simps)
  with pool_script_run [OF this(1)] show ?thesis by (intro exI [of _ tr] exI [of _ s] conjI)
qed

end
