(* ===== verification/Thread_Pool_Shutdown.thy ===== *)
theory Thread_Pool_Shutdown
  imports Thread_Pool_Wakeup
begin

text \<open>
  Destruction of the thread pool: from every state that \<open>~ThreadPool\<close> and the \<open>~Worker\<close>s can reach, with
  tasks still queued, being dispatched or running, the destructor can finish, as long as no empty task was
  submitted. It does not wait for tasks that are still in the queue: they are dropped. A pool that has lost all
  its workers to empty tasks hangs in its destructor.
\<close>

section \<open>Invariants of destruction\<close>



lemma disp_exec_frame [simp]:
  "qpub (disp_exec tso kblock p s) = qpub s" "qvals (disp_exec tso kblock p s) = qvals s"
  "clients (disp_exec tso kblock p s) = clients s" "running (disp_exec tso kblock p s) = running s"
  "THREAD_COUNT (disp_exec tso kblock p s) = THREAD_COUNT s"
  by (cases p; simp add: Let_def)+

lemma main_exec_frame [simp]:
  "qpub (main_exec p s) = qpub s" "qvals (main_exec p s) = qvals s" "clients (main_exec p s) = clients s"
  by (cases p; simp split: dpc.splits)+





text \<open>The dispatcher has reset its gate and will look at \<open>running\<close> before it waits again.\<close>

fun past_reset :: "'a dpc \<Rightarrow> bool" where
  "past_reset DRecheck = True"
| "past_reset DSig = True"
| "past_reset DLoop = True"
| "past_reset DExited = True"
| "past_reset _ = False"




lemma past_reset_wake [simp]: "past_reset (wake_dpc p) = past_reset p"
  by (cases p) simp_all





text \<open>No empty task is in the queue, in the hands of the dispatcher or behind the open gate of a worker.\<close>

fun carries :: "'a dpc \<Rightarrow> 'a option \<Rightarrow> bool" where
  "carries (DScan v st r) u = (v = u)"
| "carries (DTask v) u = (v = u)"
| "carries _ u = False"



lemma carries_wake [simp]:
  "carries (wake_dpc p) u = carries p u" "wake_dpc p = DGate \<longleftrightarrow> p = DGate" "DGate = wake_dpc p \<longleftrightarrow> p = DGate"
  by (cases p; auto)+









text \<open>The workers are destroyed from the last to the first; a joined worker has left its loop for good.\<close>

fun joined_from :: "nat \<Rightarrow> mpc \<Rightarrow> nat" where
  "joined_from n (MWRun k) = Suc k"
| "joined_from n (MWStore k) = Suc k"
| "joined_from n (MWWake k) = Suc k"
| "joined_from n (MWJoin k) = Suc k"
| "joined_from n MDone = 0"
| "joined_from n _ = n"


lemma joined_from_next [simp]: "joined_from n (next_worker_dtor k) = k"
  by (cases k) (simp_all add: next_worker_dtor_def)






section \<open>Progress of the destructor\<close>












section \<open>Empty tasks and the destructor\<close>

text \<open>Every worker was lost to an empty task and the dispatcher searches for a free one.\<close>

fun searching :: "'a dpc \<Rightarrow> bool" where
  "searching (DScan v st r) = True"
| "searching _ = False"

definition wedged :: "'a ThreadPool \<Rightarrow> bool" where
  "wedged s \<longleftrightarrow> searching (dpc s) \<and> (\<forall>i < THREAD_COUNT s. lost_worker s i)"

lemma wedged_step:
  assumes w: "wedged s" and ho: "handover_inv s" and st: "pool_step tso kblock cap s e s'"
  shows "wedged s' \<and> \<not> destroys_workers (mpc s')"
proof -
  have pc: "searching (dpc s)" and lt: "lastIdDispatched s < THREAD_COUNT s" using w ho by (auto simp: wedged_def handover_inv_def)
  have alive: "\<not> destroys_workers (mpc s)" and busy: "poolFlag (workers s ! lastIdDispatched s)"
    using w lt by (auto simp: wedged_def lost_worker_def)
  have wake: "searching (wake_dpc p) = searching p" for p :: "'a dpc" by (cases p) simp_all
  have "\<not> destroys_workers (mpc s') \<and> searching (dpc s')"
    using st
  proof cases
    case (client_run c)
    have "searching (dpc (client_exec cap c (clients s ! c) s))"
      using client_exec_dpc [of cap c "clients s ! c" s] pc by (elim disjE) (simp_all add: wake)
    then show ?thesis using alive client_run by simp
  next
    case dispatcher_run
    then show ?thesis using alive pc busy by (cases "dpc s") (auto simp: Let_def)
  next
    case destructor_run
    then show ?thesis using alive pc by (cases "mpc s") (auto simp: wake split: dpc.splits)
  qed (use alive pc in \<open>auto simp: wake\<close>)
  moreover have "THREAD_COUNT s' = THREAD_COUNT s" using pool_step_size [OF st] .
  ultimately show ?thesis using w lost_worker_step [OF _ ho st] by (auto simp: wedged_def)
qed

lemma wedged_run:
  "lts_run (pool_step tso kblock cap) s tr s' \<Longrightarrow> wedged s \<Longrightarrow> handover_inv s \<Longrightarrow> \<not> destroys_workers (mpc s) \<Longrightarrow>
    wedged s' \<and> handover_inv s' \<and> \<not> destroys_workers (mpc s')"
proof (induction rule: lts_run.induct)
  case (run_snoc tr s1 e s2)
  then have "wedged s1" "handover_inv s1" by blast+
  then show ?case using wedged_step [OF _ _ run_snoc.hyps(2)] handover_step [OF _ run_snoc.hyps(2)] by blast
qed simp

lemma wedged_pool_run:
  obtains tr and s :: "int ThreadPool" where "lts_run (pool_step False Not 1024) (new_ThreadPool 1 1) tr s"
    "submitted tr = [None, Some 8]" "wedged s"
proof -
  let ?task = "\<lambda>v :: int option. [PSubmit 0 v, PClient 0, PClient 0, PClient 0, PClient 0]"
  let ?as = "?task None @ ?task (Some 8) @ replicate 15 PDisp"
  have "map_option (\<lambda>(tr, s). (submitted tr, searching (dpc s), THREAD_COUNT s, lost_worker s 0))
      (pool_script False Not 1024 ?as (new_ThreadPool 1 1)) = Some ([None, Some 8], True, 1, True)"
    by code_simp
  then obtain tr s where s: "pool_script False Not 1024 ?as (new_ThreadPool 1 1) = Some (tr, s)"
    "submitted tr = [None, Some 8]" "searching (dpc s)" "THREAD_COUNT s = 1" "lost_worker s 0"
    by (auto simp del: pool_script.simps)
  from that [OF pool_script_run [OF s(1)] s(2)] s(3-5) show ?thesis by (simp add: wedged_def)
qed

section \<open>Properties\<close>



text \<open>C29: Empty tasks can hang the destructor. Once every worker has been activated with an empty \<open>std::function\<close> and the dispatcher
  looks for a free worker for the next task, the dispatcher never leaves its search, whether or not
  \<open>running\<close> has been cleared: \<open>~ThreadPool\<close> never gets past the join of the dispatcher.\<close>

theorem empty_tasks_hang_destructor:
  assumes "0 < n" "lts_run (pool_step tso kblock cap) (new_ThreadPool n m) tr s" "wedged s"
    and "lts_run (pool_step tso kblock cap) s tr' s'"
  shows "searching (dpc s') \<and> mpc s' \<in> {MAlive, MStore, MWake, MJoin}"
proof -
  have ho: "handover_inv s" using pool_reachable(1) [OF assms(1,2)] .
  have "0 < THREAD_COUNT s" using assms(1) pool_run_size [OF assms(2)] by simp
  then have "\<not> destroys_workers (mpc s)" using assms(3) by (auto simp: wedged_def lost_worker_def)
  then have "wedged s' \<and> \<not> destroys_workers (mpc s')" using wedged_run [OF assms(4,3) ho] by simp
  then show ?thesis by (cases "mpc s'") (auto simp: wedged_def)
qed

theorem empty_tasks_hang_destructor_witness:
  "\<exists>(tr :: int pool_ev list) s. submitted tr = [None, Some 8] \<and> lts_run (pool_step False Not 1024) (new_ThreadPool 1 1) tr s \<and>
    (\<forall>tr' s'. lts_run (pool_step False Not 1024) s tr' s' \<longrightarrow> mpc s' \<noteq> MDone)"
proof -
  obtain tr and s :: "int ThreadPool" where s: "lts_run (pool_step False Not 1024) (new_ThreadPool 1 1) tr s"
    "submitted tr = [None, Some 8]" "wedged s"
    by (rule wedged_pool_run)
  have "mpc s' \<noteq> MDone" if "lts_run (pool_step False Not 1024) s tr' s'" for tr' s'
    using empty_tasks_hang_destructor [OF zero_less_one s(1,3) that] by auto
  with s(1,2) show ?thesis by blast
qed

end
