(* ===== verification/Thread_Pool_Ring.thy ===== *)
theory Thread_Pool_Ring
  imports Thread_Pool_Wakeup Ring_Concurrent
begin

text \<open>
  \<open>ThreadPool\<close> over its real task queue. The machine of theory \<open>Thread_Pool\<close> has the tickets of the queue as unbounded numbers
  and \<open>isEmpty\<close> as one step; here the queue is the \<open>AtomicRingBuffer\<close> of theory \<open>Ring_Threads\<close>, on 64-bit tickets, with every
  load and store of \<open>enqueue\<close>, \<open>dequeue\<close> and \<open>isEmpty\<close> a step of its own. The composed machine is shown to implement the
  abstract one, so that what is proved of the latter holds of the pool as it is built.
\<close>

section \<open>The composed machine\<close>

text \<open>
  \<open>pool\<close> has the flags, the workers, the dispatcher and the destructor; its fields for the queue and the clients stay at
  their initial values. \<open>callers\<close> are the threads that call \<open>assignTask\<close>: thread \<open>c\<close> of the ring is caller \<open>c\<close>, the last
  thread of the ring is the dispatcher.
\<close>

datatype caller = QIdle | QEnqueue | QSignal | QWake

record 'a PoolRing =
  pool :: "'a ThreadPool"
  taskQueue :: "'a option ring_sys"
  callers :: "caller list"

abbreviation disp_tid :: "'a PoolRing \<Rightarrow> tid" where
  "disp_tid s \<equiv> length (callers s)"

definition PoolRing_start :: "nat \<Rightarrow> nat \<Rightarrow> 'a option list \<Rightarrow> 'a option list \<Rightarrow> 'a PoolRing" where
  "PoolRing_start n m batch ds =
     \<lparr>pool = new_ThreadPool n 0, taskQueue = ring_start (Suc m) batch ds, callers = replicate m QIdle\<rparr>"

text \<open>The points at which the dispatcher is inside a call of the queue, and where it goes on after \<open>isEmpty\<close>.\<close>

fun asks_empty :: "'a dpc \<Rightarrow> bool" where
  "asks_empty DInner2 = True"
| "asks_empty DEmpty = True"
| "asks_empty DRecheck = True"
| "asks_empty _ = False"

fun after_isEmpty :: "bool \<Rightarrow> 'a dpc \<Rightarrow> 'a dpc" where
  "after_isEmpty b DInner2 = (if b then DEmpty else DDeq)"
| "after_isEmpty b DEmpty = (if b then DReset else DLoop)"
| "after_isEmpty b DRecheck = (if b then DLoop else DSig)"
| "after_isEmpty b p = p"

definition goto_dpc :: "'a dpc \<Rightarrow> 'a ThreadPool \<Rightarrow> 'a ThreadPool" where
  "goto_dpc p s = s\<lparr>dpc := p\<rparr>"

inductive PoolRing_step ::
    "('a option \<Rightarrow> 'a option) \<Rightarrow> ('a option \<Rightarrow> 'a option) \<Rightarrow> bool \<Rightarrow> (bool \<Rightarrow> bool) \<Rightarrow> 'a PoolRing \<Rightarrow> 'a pool_ev \<Rightarrow> 'a PoolRing \<Rightarrow> bool"
  for mv dead tso kblock where
  pr_submit: "c < length (callers s) \<Longrightarrow> callers s ! c = QIdle \<Longrightarrow> mpc (pool s) = MAlive \<Longrightarrow>
    ring_step mv dead (taskQueue s) (EnqCall c v) q \<Longrightarrow>
    PoolRing_step mv dead tso kblock s (Submit c v) (s\<lparr>taskQueue := q, callers := (callers s)[c := QEnqueue]\<rparr>)"
| pr_enqueue: "c < length (callers s) \<Longrightarrow> callers s ! c = QEnqueue \<Longrightarrow> ring_step mv dead (taskQueue s) (Tau c) q \<Longrightarrow>
    PoolRing_step mv dead tso kblock s PTau (s\<lparr>taskQueue := q\<rparr>)"
| pr_enqueued: "c < length (callers s) \<Longrightarrow> callers s ! c = QEnqueue \<Longrightarrow> ring_step mv dead (taskQueue s) (EnqRet c) q \<Longrightarrow>
    PoolRing_step mv dead tso kblock s PTau (s\<lparr>taskQueue := q, callers := (callers s)[c := QSignal]\<rparr>)"
| pr_signal: "c < length (callers s) \<Longrightarrow> callers s ! c = QSignal \<Longrightarrow>
    PoolRing_step mv dead tso kblock s PTau (s\<lparr>pool := (pool s)\<lparr>taskFlag := True\<rparr>, callers := (callers s)[c := QWake]\<rparr>)"
| pr_wake: "c < length (callers s) \<Longrightarrow> callers s ! c = QWake \<Longrightarrow>
    PoolRing_step mv dead tso kblock s PTau (s\<lparr>pool := wake_dispatcher (pool s), callers := (callers s)[c := QIdle]\<rparr>)"
| pr_isEmpty: "asks_empty (dpc (pool s)) \<Longrightarrow> ring_step mv dead (taskQueue s) (EmptyCall (disp_tid s)) q \<Longrightarrow>
    PoolRing_step mv dead tso kblock s PTau (s\<lparr>taskQueue := q\<rparr>)"
| pr_isEmpty_ret: "asks_empty (dpc (pool s)) \<Longrightarrow> ring_step mv dead (taskQueue s) (EmptyRet (disp_tid s) b) q \<Longrightarrow>
    PoolRing_step mv dead tso kblock s PTau
      (s\<lparr>taskQueue := q, pool := goto_dpc (after_isEmpty b (dpc (pool s))) (pool s)\<rparr>)"
| pr_dequeue: "dpc (pool s) = DDeq \<Longrightarrow> dbuf (pool s) = [] \<Longrightarrow> ring_step mv dead (taskQueue s) (DeqCall (disp_tid s)) q \<Longrightarrow>
    PoolRing_step mv dead tso kblock s PTau (s\<lparr>taskQueue := q\<rparr>)"
| pr_inside: "asks_empty (dpc (pool s)) \<or> dpc (pool s) = DDeq \<Longrightarrow> ring_step mv dead (taskQueue s) (Tau (disp_tid s)) q \<Longrightarrow>
    PoolRing_step mv dead tso kblock s PTau (s\<lparr>taskQueue := q\<rparr>)"
| pr_dequeued: "dpc (pool s) = DDeq \<Longrightarrow> ring_step mv dead (taskQueue s) (DeqRet (disp_tid s) v) q \<Longrightarrow>
    PoolRing_step mv dead tso kblock s PTau
      (s\<lparr>taskQueue := q, pool := goto_dpc (DScan v (lastIdDispatched (pool s)) False) (pool s)\<rparr>)"
| pr_dispatcher: "\<not> asks_empty (dpc (pool s)) \<Longrightarrow> dpc (pool s) \<noteq> DDeq \<Longrightarrow>
    PoolRing_step mv dead tso kblock s PTau (s\<lparr>pool := disp_exec tso kblock (dpc (pool s)) (pool s)\<rparr>)"
| pr_worker: "i < THREAD_COUNT (pool s) \<Longrightarrow>
    PoolRing_step mv dead tso kblock s (worker_event i (workers (pool s) ! i))
      (s\<lparr>pool := upd_worker i (worker_exec kblock (wpc (workers (pool s) ! i))) (pool s)\<rparr>)"
| pr_destructor: "mpc (pool s) = MAlive \<longrightarrow> set (callers s) \<subseteq> {QIdle} \<Longrightarrow>
    PoolRing_step mv dead tso kblock s PTau (s\<lparr>pool := main_exec (mpc (pool s)) (pool s)\<rparr>)"
| pr_spurious_dispatcher: "PoolRing_step mv dead tso kblock s PTau (s\<lparr>pool := wake_dispatcher (pool s)\<rparr>)"
| pr_spurious_worker: "i < THREAD_COUNT (pool s) \<Longrightarrow>
    PoolRing_step mv dead tso kblock s PTau (s\<lparr>pool := wake_worker i (pool s)\<rparr>)"
| pr_drain: "dbuf (pool s) = v # vs \<Longrightarrow>
    PoolRing_step mv dead tso kblock s PTau (s\<lparr>pool := (pool s)\<lparr>taskFlag := v, dbuf := vs\<rparr>\<rparr>)"

section \<open>The backlog of the ring\<close>

text \<open>The unread tickets are at most a ring full for each thread and one more, so the 64-bit tickets tell empty from non-empty.\<close>

lemma seq_below_next_read:
  assumes "tk_inv t"
  shows "seq_of t u \<le> tkR t + tkS t"
proof -
  from tk_inv_phase [OF assms, of u] obtain v where v: "v mod tkS t = u mod tkS t" "seq_of t u = v \<or> seq_of t u = Suc v \<and> v < tkW t"
    "tkS t \<le> v \<longrightarrow> v - tkS t < tkW t \<and> v - tkS t < tkR t"
    by (rule slot_phaseE)
  then show ?thesis using tk_inv_size [OF assms] by (cases "tkS t \<le> v") auto
qed

lemma backlog:
  assumes inv: "tk_inv t"
  shows "tkW t - tkR t \<le> Suc (length (tkpcs t)) * tkS t"
proof (cases "tkR t + tkS t < tkW t")
  case True
  define u where "u = tkW t - 1"
  have u: "u < tkW t" "tkW t = Suc u" using True by (auto simp: u_def)
  have le: "seq_of t u \<le> u" using seq_below_next_read [OF inv, of u] True u by linarith
  have "u - seq_of t u < length (tkpcs t) * tkS t"
  proof (rule held_tickets_close [where h = "\<lambda>k. wtk (tkpcs t ! k)"])
    fix w assume "w mod tkS t = u mod tkS t" "seq_of t u \<le> w" "w \<le> u"
    then show "\<exists>k < length (tkpcs t). wtk (tkpcs t ! k) = Some w"
      using tk_inv_held(1) [OF inv, of w] u by simp
  qed (use tk_inv_size [OF inv] le in auto)
  then show ?thesis using seq_below_next_read [OF inv, of u] u le by simp
qed simp

lemma tickets_tell_empty:
  assumes "ring_rel q t" "tk_inv t" "tkR t \<le> tkW t"
  shows "writeTicket (shared q) = readTicket (shared q) \<longleftrightarrow> tkW t = tkR t"
proof -
  have m: "writeTicket (shared q) = of_nat (tkW t)" "readTicket (shared q) = of_nat (tkR t)"
    "ring_size_ok (tkS t)" "length (tkpcs t) < 2 ^ 32"
    using assms(1) by (auto simp: ring_rel_def mem_rel_def)
  have "Suc (length (tkpcs t)) * tkS t \<le> 2 ^ 32 * 2 ^ 31"
    using m(4) ring_size_okD(2) [OF m(3)] by (intro mult_le_mono) auto
  then have "tkW t - tkR t < 2 ^ 64" using backlog [OF assms(2)] by simp
  then have "(of_nat (tkR t) :: u64) = of_nat (tkW t) \<longleftrightarrow> tkR t = tkW t"
    using of_nat_word_inject_close [where 'a = 64, of "tkR t" "tkW t"] assms(3) by auto
  then show ?thesis using m(1,2) by metis
qed

section \<open>The relation to the abstract pool\<close>

fun ev_tid :: "'a ring_ev \<Rightarrow> tid" where
  "ev_tid (EnqCall i d) = i"
| "ev_tid (EnqRet i) = i"
| "ev_tid (DeqCall i) = i"
| "ev_tid (DeqRet i d) = i"
| "ev_tid (BatchCall i c) = i"
| "ev_tid (BatchRet i ds) = i"
| "ev_tid (EmptyCall i) = i"
| "ev_tid (EmptyRet i b) = i"
| "ev_tid (Tau i) = i"

lemma pc_event_tid [simp]: "ev_tid (pc_event i r p) = i"
  by (cases p) auto

lemma ring_step_other: "ring_step mv dead q e q' \<Longrightarrow> ev_tid e \<noteq> k \<Longrightarrow> pcs q' ! k = pcs q ! k"
  by (induction rule: ring_step.induct) auto

text \<open>A caller, its position in the ticket protocol, and its position in the abstract pool.\<close>

fun caller_rel :: "caller \<Rightarrow> nat tpc \<Rightarrow> cpc \<Rightarrow> bool" where
  "caller_rel QIdle p k = (p = TIdle \<and> k = CIdle)"
| "caller_rel QEnqueue (TEnqWait t) k = (k = CWait t)"
| "caller_rel QEnqueue (TEnqStore t) k = (k = CPublish t)"
| "caller_rel QEnqueue (TEnqPublish t) k = (k = CPublish t)"
| "caller_rel QEnqueue _ k = False"
| "caller_rel QSignal p k = (p = TIdle \<and> (\<exists>t. k = CSignal t))"
| "caller_rel QWake p k = (p = TIdle \<and> k = CWake)"

text \<open>
  The position of the dispatcher in the abstract pool. \<open>isEmpty\<close> takes effect when it loads the write ticket: the dispatcher is the
  only consumer, so the read ticket does not change during its call; \<open>dequeue\<close> takes effect when it releases the slot.
\<close>

fun disp_view :: "'a dpc \<Rightarrow> 'b AtomicRingBuffer \<Rightarrow> nat \<Rightarrow> 'b pc \<Rightarrow> 'a dpc" where
  "disp_view p r R (EmptyW w) = after_isEmpty (w = readTicket r) p"
| "disp_view p r R (EmptyDone b) = after_isEmpty b p"
| "disp_view p r R (DeqWait t) = DWaitPub (R - 1)"
| "disp_view p r R (DeqTake t) = DWaitPub (R - 1)"
| "disp_view p r R (DeqRelease t d) = DWaitPub (R - 1)"
| "disp_view p r R _ = p"

fun disp_ok :: "'a dpc \<Rightarrow> 'b AtomicRingBuffer \<Rightarrow> 'b pc \<Rightarrow> bool" where
  "disp_ok p r Idle = (\<forall>t. p \<noteq> DWaitPub t)"
| "disp_ok p r (EmptyW w) = asks_empty p"
| "disp_ok p r (EmptyR w) = (asks_empty p \<and> w = readTicket r)"
| "disp_ok p r (EmptyDone b) = asks_empty p"
| "disp_ok p r (DeqWait t) = (p = DDeq)"
| "disp_ok p r (DeqTake t) = (p = DDeq)"
| "disp_ok p r (DeqRelease t d) = (p = DDeq)"
| "disp_ok p r _ = False"

definition published :: "'a tk \<Rightarrow> bool list" where
  "published t = map (\<lambda>k. k < seq_of t k) [0..<tkW t]"

definition abs_pool :: "'a ThreadPool \<Rightarrow> 'a option tk \<Rightarrow> 'a dpc \<Rightarrow> cpc list \<Rightarrow> 'a ThreadPool" where
  "abs_pool p t d cs =
     p\<lparr>qvals := tkvals t, qpub := published t, qread := tkR t, qrel := length (tkdone t), dpc := d, clients := cs\<rparr>"

definition released :: "'a tk \<Rightarrow> nat \<Rightarrow> bool" where
  "released t D \<longleftrightarrow> (\<forall>u. rtk (tkpcs t ! D) = Some u \<longrightarrow> Suc u = tkR t) \<and>
     tkdone t = [0..<tkR t - (if rtk (tkpcs t ! D) = None then 0 else 1)]"

definition queue_rel :: "nat \<Rightarrow> 'a option ring_sys \<Rightarrow> caller list \<Rightarrow> 'a option tk \<Rightarrow> cpc list \<Rightarrow> bool" where
  "queue_rel cap q qs t cs \<longleftrightarrow> ring_rel q t \<and> tk_inv t \<and> tkS t = cap \<and> length (tkpcs t) = Suc (length qs) \<and>
     length cs = length qs \<and> (\<forall>c < length qs. caller_rel (qs ! c) (tkpcs t ! c) (cs ! c)) \<and> released t (length qs)"

definition composed :: "nat \<Rightarrow> 'a PoolRing \<Rightarrow> 'a option tk \<Rightarrow> cpc list \<Rightarrow> bool" where
  "composed cap s t cs \<longleftrightarrow> queue_rel cap (taskQueue s) (callers s) t cs \<and>
     disp_ok (dpc (pool s)) (shared (taskQueue s)) (pcs (taskQueue s) ! disp_tid s)"

definition abs_of :: "'a PoolRing \<Rightarrow> 'a option tk \<Rightarrow> cpc list \<Rightarrow> 'a ThreadPool" where
  "abs_of s t cs =
     abs_pool (pool s) t (disp_view (dpc (pool s)) (shared (taskQueue s)) (tkR t) (pcs (taskQueue s) ! disp_tid s)) cs"

definition pool_rel :: "nat \<Rightarrow> 'a PoolRing \<Rightarrow> 'a ThreadPool \<Rightarrow> bool" where
  "pool_rel cap s a \<longleftrightarrow> (\<exists>t cs. composed cap s t cs \<and> a = abs_of s t cs)"

lemma composedD:
  assumes "composed cap s t cs"
  shows "queue_rel cap (taskQueue s) (callers s) t cs" "disp_ok (dpc (pool s)) (shared (taskQueue s)) (pcs (taskQueue s) ! disp_tid s)"
  using assms by (simp_all add: composed_def)

lemma published_nth [simp]: "k < tkW t \<Longrightarrow> published t ! k \<longleftrightarrow> k < seq_of t k" "length (published t) = tkW t"
  by (simp_all add: published_def)

lemma published_call:
  assumes "tk_inv t"
  shows "published (t\<lparr>tkvals := tkvals t @ [d], tkpcs := ps\<rparr>) = published t @ [False]"
  using tk_inv_next_write [OF assms] by (simp add: published_def)

lemma published_advance:
  assumes inv: "tk_inv t" and i: "i < length (tkpcs t)"
  shows "tkpcs t ! i = TEnqPublish u \<Longrightarrow> published (tk_advance t i u (Suc u) []) = (published t)[u := True]"
    and "tkpcs t ! i = TDeqRelease u \<Longrightarrow> published (tk_advance t i u (u + tkS t) [u]) = published t"
proof -
  note sq = tk_advance_seq [OF tk_inv_size [OF inv]]
  show "published (tk_advance t i u (Suc u) []) = (published t)[u := True]" if p: "tkpcs t ! i = TEnqPublish u"
  proof (intro nth_equalityI)
    fix k assume k: "k < length (published (tk_advance t i u (Suc u) []))"
    have uW: "u < tkW t" using tk_inv_writer(1) [OF inv i, of u] p by simp
    have su: "seq_of t u = u" using tk_inv_writer(3) [OF inv i, of u] p by simp
    then have "k mod tkS t = u mod tkS t \<Longrightarrow> (k < Suc u) = (k = u \<or> k < seq_of t k)" by auto
    then show "published (tk_advance t i u (Suc u) []) ! k = (published t)[u := True] ! k"
      using k sq [of i u "Suc u" "[]" k] uW by (cases "k = u") auto
  qed simp
  show "published (tk_advance t i u (u + tkS t) [u]) = published t" if p: "tkpcs t ! i = TDeqRelease u"
  proof (intro nth_equalityI)
    fix k assume k: "k < length (published (tk_advance t i u (u + tkS t) [u]))"
    have su: "seq_of t u = Suc u" using tk_inv_reader(3) [OF inv i, of u] p by simp
    have "(k < u + tkS t) = (k < Suc u)" if "k mod tkS t = u mod tkS t"
      using mod_eq_add_mult [of u "tkS t" k] that tk_inv_size [OF inv] by (cases "u < k") auto
    then have "k mod tkS t = u mod tkS t \<Longrightarrow> (k < u + tkS t) = (k < seq_of t k)" using su by auto
    then show "published (tk_advance t i u (u + tkS t) [u]) ! k = published t ! k"
      using k sq [of i u "u + tkS t" "[u]" k] by auto
  qed simp
qed

text \<open>A producer whose slot is free is less than a ring full ahead of the released slots.\<close>

lemma free_slot_room:
  assumes inv: "tk_inv t" and rel: "released t D" and u: "seq_of t u = u"
  shows "u < length (tkdone t) + tkS t"
proof (cases "u < tkS t")
  case False
  from tk_inv_phase [OF inv, of u] obtain v where v: "v mod tkS t = u mod tkS t" "seq_of t u = v \<or> seq_of t u = Suc v \<and> v < tkW t"
    "tkS t \<le> v \<longrightarrow> v - tkS t < tkW t \<and> v - tkS t < tkR t"
    by (rule slot_phaseE)
  have "u \<noteq> Suc v" using Suc_mod_neq [OF tk_inv_size [OF inv], of u v] v(1) by metis
  then have "v = u" using v(2) u by presburger
  then have less: "u - tkS t < tkR t" using v(3) False by simp
  have "(u - tkS t) mod tkS t = u mod tkS t" using False by (simp add: le_mod_geq)
  then have "seq_of t (u - tkS t) = u" using u by simp
  moreover have "Suc (u - tkS t) < u" using False tk_inv_size [OF inv] by linarith
  ultimately have "u - tkS t \<in> set (tkdone t)"
    using inv less unfolding tk_inv_def done_ok_def by metis
  moreover have "set (tkdone t) = {..<length (tkdone t)}"
    using rel by (metis atLeast_upt length_upt minus_nat.diff_0 released_def)
  ultimately show ?thesis by auto
qed (simp add: trans_less_add2)

section \<open>Steps of the queue\<close>

lemma queue_relD:
  assumes "queue_rel cap q qs t cs"
  shows "ring_rel q t" "tk_inv t" "tkS t = cap" "length (tkpcs t) = Suc (length qs)" "length cs = length qs"
    "released t (length qs)" "length (pcs q) = Suc (length qs)" "readTicket (shared q) = of_nat (tkR t)"
    "c < length qs \<Longrightarrow> caller_rel (qs ! c) (tkpcs t ! c) (cs ! c)"
  using assms by (auto simp: queue_rel_def ring_rel_def mem_rel_def)

lemma queue_rel_caller:
  assumes "queue_rel cap q qs t cs" "c < length qs" "ring_rel q' t'" "tk_inv t'" "tkS t' = tkS t"
    and "tkpcs t' = (tkpcs t)[c := p]" "tkR t' = tkR t" "tkdone t' = tkdone t" "caller_rel k p k'"
  shows "queue_rel cap q' (qs[c := k]) t' (cs[c := k'])"
  using assms by (auto simp: queue_rel_def released_def nth_list_update)

lemma queue_rel_disp:
  assumes "queue_rel cap q qs t cs" "ring_rel q' t'" "tk_inv t'" "tkS t' = tkS t"
    and "tkpcs t' = (tkpcs t)[length qs := p]" "released t' (length qs)"
  shows "queue_rel cap q' qs t' cs"
  using assms by (auto simp: queue_rel_def nth_list_update)

text \<open>The three steps of \<open>enqueue\<close> that the abstract pool sees: the ticket, the free slot, the publication.\<close>

lemma queue_submit:
  assumes rel: "queue_rel cap q qs t cs" and c: "c < length qs" "qs ! c = QIdle" and st: "ring_step mv dead q (EnqCall c v) q'"
  shows "\<exists>t'. queue_rel cap q' (qs[c := QEnqueue]) t' (cs[c := CWait (tkW t)]) \<and> tkvals t' = tkvals t @ [v] \<and>
    published t' = published t @ [False] \<and> tkR t' = tkR t \<and> tkdone t' = tkdone t"
proof -
  note R = queue_relD [OF rel]
  from ring_rel_step [OF st R(1,2)] obtain t' where t': "tk_step t (EnqCall c v) t'" "ring_rel q' t'" by blast
  then have "t' = t\<lparr>tkvals := tkvals t @ [v], tkpcs := (tkpcs t)[c := TEnqWait (tkW t)]\<rparr>" by cases auto
  then show ?thesis
    using queue_rel_caller [OF rel c(1) t'(2) tk_inv_step [OF t'(1) R(2)], of "TEnqWait (tkW t)" QEnqueue "CWait (tkW t)"]
      published_call [OF R(2)] by (intro exI [of _ t']) simp
qed

lemma queue_enqueue:
  assumes rel: "queue_rel cap q qs t cs" and c: "c < length qs" "qs ! c = QEnqueue" and st: "ring_step mv dead q (Tau c) q'"
  shows "\<exists>t' k. queue_rel cap q' qs t' (cs[c := k]) \<and> tkvals t' = tkvals t \<and> published t' = published t \<and> tkR t' = tkR t \<and>
    tkdone t' = tkdone t \<and> (k = cs ! c \<or> (\<exists>u. cs ! c = CWait u \<and> k = CPublish u \<and> u < length (tkdone t) + cap))"
proof -
  note R = queue_relD [OF rel]
  note cr = R(9) [OF c(1)]
  from ring_rel_step [OF st R(1,2)] obtain t' where t': "tk_step t (Tau c) t'" "ring_rel q' t'" by blast
  note upd = queue_rel_caller [OF rel c(1) t'(2) tk_inv_step [OF t'(1) R(2)], of _ QEnqueue, unfolded list_update_same_conv [THEN iffD2, OF c]]
  from t'(1) show ?thesis
  proof cases
    case (tk_enq_enter u)
    then have "cs ! c = CWait u" using cr c(2) by simp
    moreover have "queue_rel cap q' qs t' (cs[c := CPublish u])" using upd tk_enq_enter c R by simp
    moreover have "u < length (tkdone t) + cap" using free_slot_room [OF R(2,6)] tk_enq_enter R(3) by simp
    moreover have "published t' = published t" using tk_enq_enter by (simp add: published_def)
    ultimately show ?thesis using tk_enq_enter by (intro exI [of _ t'] exI [of _ "CPublish u"]) simp
  next
    case (tk_enq_store u)
    then have "cs ! c = CPublish u" using cr c(2) by simp
    moreover have "queue_rel cap q' qs t' (cs[c := CPublish u])" using upd tk_enq_store c by simp
    moreover have "published t' = published t" using tk_enq_store by (simp add: published_def)
    ultimately show ?thesis using tk_enq_store by (intro exI [of _ t'] exI [of _ "CPublish u"]) simp
  next
    case tk_skip
    have "queue_rel cap q' qs t' (cs[c := cs ! c])" using rel t' tk_skip by (simp add: queue_rel_def)
    then show ?thesis using tk_skip by (intro exI [of _ t'] exI [of _ "cs ! c"]) simp
  qed (use cr c(2) in auto)
qed

lemma queue_enqueued:
  assumes rel: "queue_rel cap q qs t cs" and c: "c < length qs" "qs ! c = QEnqueue" and st: "ring_step mv dead q (EnqRet c) q'"
  shows "\<exists>t' u. cs ! c = CPublish u \<and> queue_rel cap q' (qs[c := QSignal]) t' (cs[c := CSignal u]) \<and> tkvals t' = tkvals t \<and>
    published t' = (published t)[u := True] \<and> tkR t' = tkR t \<and> tkdone t' = tkdone t"
proof -
  note R = queue_relD [OF rel]
  note cr = R(9) [OF c(1)]
  from ring_rel_step [OF st R(1,2)] obtain t' where t': "tk_step t (EnqRet c) t'" "ring_rel q' t'" by blast
  from t'(1) obtain u where u: "c < length (tkpcs t)" "tkpcs t ! c = TEnqPublish u" "t' = tk_advance t c u (Suc u) []"
    by cases (auto simp: tk_advance_def)
  have "queue_rel cap q' (qs[c := QSignal]) t' (cs[c := CSignal u])"
    by (rule queue_rel_caller [OF rel c(1) t'(2) tk_inv_step [OF t'(1) R(2)], of TIdle]) (use u in simp_all)
  then show ?thesis using cr c(2) u published_advance(1) [OF R(2) u(1,2)] by (intro exI [of _ t'] exI [of _ u]) simp
qed

text \<open>The steps of the dispatcher inside the queue.\<close>

lemma disp_cong:
  assumes "readTicket r' = readTicket r"
  shows "disp_ok p r' x = disp_ok p r x" "disp_view p r' R x = disp_view p r R x"
  using assms by (cases x; simp)+

lemma ring_step_run:
  assumes "ring_step mv dead q e q'" "pcs q ! ev_tid e \<noteq> Idle"
  shows "exec mv dead (shared q) (pcs q ! ev_tid e) = (shared q', pcs q' ! ev_tid e)"
    "pc_event (ev_tid e) (shared q) (pcs q ! ev_tid e) = e"
  using assms by (cases; simp)+

lemma pc_event_iff:
  "x \<noteq> Idle \<Longrightarrow> pc_event i r x = EmptyRet i b \<longleftrightarrow> x = EmptyDone b" "pc_event i r x \<noteq> EmptyCall j"
  "disp_ok p r x \<Longrightarrow> pc_event i r x = DeqRet i v \<longleftrightarrow> (\<exists>w. x = DeqRelease w v)" "disp_ok p r x \<Longrightarrow> pc_event i r x \<noteq> DeqCall j"
  by (cases x; auto)+

lemma ring_step_idle:
  assumes "ring_step mv dead q e q'" "pcs q ! ev_tid e = Idle"
  shows "e = EmptyCall i \<Longrightarrow> shared q' = shared q \<and> pcs q' ! i \<in> {EmptyW (writeTicket (shared q)), EmptyR (readTicket (shared q))}"
    "e = DeqCall i \<Longrightarrow> \<exists>w. pcs q' ! i = DeqWait w"
  using assms by (cases; force)+

lemma ring_step_busy:
  assumes "ring_step mv dead q e q'" "e \<in> {EmptyRet i b, DeqRet i v, Tau i}"
  shows "pcs q ! i \<noteq> Idle"
  using assms(1)
proof cases
  case (run j r p)
  have "ev_tid e = i" using assms(2) by auto
  then have "j = i" using run(1) by simp
  then show ?thesis using run by simp
qed (use assms(2) in auto)

lemma disp_inside:
  assumes "exec mv dead r x = (r', x')" "disp_ok p r x" "x \<noteq> Idle" "pc_event i r x = Tau i" "readTicket r' = readTicket r"
  shows "disp_ok p r' x' \<and> (disp_view p r' R x' = disp_view p r R x \<or>
     asks_empty p \<and> disp_view p r R x = p \<and> disp_view p r' R x' = after_isEmpty (writeTicket r = readTicket r) p)"
proof (cases x)
  case (EmptyW w)
  then have "r' = r" "x' = EmptyDone (w = readTicket r)" using assms(1) by auto
  then show ?thesis using EmptyW assms(2) by simp
next
  case (EmptyR w)
  then have "r' = r" "x' = EmptyDone (writeTicket r = w)" using assms(1) by auto
  then show ?thesis using EmptyR assms(2) by simp
next
  case (DeqWait w)
  then have "r' = r" "x' = DeqTake w \<or> x' = DeqWait w" using assms(1) by (auto split: if_splits)
  then show ?thesis using DeqWait assms(2) by auto
next
  case (DeqTake w)
  then obtain d where "x' = DeqRelease w d" using assms(1) by (auto split: prod.splits)
  then show ?thesis using DeqTake assms(2) by simp
qed (use assms in simp_all)

lemma queue_inside:
  assumes rel: "queue_rel cap q qs t cs" and ok: "disp_ok p (shared q) (pcs q ! length qs)" and st: "ring_step mv dead q (Tau (length qs)) q'"
    and le: "tkR t \<le> tkW t"
  shows "\<exists>t'. queue_rel cap q' qs t' cs \<and> tkvals t' = tkvals t \<and> published t' = published t \<and> tkR t' = tkR t \<and> tkdone t' = tkdone t \<and>
    disp_ok p (shared q') (pcs q' ! length qs) \<and>
    (disp_view p (shared q') (tkR t') (pcs q' ! length qs) = disp_view p (shared q) (tkR t) (pcs q ! length qs) \<or>
     asks_empty p \<and> disp_view p (shared q) (tkR t) (pcs q ! length qs) = p \<and>
     disp_view p (shared q') (tkR t') (pcs q' ! length qs) = after_isEmpty (tkW t = tkR t) p)"
proof -
  note R = queue_relD [OF rel]
  let ?D = "length qs"
  have busy: "pcs q ! ?D \<noteq> Idle" using ring_step_busy [OF st] by blast
  note S = ring_step_run [OF st, unfolded ev_tid.simps, OF busy]
  from ring_rel_step [OF st R(1,2)] obtain t' where t': "tk_step t (Tau ?D) t'" "ring_rel q' t'" by blast
  have pr: "pc_rel (tkvals t) (pcs q ! ?D) (tkpcs t ! ?D)" using R(1,4) by (simp add: ring_rel_def)
  have "\<exists>x. tkpcs t' = (tkpcs t)[?D := x] \<and> rtk x = rtk (tkpcs t ! ?D) \<and> tkvals t' = tkvals t \<and> tkseq t' = tkseq t \<and> tkR t' = tkR t \<and> tkdone t' = tkdone t"
    using t'(1) by cases (auto intro: exI [of _ "tkpcs t ! ?D"])
  then obtain x where x: "tkpcs t' = (tkpcs t)[?D := x]" "rtk x = rtk (tkpcs t ! ?D)" "tkvals t' = tkvals t" "tkseq t' = tkseq t"
    "tkR t' = tkR t" "tkdone t' = tkdone t" by blast
  have "released t' ?D" using R(4,6) x by (simp add: released_def)
  then have Q: "queue_rel cap q' qs t' cs" using queue_rel_disp [OF rel t'(2) tk_inv_step [OF t'(1) R(2)]] x by simp
  moreover have "published t' = published t" using x by (simp add: published_def)
  moreover have "readTicket (shared q') = readTicket (shared q)" using queue_relD(8) [OF Q] R(8) x(5) by simp
  ultimately show ?thesis
    using disp_inside [OF S(1) ok busy S(2), of "tkR t"] x(3,5,6) tickets_tell_empty [OF R(1,2) le]
    by (intro exI [of _ t']) simp
qed

lemma queue_isEmpty_call:
  assumes rel: "queue_rel cap q qs t cs" and ok: "disp_ok p (shared q) (pcs q ! length qs)" and ask: "asks_empty p"
    and st: "ring_step mv dead q (EmptyCall (length qs)) q'" and le: "tkR t \<le> tkW t"
  shows "queue_rel cap q' qs t cs \<and> disp_view p (shared q) (tkR t) (pcs q ! length qs) = p \<and> disp_ok p (shared q') (pcs q' ! length qs) \<and>
    disp_view p (shared q') (tkR t) (pcs q' ! length qs) \<in> {p, after_isEmpty (tkW t = tkR t) p}"
proof -
  note R = queue_relD [OF rel]
  let ?D = "length qs"
  have idle: "pcs q ! ?D = Idle" using ring_step_run(2) [OF st] pc_event_iff(2) by fastforce
  note q' = ring_step_idle(1) [OF st, unfolded ev_tid.simps, OF idle refl]
  from ring_rel_step [OF st R(1,2)] obtain t' where t': "tk_step t (EmptyCall ?D) t'" "ring_rel q' t'" by blast
  then have "t' = t" by cases auto
  then show ?thesis using rel t'(2) idle q' ask tickets_tell_empty [OF R(1,2) le] by (auto simp: queue_rel_def)
qed

lemma queue_isEmpty_ret:
  assumes rel: "queue_rel cap q qs t cs" and ok: "disp_ok p (shared q) (pcs q ! length qs)" and st: "ring_step mv dead q (EmptyRet (length qs) b) q'"
  shows "queue_rel cap q' qs t cs \<and> disp_view p (shared q) (tkR t) (pcs q ! length qs) = after_isEmpty b p \<and> asks_empty p \<and>
    pcs q' ! length qs = Idle"
proof -
  note R = queue_relD [OF rel]
  let ?D = "length qs"
  have busy: "pcs q ! ?D \<noteq> Idle" using ring_step_busy [OF st] by blast
  note S = ring_step_run [OF st, unfolded ev_tid.simps, OF busy]
  have "pcs q ! ?D = EmptyDone b" using pc_event_iff(1) [OF busy] S(2) by blast
  then have q': "pcs q ! ?D = EmptyDone b" "pcs q' ! ?D = Idle" "shared q' = shared q" using S(1) by auto
  from ring_rel_step [OF st R(1,2)] obtain t' where t': "tk_step t (EmptyRet ?D b) t'" "ring_rel q' t'" by blast
  then have "t' = t" by cases auto
  then show ?thesis using rel t'(2) q' ok by (auto simp: queue_rel_def)
qed

lemma queue_dequeue:
  assumes rel: "queue_rel cap q qs t cs" and ok: "disp_ok p (shared q) (pcs q ! length qs)" and st: "ring_step mv dead q (DeqCall (length qs)) q'"
    and p: "p = DDeq"
  shows "\<exists>t'. queue_rel cap q' qs t' cs \<and> disp_view p (shared q) (tkR t) (pcs q ! length qs) = p \<and> disp_ok p (shared q') (pcs q' ! length qs) \<and>
    disp_view p (shared q') (tkR t') (pcs q' ! length qs) = DWaitPub (tkR t) \<and> tkvals t' = tkvals t \<and> published t' = published t \<and>
    tkR t' = Suc (tkR t) \<and> tkdone t' = tkdone t"
proof -
  note R = queue_relD [OF rel]
  let ?D = "length qs"
  have idle: "pcs q ! ?D = Idle" using ring_step_run(2) [OF st] pc_event_iff(4) [OF ok] by fastforce
  then have q': "pcs q ! ?D = Idle \<and> (\<exists>w. pcs q' ! ?D = DeqWait w)" using ring_step_idle(2) [OF st] by simp
  from ring_rel_step [OF st R(1,2)] obtain t' where t': "tk_step t (DeqCall ?D) t'" "ring_rel q' t'" by blast
  from t'(1) have e: "tkpcs t ! ?D = TIdle" "t' = t\<lparr>tkR := Suc (tkR t), tkpcs := (tkpcs t)[?D := TDeqWait (tkR t)]\<rparr>" by (cases; auto)+
  have "released t' ?D" using R(4,6) e by (simp add: released_def)
  then have "queue_rel cap q' qs t' cs" using queue_rel_disp [OF rel t'(2) tk_inv_step [OF t'(1) R(2)]] e by simp
  then show ?thesis using q' p e by (intro exI [of _ t']) (auto simp: published_def)
qed

lemma queue_dequeued:
  assumes rel: "queue_rel cap q qs t cs" and ok: "disp_ok p (shared q) (pcs q ! length qs)" and st: "ring_step mv dead q (DeqRet (length qs) v) q'"
  shows "\<exists>t' u. queue_rel cap q' qs t' cs \<and> disp_view p (shared q) (tkR t) (pcs q ! length qs) = DWaitPub u \<and> pcs q' ! length qs = Idle \<and>
    u < tkW t \<and> published t ! u \<and> v = tkvals t ! u \<and> tkvals t' = tkvals t \<and> published t' = published t \<and> tkR t' = tkR t \<and> length (tkdone t') = Suc (length (tkdone t))"
proof -
  note R = queue_relD [OF rel]
  let ?D = "length qs"
  have q': "(\<exists>w. pcs q ! ?D = DeqRelease w v) \<and> pcs q' ! ?D = Idle"
  proof -
    have busy: "pcs q ! ?D \<noteq> Idle" using ring_step_busy [OF st] by blast
    note S = ring_step_run [OF st, unfolded ev_tid.simps, OF busy]
    have "\<exists>w. pcs q ! ?D = DeqRelease w v" using pc_event_iff(3) [OF ok] S(2) by blast
    then show ?thesis using S(1) by auto
  qed
  from ring_rel_step [OF st R(1,2)] obtain t' where t': "tk_step t (DeqRet ?D v) t'" "ring_rel q' t'" by blast
  from t'(1) obtain u where u: "?D < length (tkpcs t)" "tkpcs t ! ?D = TDeqRelease u" "v = tkvals t ! u" "t' = tk_advance t ?D u (u + tkS t) [u]"
    by cases (auto simp: tk_advance_def)
  have full: "seq_of t u = Suc u" using tk_inv_reader(3) [OF R(2) u(1), of u] u(2) by simp
  have uW: "u < tkW t" using full_is_claimed [OF R(2) full] .
  have uR: "tkR t = Suc u" using R(6) u(2) by (simp add: released_def)
  have dn: "tkdone t = [0..<u]" using R(6) u(2) by (simp add: released_def uR)
  have "released t' ?D" using R(4) u(1,4) uR dn by (simp add: released_def)
  then have "queue_rel cap q' qs t' cs" using queue_rel_disp [OF rel t'(2) tk_inv_step [OF t'(1) R(2)]] u by simp
  then show ?thesis using q' u uW uR dn full published_advance(2) [OF R(2) u(1,2)] by (intro exI [of _ t'] exI [of _ u]) auto
qed

section \<open>The refinement\<close>

text \<open>The abstract pool may always stay where it is, and its other threads do not see the queue.\<close>

lemma pool_stutter: "pool_step tso kblock cap a PTau a"
proof (cases "dpc a = DSleep")
  case True
  then show ?thesis using dispatcher_run [of tso kblock cap a] by simp
next
  case False
  then have "wake_dispatcher a = a" by (cases "dpc a") (simp_all add: wake_dispatcher_def)
  then show ?thesis using spurious_dispatcher [of tso kblock cap a] by simp
qed

lemma abs_pool_simps [simp]:
  "qvals (abs_pool p t d cs) = tkvals t" "qpub (abs_pool p t d cs) = published t" "qread (abs_pool p t d cs) = tkR t"
  "qrel (abs_pool p t d cs) = length (tkdone t)" "dpc (abs_pool p t d cs) = d" "clients (abs_pool p t d cs) = cs"
  "workers (abs_pool p t d cs) = workers p" "mpc (abs_pool p t d cs) = mpc p" "dbuf (abs_pool p t d cs) = dbuf p"
  "taskFlag (abs_pool p t d cs) = taskFlag p" "running (abs_pool p t d cs) = running p"
  "lastIdDispatched (abs_pool p t d cs) = lastIdDispatched p"
  "queue_isEmpty (abs_pool p t d cs) \<longleftrightarrow> tkW t = tkR t"
  by (simp_all add: abs_pool_def queue_isEmpty_def)

lemma abs_pool_upd:
  "(abs_pool p t d cs)\<lparr>dpc := d'\<rparr> = abs_pool p t d' cs"
  "(abs_pool p t d cs)\<lparr>taskFlag := b\<rparr> = abs_pool (p\<lparr>taskFlag := b\<rparr>) t d cs"
  "(abs_pool p t d cs)\<lparr>clients := cs'\<rparr> = abs_pool p t d cs'"
  "(abs_pool p t d cs)\<lparr>dbuf := vs\<rparr> = abs_pool (p\<lparr>dbuf := vs\<rparr>) t d cs"
  "(abs_pool p t d cs)\<lparr>lastIdDispatched := i\<rparr> = abs_pool (p\<lparr>lastIdDispatched := i\<rparr>) t d cs"
  "(abs_pool p t d cs)\<lparr>running := b\<rparr> = abs_pool (p\<lparr>running := b\<rparr>) t d cs"
  "(abs_pool p t d cs)\<lparr>mpc := m\<rparr> = abs_pool (p\<lparr>mpc := m\<rparr>) t d cs"
  "abs_pool (p\<lparr>dpc := d'\<rparr>) t d cs = abs_pool p t d cs"
  by (simp_all add: abs_pool_def)

lemma abs_pool_frame:
  "upd_worker i f (abs_pool p t d cs) = abs_pool (upd_worker i f p) t d cs"
  "wake_worker i (abs_pool p t d cs) = abs_pool (wake_worker i p) t d cs"
  "wake_dispatcher (abs_pool p t d cs) = abs_pool p t (wake_dpc d) cs"
  "abs_pool (goto_dpc x p) t d cs = abs_pool p t d cs" "abs_pool (wake_dispatcher p) t d cs = abs_pool p t d cs"
  "load_taskFlag (abs_pool p t d cs) = load_taskFlag p"
  "store_taskFlag tso b (abs_pool p t d cs) = abs_pool (store_taskFlag tso b p) t d cs"
  by (simp_all add: abs_pool_def upd_worker_def wake_worker_def wake_dispatcher_def goto_dpc_def load_taskFlag_def store_taskFlag_def)

lemmas abs_pool_rules = abs_pool_upd abs_pool_frame

lemma abs_pool_disp:
  assumes "\<not> asks_empty d" "d \<noteq> DDeq" "\<And>t. d \<noteq> DWaitPub t" "dpc p = d"
  shows "disp_exec tso kblock d (abs_pool p t d cs) = abs_pool (disp_exec tso kblock d p) t (dpc (disp_exec tso kblock d p)) cs"
proof (cases d)
  case (DScan v start retry)
  then show ?thesis using assms(4)
    by (cases "dbuf p = []"; cases "poolFlag (workers p ! lastIdDispatched p)") (simp_all add: abs_pool_rules Let_def)
next
  case DFutex
  then show ?thesis using assms(4) by (cases "dbuf p = []") (simp_all add: abs_pool_rules)
next
  case DSelfWake
  then show ?thesis using assms(4) by (cases "dbuf p = []") (simp_all add: abs_pool_rules)
next
  case DSleep
  then show ?thesis using assms(4) by simp
next
  case DExited
  then show ?thesis using assms(4) by simp
next
  case (DWaitPub u)
  then show ?thesis using assms(3) by blast
next
  case DDeq
  then show ?thesis using assms(2) by blast
next
  case DInner2
  then show ?thesis using assms(1) by simp
next
  case DEmpty
  then show ?thesis using assms(1) by simp
next
  case DRecheck
  then show ?thesis using assms(1) by simp
qed (simp_all add: abs_pool_rules)

lemma disp_exec_asks:
  assumes "asks_empty d"
  shows "disp_exec tso kblock d a = a\<lparr>dpc := after_isEmpty (queue_isEmpty a) d\<rparr>"
  using assms by (cases d) auto

lemma abs_pool_main:
  assumes "d = DExited \<longleftrightarrow> dpc p = DExited"
  shows "main_exec (mpc p) (abs_pool p t d cs) = abs_pool (main_exec (mpc p) p) t (if mpc p = MWake then wake_dpc d else d) cs"
    and "dpc (main_exec (mpc p) p) = (if mpc p = MWake then wake_dpc (dpc p) else dpc p)"
proof -
  have j: "(case x of DExited \<Rightarrow> f | _ \<Rightarrow> g) = (if x = DExited then f else g)" for x :: "'a dpc" and f g :: "'a ThreadPool"
    by (cases x) auto
  show "main_exec (mpc p) (abs_pool p t d cs) = abs_pool (main_exec (mpc p) p) t (if mpc p = MWake then wake_dpc d else d) cs"
    using assms by (cases "mpc p") (simp_all add: abs_pool_rules j)
  show "dpc (main_exec (mpc p) p) = (if mpc p = MWake then wake_dpc (dpc p) else dpc p)"
    by (cases "mpc p") (simp_all add: j)
qed

lemma asks_wake [simp]: "asks_empty (wake_dpc p) = asks_empty p" "after_isEmpty b (wake_dpc p) = wake_dpc (after_isEmpty b p)"
  by (cases p; simp)+

lemma disp_view_wake:
  assumes "disp_ok p r x"
  shows "disp_ok (wake_dpc p) r x" "disp_view (wake_dpc p) r R x = wake_dpc (disp_view p r R x)"
  using assms by (cases x; cases p; auto)+

lemma disp_view_outside:
  assumes "disp_ok p r x" "\<not> asks_empty p" "p \<noteq> DDeq"
  shows "x = Idle" "p \<noteq> DWaitPub u"
  using assms by (cases x; auto)+

lemma disp_view_exited:
  assumes "disp_ok p r x"
  shows "disp_view p r R x = DExited \<longleftrightarrow> p = DExited"
  using assms by (cases x; cases p) auto

lemma disp_exec_waits:
  "\<not> asks_empty p \<Longrightarrow> p \<noteq> DDeq \<Longrightarrow> (\<And>u. p \<noteq> DWaitPub u) \<Longrightarrow> dpc s = p \<Longrightarrow> dpc (disp_exec tso kblock p s) \<noteq> DWaitPub u"
  by (cases p) (auto simp: Let_def)

lemma pool_relI: "composed cap s t cs \<Longrightarrow> a = abs_of s t cs \<Longrightarrow> pool_rel cap s a"
  unfolding pool_rel_def by blast

text \<open>A step of a caller inside the queue: the dispatcher's view does not change.\<close>

lemma caller_view:
  assumes c: "composed cap s t cs" and st: "ring_step mv dead (taskQueue s) e q" "ev_tid e < length (callers s)"
    and t': "queue_rel cap q qs t' cs'" "tkR t' = tkR t" "length qs = length (callers s)"
  shows "composed cap (s\<lparr>taskQueue := q, callers := qs\<rparr>) t' cs'"
    and "abs_of (s\<lparr>taskQueue := q, callers := qs\<rparr>) t' cs' = abs_pool (pool s) t' (dpc (abs_of s t cs)) cs'"
proof -
  have r: "readTicket (shared q) = readTicket (shared (taskQueue s))"
    using queue_relD(8) [OF composedD(1) [OF c]] queue_relD(8) [OF t'(1)] t'(2) by simp
  have "pcs q ! disp_tid s = pcs (taskQueue s) ! disp_tid s" using ring_step_other [OF st(1)] st(2) by simp
  then show "composed cap (s\<lparr>taskQueue := q, callers := qs\<rparr>) t' cs'"
    "abs_of (s\<lparr>taskQueue := q, callers := qs\<rparr>) t' cs' = abs_pool (pool s) t' (dpc (abs_of s t cs)) cs'"
    using composedD(2) [OF c] t' by (simp_all add: composed_def abs_of_def disp_cong [OF r])
qed

lemma sim_submit:
  assumes c: "composed cap s t cs" and i: "c < length (callers s)" "callers s ! c = QIdle" "mpc (pool s) = MAlive"
    and st: "ring_step mv dead (taskQueue s) (EnqCall c v) q"
  shows "\<exists>a'. pool_step tso kblock cap (abs_of s t cs) (Submit c v) a' \<and> pool_rel cap (s\<lparr>taskQueue := q, callers := (callers s)[c := QEnqueue]\<rparr>) a'"
proof -
  note R = queue_relD [OF composedD(1) [OF c]]
  let ?a = "abs_of s t cs"
  from queue_submit [OF composedD(1) [OF c] i(1,2) st] obtain t' where
    t': "queue_rel cap q ((callers s)[c := QEnqueue]) t' (cs[c := CWait (tkW t)])" "tkvals t' = tkvals t @ [v]"
      "published t' = published t @ [False]" "tkR t' = tkR t" "tkdone t' = tkdone t" by blast
  have "cs ! c = CIdle" using R(9) [OF i(1)] i(2) by simp
  then have "pool_step tso kblock cap ?a (Submit c v)
      (?a\<lparr>qvals := qvals ?a @ [v], qpub := qpub ?a @ [False], clients := (clients ?a)[c := CWait (length (qvals ?a))]\<rparr>)"
    using i(1,3) R(5) by (intro call_assignTask) (auto simp: abs_of_def)
  moreover have "?a\<lparr>qvals := qvals ?a @ [v], qpub := qpub ?a @ [False], clients := (clients ?a)[c := CWait (length (qvals ?a))]\<rparr> =
      abs_pool (pool s) t' (dpc ?a) (cs[c := CWait (tkW t)])"
    using t'(2-5) by (simp add: abs_of_def abs_pool_def)
  ultimately show ?thesis
    using caller_view [OF c st _ t'(1,4)] i(1) pool_relI by fastforce
qed

lemma sim_enqueue:
  assumes c: "composed cap s t cs" and i: "c < length (callers s)" "callers s ! c = QEnqueue"
    and st: "ring_step mv dead (taskQueue s) (Tau c) q"
  shows "\<exists>a'. pool_step tso kblock cap (abs_of s t cs) PTau a' \<and> pool_rel cap (s\<lparr>taskQueue := q\<rparr>) a'"
proof -
  note R = queue_relD [OF composedD(1) [OF c]]
  let ?a = "abs_of s t cs"
  from queue_enqueue [OF composedD(1) [OF c] i st] obtain t' k where
    t': "queue_rel cap q (callers s) t' (cs[c := k])" "tkvals t' = tkvals t" "published t' = published t" "tkR t' = tkR t" "tkdone t' = tkdone t"
    and k: "k = cs ! c \<or> (\<exists>u. cs ! c = CWait u \<and> k = CPublish u \<and> u < length (tkdone t) + cap)" by blast
  have same: "s\<lparr>taskQueue := q, callers := callers s\<rparr> = s\<lparr>taskQueue := q\<rparr>" by simp
  have "pool_rel cap (s\<lparr>taskQueue := q\<rparr>) (abs_pool (pool s) t' (dpc ?a) (cs[c := k]))"
    using caller_view [OF c st _ t'(1,4)] i(1) pool_relI [of cap "s\<lparr>taskQueue := q\<rparr>" t' "cs[c := k]"] by (simp add: same)
  moreover have "abs_pool (pool s) t' (dpc ?a) (cs[c := k]) = ?a\<lparr>clients := cs[c := k]\<rparr>"
    using t'(2-5) by (simp add: abs_of_def abs_pool_def)
  moreover have "pool_step tso kblock cap ?a PTau (?a\<lparr>clients := cs[c := k]\<rparr>)"
  proof (cases "k = cs ! c")
    case True
    then have "?a\<lparr>clients := cs[c := k]\<rparr> = ?a" by (simp add: abs_of_def abs_pool_def)
    then show ?thesis using pool_stutter by metis
  next
    case False
    then obtain u where "cs ! c = CWait u" "k = CPublish u" "u < length (tkdone t) + cap" using k by blast
    then show ?thesis using client_run [of c ?a tso kblock cap] i(1) R(5) by (simp add: abs_of_def)
  qed
  ultimately show ?thesis by metis
qed

lemma sim_enqueued:
  assumes c: "composed cap s t cs" and i: "c < length (callers s)" "callers s ! c = QEnqueue"
    and st: "ring_step mv dead (taskQueue s) (EnqRet c) q"
  shows "\<exists>a'. pool_step tso kblock cap (abs_of s t cs) PTau a' \<and> pool_rel cap (s\<lparr>taskQueue := q, callers := (callers s)[c := QSignal]\<rparr>) a'"
proof -
  note R = queue_relD [OF composedD(1) [OF c]]
  let ?a = "abs_of s t cs"
  from queue_enqueued [OF composedD(1) [OF c] i st] obtain t' u where
    t': "cs ! c = CPublish u" "queue_rel cap q ((callers s)[c := QSignal]) t' (cs[c := CSignal u])" "tkvals t' = tkvals t"
      "published t' = (published t)[u := True]" "tkR t' = tkR t" "tkdone t' = tkdone t" by blast
  have "pool_step tso kblock cap ?a PTau (client_exec cap c (clients ?a ! c) ?a)"
    using R(5) i(1) t'(1) by (intro client_run) (auto simp: abs_of_def)
  moreover have "client_exec cap c (clients ?a ! c) ?a = abs_pool (pool s) t' (dpc ?a) (cs[c := CSignal u])"
    using t'(1,3-6) by (simp add: abs_of_def abs_pool_def)
  ultimately show ?thesis using caller_view [OF c st _ t'(2,5)] i(1) pool_relI by fastforce
qed

text \<open>The signal of a caller, which does not touch the queue.\<close>

lemma sim_signal:
  assumes c: "composed cap s t cs" and i: "c < length (callers s)"
  shows "callers s ! c = QSignal \<Longrightarrow> \<exists>a'. pool_step tso kblock cap (abs_of s t cs) PTau a' \<and>
      pool_rel cap (s\<lparr>pool := (pool s)\<lparr>taskFlag := True\<rparr>, callers := (callers s)[c := QWake]\<rparr>) a'"
    and "callers s ! c = QWake \<Longrightarrow> \<exists>a'. pool_step tso kblock cap (abs_of s t cs) PTau a' \<and>
      pool_rel cap (s\<lparr>pool := wake_dispatcher (pool s), callers := (callers s)[c := QIdle]\<rparr>) a'"
proof -
  note q = composedD(1) [OF c] and ok = composedD(2) [OF c]
  note R = queue_relD [OF q]
  let ?a = "abs_of s t cs"
  have step: "pool_step tso kblock cap ?a PTau (client_exec cap c (clients ?a ! c) ?a)" if "clients ?a ! c \<noteq> CIdle"
    using that i R(5) by (intro client_run) (auto simp: abs_of_def)
  have idle: "tkpcs t = (tkpcs t)[c := TIdle]" if "tkpcs t ! c = TIdle" using that by (metis list_update_id)
  show "\<exists>a'. pool_step tso kblock cap ?a PTau a' \<and> pool_rel cap (s\<lparr>pool := (pool s)\<lparr>taskFlag := True\<rparr>, callers := (callers s)[c := QWake]\<rparr>) a'"
    if k: "callers s ! c = QSignal"
  proof -
    from R(9) [OF i] k obtain u where u: "tkpcs t ! c = TIdle" "cs ! c = CSignal u" by auto
    have "queue_rel cap (taskQueue s) ((callers s)[c := QWake]) t (cs[c := CWake])"
      by (rule queue_rel_caller [OF q i R(1,2) _ idle [OF u(1)]]) simp_all
    then have "pool_rel cap (s\<lparr>pool := (pool s)\<lparr>taskFlag := True\<rparr>, callers := (callers s)[c := QWake]\<rparr>) (client_exec cap c (clients ?a ! c) ?a)"
      using ok u(2) by (intro pool_relI [where t = t and cs = "cs[c := CWake]"]) (auto simp: composed_def abs_of_def abs_pool_rules)
    then show ?thesis using step u(2) by (auto simp: abs_of_def)
  qed
  show "\<exists>a'. pool_step tso kblock cap ?a PTau a' \<and> pool_rel cap (s\<lparr>pool := wake_dispatcher (pool s), callers := (callers s)[c := QIdle]\<rparr>) a'"
    if k: "callers s ! c = QWake"
  proof -
    from R(9) [OF i] k have u: "tkpcs t ! c = TIdle" "cs ! c = CWake" by auto
    have "queue_rel cap (taskQueue s) ((callers s)[c := QIdle]) t (cs[c := CIdle])"
      by (rule queue_rel_caller [OF q i R(1,2) _ idle [OF u(1)]]) simp_all
    then have "pool_rel cap (s\<lparr>pool := wake_dispatcher (pool s), callers := (callers s)[c := QIdle]\<rparr>) (client_exec cap c (clients ?a ! c) ?a)"
      using ok u(2) by (intro pool_relI [where t = t and cs = "cs[c := CIdle]"])
        (auto simp: composed_def abs_of_def abs_pool_rules disp_view_wake)
    then show ?thesis using step u(2) by (auto simp: abs_of_def)
  qed
qed

text \<open>The dispatcher inside the queue.\<close>

lemma sim_disp_queue:
  assumes c: "composed cap s t cs" and le: "tkR t \<le> tkW t"
  shows "asks_empty (dpc (pool s)) \<Longrightarrow> ring_step mv dead (taskQueue s) (EmptyCall (disp_tid s)) q \<Longrightarrow>
      \<exists>a'. pool_step tso kblock cap (abs_of s t cs) PTau a' \<and> pool_rel cap (s\<lparr>taskQueue := q\<rparr>) a'"
    and "ring_step mv dead (taskQueue s) (Tau (disp_tid s)) q \<Longrightarrow> \<exists>a'. pool_step tso kblock cap (abs_of s t cs) PTau a' \<and> pool_rel cap (s\<lparr>taskQueue := q\<rparr>) a'"
    and "dpc (pool s) = DDeq \<Longrightarrow> dbuf (pool s) = [] \<Longrightarrow> ring_step mv dead (taskQueue s) (DeqCall (disp_tid s)) q \<Longrightarrow> \<exists>a'. pool_step tso kblock cap (abs_of s t cs) PTau a' \<and> pool_rel cap (s\<lparr>taskQueue := q\<rparr>) a'"
proof -
  note q = composedD(1) [OF c] and ok = composedD(2) [OF c]
  let ?a = "abs_of s t cs" and ?p = "dpc (pool s)" and ?x = "pcs (taskQueue s) ! disp_tid s" and ?y = "pcs q ! disp_tid s"
  let ?goal = "\<exists>a'. pool_step tso kblock cap (abs_of s t cs) PTau a' \<and> pool_rel cap (s\<lparr>taskQueue := q\<rparr>) a'"
  have empty: "pool_step tso kblock cap ?a PTau (?a\<lparr>dpc := after_isEmpty (tkW t = tkR t) ?p\<rparr>)"
    if "asks_empty ?p" "disp_view ?p (shared (taskQueue s)) (tkR t) ?x = ?p"
    using dispatcher_run [of tso kblock cap ?a] disp_exec_asks [OF that(1), of tso kblock ?a] that(2) by (simp add: abs_of_def)
  have moved: ?goal if t': "queue_rel cap q (callers s) t' cs" "tkvals t' = tkvals t" "published t' = published t" "tkR t' = tkR t"
      "tkdone t' = tkdone t" "disp_ok ?p (shared q) ?y"
      and v: "disp_view ?p (shared q) (tkR t') ?y = disp_view ?p (shared (taskQueue s)) (tkR t) ?x \<or>
        asks_empty ?p \<and> disp_view ?p (shared (taskQueue s)) (tkR t) ?x = ?p \<and> disp_view ?p (shared q) (tkR t') ?y = after_isEmpty (tkW t = tkR t) ?p"
    for t'
  proof -
    have "abs_of (s\<lparr>taskQueue := q\<rparr>) t' cs = ?a\<lparr>dpc := disp_view ?p (shared q) (tkR t') ?y\<rparr>"
      using t'(2-5) by (simp add: abs_of_def abs_pool_def)
    moreover have "pool_rel cap (s\<lparr>taskQueue := q\<rparr>) (abs_of (s\<lparr>taskQueue := q\<rparr>) t' cs)"
      using t'(1,6) by (intro pool_relI [where t = t' and cs = cs]) (simp_all add: composed_def)
    moreover have "pool_step tso kblock cap ?a PTau (?a\<lparr>dpc := disp_view ?p (shared q) (tkR t') ?y\<rparr>)"
      using v empty pool_stutter [of tso kblock cap ?a] by (auto simp: abs_of_def abs_pool_upd)
    ultimately show ?thesis by metis
  qed
  show ?goal if "asks_empty ?p" "ring_step mv dead (taskQueue s) (EmptyCall (disp_tid s)) q"
    by (rule moved [of t]) (use queue_isEmpty_call [OF q ok that le] that(1) in auto)
  show ?goal if "ring_step mv dead (taskQueue s) (Tau (disp_tid s)) q"
    using queue_inside [OF q ok that le] moved by blast
  show ?goal if d: "?p = DDeq" "dbuf (pool s) = []" "ring_step mv dead (taskQueue s) (DeqCall (disp_tid s)) q"
  proof -
    from queue_dequeue [OF q ok d(3,1)] obtain t' where
      t': "queue_rel cap q (callers s) t' cs" "disp_view ?p (shared (taskQueue s)) (tkR t) ?x = ?p" "disp_ok ?p (shared q) ?y"
        "disp_view ?p (shared q) (tkR t') ?y = DWaitPub (tkR t)" "tkvals t' = tkvals t" "published t' = published t"
        "tkR t' = Suc (tkR t)" "tkdone t' = tkdone t" by blast
    have "pool_step tso kblock cap ?a PTau (?a\<lparr>qread := Suc (qread ?a), dpc := DWaitPub (qread ?a)\<rparr>)"
      using dispatcher_run [of tso kblock cap ?a] t'(2) d(1,2) by (simp add: abs_of_def)
    moreover have "?a\<lparr>qread := Suc (qread ?a), dpc := DWaitPub (qread ?a)\<rparr> = abs_of (s\<lparr>taskQueue := q\<rparr>) t' cs"
      using t'(4-8) by (simp add: abs_of_def abs_pool_def)
    ultimately show ?thesis using t'(1,3) pool_relI [of cap "s\<lparr>taskQueue := q\<rparr>" t' cs] by (auto simp: composed_def)
  qed
qed

lemma sim_disp_return:
  assumes c: "composed cap s t cs"
  shows "ring_step mv dead (taskQueue s) (EmptyRet (disp_tid s) b) q \<Longrightarrow>
      \<exists>a'. pool_step tso kblock cap (abs_of s t cs) PTau a' \<and>
        pool_rel cap (s\<lparr>taskQueue := q, pool := goto_dpc (after_isEmpty b (dpc (pool s))) (pool s)\<rparr>) a'"
    and "ring_step mv dead (taskQueue s) (DeqRet (disp_tid s) v) q \<Longrightarrow>
      \<exists>a'. pool_step tso kblock cap (abs_of s t cs) PTau a' \<and>
        pool_rel cap (s\<lparr>taskQueue := q, pool := goto_dpc (DScan v (lastIdDispatched (pool s)) False) (pool s)\<rparr>) a'"
proof -
  note q = composedD(1) [OF c] and ok = composedD(2) [OF c]
  let ?a = "abs_of s t cs"
  show "\<exists>a'. pool_step tso kblock cap ?a PTau a' \<and>
      pool_rel cap (s\<lparr>taskQueue := q, pool := goto_dpc (after_isEmpty b (dpc (pool s))) (pool s)\<rparr>) a'" (is "\<exists>a'. _ \<and> pool_rel cap ?s a'")
    if "ring_step mv dead (taskQueue s) (EmptyRet (disp_tid s) b) q"
  proof -
    note e = queue_isEmpty_ret [OF q ok that]
    have "after_isEmpty b p \<noteq> DWaitPub u" if "asks_empty p" for p :: "'a dpc" and u using that by (cases p) auto
    then have "composed cap ?s t cs" using e by (auto simp: composed_def goto_dpc_def)
    moreover have "?a = abs_of ?s t cs" using e by (simp add: abs_of_def abs_pool_rules goto_dpc_def)
    ultimately show ?thesis using pool_stutter [of tso kblock cap ?a] pool_relI by blast
  qed
  show "\<exists>a'. pool_step tso kblock cap ?a PTau a' \<and>
      pool_rel cap (s\<lparr>taskQueue := q, pool := goto_dpc (DScan v (lastIdDispatched (pool s)) False) (pool s)\<rparr>) a'" (is "\<exists>a'. _ \<and> pool_rel cap ?s a'")
    if "ring_step mv dead (taskQueue s) (DeqRet (disp_tid s) v) q"
  proof -
    from queue_dequeued [OF q ok that] obtain t' u where
      t': "queue_rel cap q (callers s) t' cs" "dpc ?a = DWaitPub u" "pcs q ! disp_tid s = Idle" "u < tkW t" "published t ! u" "v = tkvals t ! u"
        "tkvals t' = tkvals t" "published t' = published t" "tkR t' = tkR t" "length (tkdone t') = Suc (length (tkdone t))"
      by (auto simp: abs_of_def)
    have "pool_step tso kblock cap ?a PTau (?a\<lparr>qrel := Suc (qrel ?a), dpc := DScan v (lastIdDispatched ?a) False\<rparr>)"
      using dispatcher_run [of tso kblock cap ?a] t'(2,5,6) by (simp add: abs_of_def)
    moreover have "?a\<lparr>qrel := Suc (qrel ?a), dpc := DScan v (lastIdDispatched ?a) False\<rparr> = abs_of ?s t' cs"
      using t'(3,7-10) by (simp add: abs_of_def abs_pool_def goto_dpc_def)
    moreover have "composed cap ?s t' cs" using t'(1,3) by (simp add: composed_def goto_dpc_def)
    ultimately show ?thesis using pool_relI by metis
  qed
qed

text \<open>Everything that does not touch the queue.\<close>

lemma sim_outside:
  assumes c: "composed cap s t cs"
    and p: "composed cap s t cs \<Longrightarrow> composed cap (s\<lparr>pool := p'\<rparr>) t cs" "pool_step tso kblock cap (abs_of s t cs) e (abs_of (s\<lparr>pool := p'\<rparr>) t cs)"
  shows "\<exists>a'. pool_step tso kblock cap (abs_of s t cs) e a' \<and> pool_rel cap (s\<lparr>pool := p'\<rparr>) a'"
  using p c pool_relI by blast

lemma sim_dispatcher:
  assumes c: "composed cap s t cs" and d: "\<not> asks_empty (dpc (pool s))" "dpc (pool s) \<noteq> DDeq"
  shows "\<exists>a'. pool_step tso kblock cap (abs_of s t cs) PTau a' \<and> pool_rel cap (s\<lparr>pool := disp_exec tso kblock (dpc (pool s)) (pool s)\<rparr>) a'"
proof (rule sim_outside [OF c])
  note out = disp_view_outside [OF composedD(2) [OF c] d]
  show "composed cap (s\<lparr>pool := disp_exec tso kblock (dpc (pool s)) (pool s)\<rparr>) t cs"
    using c out disp_exec_waits [OF d out(2) refl] by (simp add: composed_def)
  show "pool_step tso kblock cap (abs_of s t cs) PTau (abs_of (s\<lparr>pool := disp_exec tso kblock (dpc (pool s)) (pool s)\<rparr>) t cs)"
    using dispatcher_run [of tso kblock cap "abs_of s t cs"] abs_pool_disp [OF d out(2) refl, of tso kblock t cs] out(1) by (simp add: abs_of_def)
qed

lemma sim_destructor:
  assumes c: "composed cap s t cs" and d: "mpc (pool s) = MAlive \<longrightarrow> set (callers s) \<subseteq> {QIdle}"
  shows "\<exists>a'. pool_step tso kblock cap (abs_of s t cs) PTau a' \<and> pool_rel cap (s\<lparr>pool := main_exec (mpc (pool s)) (pool s)\<rparr>) a'"
proof (rule sim_outside [OF c])
  note q = composedD(1) [OF c] and ok = composedD(2) [OF c]
  note m = abs_pool_main [OF disp_view_exited [OF ok]]
  show "composed cap (s\<lparr>pool := main_exec (mpc (pool s)) (pool s)\<rparr>) t cs"
    using c disp_view_wake(1) [OF ok] m(2) by (simp add: composed_def)
  have "cs ! k = CIdle" if "k < length cs" "set (callers s) \<subseteq> {QIdle}" for k
    using queue_relD(5) [OF q] queue_relD(9) [OF q, of k] that(1) nth_of_singleton [OF that(2), of k] by simp
  then have "mpc (pool s) = MAlive \<longrightarrow> set cs \<subseteq> {CIdle}" using d by (auto simp: in_set_conv_nth)
  then have "pool_step tso kblock cap (abs_of s t cs) PTau (main_exec (mpc (abs_of s t cs)) (abs_of s t cs))"
    by (intro destructor_run) (simp add: abs_of_def)
  moreover have "main_exec (mpc (abs_of s t cs)) (abs_of s t cs) = abs_of (s\<lparr>pool := main_exec (mpc (pool s)) (pool s)\<rparr>) t cs"
    using m disp_view_wake(2) [OF ok] by (cases "mpc (pool s) = MWake") (simp_all add: abs_of_def del: main_exec.simps)
  ultimately show "pool_step tso kblock cap (abs_of s t cs) PTau (abs_of (s\<lparr>pool := main_exec (mpc (pool s)) (pool s)\<rparr>) t cs)"
    by simp
qed

lemma pool_rel_step:
  assumes st: "PoolRing_step mv dead tso kblock s e s'" and rel: "pool_rel cap s a" and acc: "account_inv tr a"
  shows "\<exists>a'. pool_step tso kblock cap a e a' \<and> pool_rel cap s' a'"
proof -
  from rel obtain t cs where c: "composed cap s t cs" and a: "a = abs_of s t cs" unfolding pool_rel_def by blast
  have le: "tkR t \<le> tkW t" using acc by (auto simp: a abs_of_def account_inv_def)
  note ok = composedD(2) [OF c]
  from st show ?thesis
  proof cases
    case (pr_worker i)
    have "worker_event i (workers (abs_of s t cs) ! i) = worker_event i (workers (pool s) ! i)" by (simp add: abs_of_def)
    moreover have "pool_step tso kblock cap (abs_of s t cs) (worker_event i (workers (abs_of s t cs) ! i))
        (upd_worker i (worker_exec kblock (wpc (workers (abs_of s t cs) ! i))) (abs_of s t cs))"
      using pr_worker(3) by (intro worker_run) (simp add: abs_of_def)
    ultimately show ?thesis unfolding a pr_worker(1,2)
      by (intro sim_outside [OF c]) (simp_all add: composed_def abs_of_def abs_pool_rules del: worker_event.simps)
  next
    case pr_spurious_dispatcher
    show ?thesis unfolding a pr_spurious_dispatcher
      by (intro sim_outside [OF c]) (use spurious_dispatcher [of tso kblock cap "abs_of s t cs"] disp_view_wake [OF ok] in
        \<open>simp_all add: composed_def abs_of_def abs_pool_rules\<close>)
  next
    case (pr_spurious_worker i)
    show ?thesis unfolding a pr_spurious_worker(1,2)
      by (intro sim_outside [OF c]) (use spurious_worker [of i "abs_of s t cs" tso kblock cap] pr_spurious_worker(3) in
        \<open>simp_all add: composed_def abs_of_def abs_pool_rules\<close>)
  next
    case (pr_drain v vs)
    show ?thesis unfolding a pr_drain(1,2)
      by (intro sim_outside [OF c]) (use drain [of "abs_of s t cs" v vs tso kblock cap] pr_drain(3) in
        \<open>simp_all add: composed_def abs_of_def abs_pool_rules\<close>)
  qed (unfold a, (blast intro: sim_submit [OF c] sim_enqueue [OF c] sim_enqueued [OF c] sim_signal [OF c] sim_disp_queue [OF c le]
      sim_disp_return [OF c] sim_dispatcher [OF c] sim_destructor [OF c])+)
qed

interpretation pool_sim: lts_simulation "pool_step tso kblock cap" pool_initial pool_safe "PoolRing_step mv dead tso kblock" "pool_rel cap"
  for tso kblock cap mv dead
  by unfold_locales (use pool_rel_step in \<open>auto simp: pool_safe_def\<close>)

lemma pool_rel_start:
  assumes "ring_size_ok (length ds)" "Suc m < 2 ^ 32"
  shows "pool_rel (length ds) (PoolRing_start n m batch ds) (new_ThreadPool n m)"
proof (rule pool_relI)
  note start = ring_rel_start(1) [OF assms, of batch]
  have "tk_inv (tk_start (Suc m) (length ds))" using tk_inv_start ring_size_okD(1) [OF assms(1)] by blast
  then show "composed (length ds) (PoolRing_start n m batch ds) (tk_start (Suc m) (length ds)) (replicate m CIdle)"
    using start by (simp add: composed_def queue_rel_def PoolRing_start_def released_def tk_start_def new_ThreadPool_def ring_start_def
        del: replicate_Suc)
  show "new_ThreadPool n m = abs_of (PoolRing_start n m batch ds) (tk_start (Suc m) (length ds)) (replicate m CIdle)"
    by (simp add: abs_of_def abs_pool_def PoolRing_start_def tk_start_def new_ThreadPool_def ring_start_def published_def del: replicate_Suc)
qed

section \<open>Executable schedules\<close>

datatype 'a pr_act = PrSubmit nat "'a option" | PrCaller nat | PrDisp | PrWork nat

fun is_deq :: "'a dpc \<Rightarrow> bool" where
  "is_deq DDeq = True"
| "is_deq _ = False"

definition caller_do :: "nat \<Rightarrow> 'a PoolRing \<Rightarrow> ('a pool_ev \<times> 'a PoolRing) option" where
  "caller_do c s =
     (case callers s ! c of
        QIdle \<Rightarrow> None
      | QEnqueue \<Rightarrow>
          (case perform id id (ActStep c) (taskQueue s) of
             Some (Tau j, q) \<Rightarrow> if j = c then Some (PTau, s\<lparr>taskQueue := q\<rparr>) else None
           | Some (EnqRet j, q) \<Rightarrow> if j = c then Some (PTau, s\<lparr>taskQueue := q, callers := (callers s)[c := QSignal]\<rparr>) else None
           | _ \<Rightarrow> None)
      | QSignal \<Rightarrow> Some (PTau, s\<lparr>pool := (pool s)\<lparr>taskFlag := True\<rparr>, callers := (callers s)[c := QWake]\<rparr>)
      | QWake \<Rightarrow> Some (PTau, s\<lparr>pool := wake_dispatcher (pool s), callers := (callers s)[c := QIdle]\<rparr>))"

definition disp_queue_do :: "'a PoolRing \<Rightarrow> ('a pool_ev \<times> 'a PoolRing) option" where
  "disp_queue_do s =
     (case perform id id (ActStep (disp_tid s)) (taskQueue s) of
        Some (Tau j, q) \<Rightarrow> if j = disp_tid s then Some (PTau, s\<lparr>taskQueue := q\<rparr>) else None
      | Some (EmptyRet j b, q) \<Rightarrow> if j = disp_tid s \<and> asks_empty (dpc (pool s))
          then Some (PTau, s\<lparr>taskQueue := q, pool := goto_dpc (after_isEmpty b (dpc (pool s))) (pool s)\<rparr>) else None
      | Some (DeqRet j v, q) \<Rightarrow> if j = disp_tid s \<and> is_deq (dpc (pool s))
          then Some (PTau, s\<lparr>taskQueue := q, pool := goto_dpc (DScan v (lastIdDispatched (pool s)) False) (pool s)\<rparr>) else None
      | _ \<Rightarrow> None)"

definition disp_do :: "(bool \<Rightarrow> bool) \<Rightarrow> 'a PoolRing \<Rightarrow> ('a pool_ev \<times> 'a PoolRing) option" where
  "disp_do kblock s =
     (let q = taskQueue s; D = disp_tid s in
      if \<not> asks_empty (dpc (pool s)) \<and> \<not> is_deq (dpc (pool s)) then Some (PTau, s\<lparr>pool := disp_exec False kblock (dpc (pool s)) (pool s)\<rparr>)
      else if \<not> (D < length (pcs q) \<and> is_idle (pcs q ! D)) then disp_queue_do s
      else if asks_empty (dpc (pool s)) then Some (PTau, s\<lparr>taskQueue := q\<lparr>pcs := (pcs q)[D := EmptyW (writeTicket (shared q))]\<rparr>\<rparr>)
      else if dbuf (pool s) = [] then map_option (\<lambda>(e, q'). (PTau, s\<lparr>taskQueue := q'\<rparr>)) (perform id id (ActDeq D) q) else None)"

fun pr_do :: "(bool \<Rightarrow> bool) \<Rightarrow> 'a pr_act \<Rightarrow> 'a PoolRing \<Rightarrow> ('a pool_ev \<times> 'a PoolRing) option" where
  "pr_do kblock (PrSubmit c v) s =
     (if c < length (callers s) \<and> callers s ! c = QIdle \<and> mpc (pool s) = MAlive
      then map_option (\<lambda>(e, q). (Submit c v, s\<lparr>taskQueue := q, callers := (callers s)[c := QEnqueue]\<rparr>)) (perform id id (ActEnq c v) (taskQueue s))
      else None)"
| "pr_do kblock (PrCaller c) s = (if c < length (callers s) then caller_do c s else None)"
| "pr_do kblock PrDisp s = disp_do kblock s"
| "pr_do kblock (PrWork i) s =
     (if i < THREAD_COUNT (pool s)
      then Some (worker_event i (workers (pool s) ! i), s\<lparr>pool := upd_worker i (worker_exec kblock (wpc (workers (pool s) ! i))) (pool s)\<rparr>) else None)"

fun pr_script :: "(bool \<Rightarrow> bool) \<Rightarrow> 'a pr_act list \<Rightarrow> 'a PoolRing \<Rightarrow> ('a pool_ev list \<times> 'a PoolRing) option" where
  "pr_script kblock [] s = Some ([], s)"
| "pr_script kblock (x # xs) s =
     (case pr_do kblock x s of
        None \<Rightarrow> None
      | Some (e, s1) \<Rightarrow> map_option (\<lambda>(tr, s2). (e # tr, s2)) (pr_script kblock xs s1))"

lemma is_deq_iff [simp]: "is_deq p \<longleftrightarrow> p = DDeq"
  by (cases p) auto

lemma perform_event:
  "perform id id (ActEnq c v) q = Some (e, q') \<Longrightarrow> e = EnqCall c v" "perform id id (ActDeq c) q = Some (e, q') \<Longrightarrow> e = DeqCall c"
  by (auto split: if_splits prod.splits)

lemma caller_do_step:
  assumes "caller_do c s = Some (e, s')" "c < length (callers s)"
  shows "PoolRing_step id id False kblock s e s'"
  using assms by (auto simp: caller_do_def simp del: perform.simps split: caller.splits option.splits ring_ev.splits if_splits
      intro: pr_enqueue pr_enqueued pr_signal pr_wake dest!: perform_step)

lemma disp_do_step:
  assumes "disp_do kblock s = Some (e, s')"
  shows "PoolRing_step id id False kblock s e s'"
proof -
  have q: "PoolRing_step id id False kblock s e s'" if "disp_queue_do s = Some (e, s')" "asks_empty (dpc (pool s)) \<or> dpc (pool s) = DDeq"
    using that by (auto simp: disp_queue_do_def simp del: perform.simps split: option.splits ring_ev.splits if_splits
        intro: pr_inside pr_isEmpty_ret pr_dequeued dest!: perform_step)
  have w: "ring_step id id c (EmptyCall i) (c\<lparr>pcs := (pcs c)[i := EmptyW (writeTicket (shared c))]\<rparr>)"
    if "i < length (pcs c)" "pcs c ! i = Idle" for i and c :: "'a option ring_sys"
    using call_isEmpty_write_first [OF that] .
  show ?thesis
    using assms by (auto simp: disp_do_def Let_def simp del: perform.simps split: if_splits
        intro: pr_dispatcher pr_isEmpty pr_dequeue q w dest: perform_step perform_event(2))
qed

lemma pr_do_step: "pr_do kblock x s = Some (e, s') \<Longrightarrow> PoolRing_step id id False kblock s e s'"
  by (cases x) (auto simp del: perform.simps worker_event.simps split: if_splits
      intro: pr_submit pr_worker caller_do_step disp_do_step dest: perform_step perform_event(1))

lemma pr_script_run: "pr_script kblock xs s = Some (tr, s') \<Longrightarrow> lts_run (PoolRing_step id id False kblock) s tr s'"
proof (induction xs arbitrary: s tr)
  case Nil
  then show ?case by (auto intro: lts_run.run_nil)
next
  case (Cons x xs)
  from Cons.prems obtain e s1 tr' where "pr_do kblock x s = Some (e, s1)" "pr_script kblock xs s1 = Some (tr', s')" "tr = e # tr'"
    by (auto split: option.splits)
  then show ?case using lts_run_cons [OF pr_do_step Cons.IH] by metis
qed


lemma pool_over_ring_run:
  assumes "0 < n" "ring_size_ok (length ds)" "Suc m < 2 ^ 32"
    and "lts_run (PoolRing_step mv dead tso kblock) (PoolRing_start n m batch ds) tr s"
  obtains t cs where "lts_run (pool_step tso kblock (length ds)) (new_ThreadPool n m) tr (abs_of s t cs)" "composed (length ds) s t cs"
proof -
  have "pool_initial (new_ThreadPool n m)" using assms(1) by (auto simp: pool_initial_def)
  then obtain a where "lts_run (pool_step tso kblock (length ds)) (new_ThreadPool n m) tr a" "pool_rel (length ds) s a"
    using pool_sim.simulates [OF assms(4) pool_rel_start [OF assms(2,3)]] by blast
  then show ?thesis using that unfolding pool_rel_def by blast
qed

text \<open>One caller, one worker and a ring of two slots: the task is executed.\<close>

definition ring_task :: "int pr_act list" where
  "ring_task = PrSubmit 0 (Some 7) # replicate 5 (PrCaller 0) @ replicate 28 PrDisp @ replicate 12 (PrWork 0)"

lemma ring_task_run:
  obtains tr s where "lts_run (PoolRing_step id id False Not) (PoolRing_start 1 1 [] [None, None]) tr s"
    "submitted tr = [Some (7 :: int)]" "executed tr = [7]" "dpc (pool s) = DSleep" "map wpc (workers (pool s)) = [WSleep]"
    "callers s = [QIdle]" "mpc (pool s) = MAlive" "writeTicket (shared (taskQueue s)) = 1" "readTicket (shared (taskQueue s)) = 1"
proof -
  have "map_option (\<lambda>(tr, s). (submitted tr, executed tr, dpc (pool s), map wpc (workers (pool s)), callers s, mpc (pool s),
      writeTicket (shared (taskQueue s)), readTicket (shared (taskQueue s)))) (pr_script Not ring_task (PoolRing_start 1 1 [] [None, None])) =
    Some ([Some 7], [7], DSleep, [WSleep], [QIdle], MAlive, 1, 1)"
    by code_simp
  then obtain tr s where "pr_script Not ring_task (PoolRing_start 1 1 [] [None, None]) = Some (tr, s)"
    "submitted tr = [Some 7]" "executed tr = [7]" "dpc (pool s) = DSleep" "map wpc (workers (pool s)) = [WSleep]"
    "callers s = [QIdle]" "mpc (pool s) = MAlive" "writeTicket (shared (taskQueue s)) = 1" "readTicket (shared (taskQueue s)) = 1"
    by auto
  then show ?thesis using that [OF pr_script_run] by simp
qed

lemma two_slots: "ring_size_ok (length [None, None :: int option])"
  by (simp add: ring_size_ok_def size_asserts_def numeral_2_eq_2 [symmetric] del: One_nat_def)

text \<open>C10: The pool over its real queue implements the pool over an ideal one. Every run of \<open>ThreadPool\<close> composed with
  \<open>AtomicRingBuffer\<close>, each load and store of both a step and the tickets wrapping at 64 bits, is a run of the abstract pool with
  the same calls of \<open>assignTask\<close> and the same executions of tasks, the same workers and the same gate; the two tickets of the
  ring are the numbers of tasks taken and submitted, modulo the word size; so no task is run twice or made up.\<close>

theorem pool_over_ring:
  assumes "0 < n" "ring_size_ok (length ds)" "Suc m < 2 ^ 32"
    and "lts_run (PoolRing_step mv dead tso kblock) (PoolRing_start n m batch ds) tr s"
  shows "(\<exists>a. lts_run (pool_step tso kblock (length ds)) (new_ThreadPool n m) tr a \<and> workers a = workers (pool s) \<and>
      taskFlag a = taskFlag (pool s) \<and> mpc a = mpc (pool s) \<and> writeTicket (shared (taskQueue s)) = of_nat (length (qvals a)) \<and>
      readTicket (shared (taskQueue s)) = of_nat (qread a)) \<and>
    mset (executed tr) \<subseteq># tasks (submitted tr)"
proof -
  from pool_over_ring_run [OF assms] obtain t cs where
    a: "lts_run (pool_step tso kblock (length ds)) (new_ThreadPool n m) tr (abs_of s t cs)" "composed (length ds) s t cs" .
  have "ring_rel (taskQueue s) t" using queue_relD(1) [OF composedD(1) [OF a(2)]] .
  then have "writeTicket (shared (taskQueue s)) = of_nat (tkW t)" "readTicket (shared (taskQueue s)) = of_nat (tkR t)"
    by (auto simp: ring_rel_def mem_rel_def)
  then show ?thesis using a(1) pool_at_most_once [OF assms(1) a(1)]
    by (intro conjI exI [of _ "abs_of s t cs"]) (simp_all add: abs_of_def)
qed

theorem pool_over_ring_witness:
  "\<exists>tr (a :: int ThreadPool). lts_run (pool_step False Not 2) (new_ThreadPool 1 1) tr a \<and> executed tr = [7] \<and>
     map wpc (workers a) = [WSleep] \<and> (of_nat (qread a) :: u64) = 1"
proof -
  obtain tr and s :: "int PoolRing" where s: "lts_run (PoolRing_step id id False Not) (PoolRing_start 1 1 [] [None, None]) tr s"
    "executed tr = [7]" "map wpc (workers (pool s)) = [WSleep]" "readTicket (shared (taskQueue s)) = 1"
    by (rule ring_task_run)
  have two: "length [None, None :: int option] = 2" by simp
  from pool_over_ring [OF _ two_slots _ s(1)] obtain a where "lts_run (pool_step False Not 2) (new_ThreadPool 1 1) tr a"
    "workers a = workers (pool s)" "readTicket (shared (taskQueue s)) = of_nat (qread a)" unfolding two by auto
  then show ?thesis using s(2-4) by (intro exI [of _ tr] exI [of _ a]) simp
qed



end
