(* ===== verification/Thread_Gate.thy ===== *)
theory Thread_Gate
  imports Astra_Prelude
begin

text \<open>
  \<open>ThreadGate\<close> (include/AstraLib/Threading/ThreadPool.hpp) on its own: any number of threads that call \<open>waiter\<close>,
  \<open>signaler\<close> and \<open>reset\<close> on one gate. Each gate of the thread pool has one waiter; theory \<open>Thread_Pool\<close> has its gates built into the
  threads that use them. As there, \<open>kblock v\<close> says whether \<open>FUTEX_WAIT\<close> with the expected value 0 sleeps when the word is \<open>v\<close>, and a sleeper may
  wake for no reason.
\<close>

section \<open>The machine\<close>

datatype gpc = GIdle | GLoad | GFutex | GSleep | GWake

record ThreadGate =
  gflag :: i32
  gpcs :: "gpc list"

datatype gate_ev = GWaitCall tid | GWaitRet tid | GSignal tid | GSignalRet tid | GReset tid | GTau

definition new_ThreadGate :: "nat \<Rightarrow> ThreadGate" where
  "new_ThreadGate n = \<lparr>gflag = 0, gpcs = replicate n GIdle\<rparr>"

text \<open>The load of the flag in the loop of \<open>waiter\<close>, and the system call.\<close>

definition waiter_load :: "tid \<Rightarrow> ThreadGate \<Rightarrow> ThreadGate" where
  "waiter_load i g = g\<lparr>gpcs := (gpcs g)[i := (if gflag g = 1 then GIdle else GFutex)]\<rparr>"

definition waiter_futex :: "(i32 \<Rightarrow> bool) \<Rightarrow> tid \<Rightarrow> ThreadGate \<Rightarrow> ThreadGate" where
  "waiter_futex kblock i g = g\<lparr>gpcs := (gpcs g)[i := (if kblock (gflag g) then GSleep else GLoad)]\<rparr>"

definition signaler_store :: "tid \<Rightarrow> ThreadGate \<Rightarrow> ThreadGate" where
  "signaler_store i g = g\<lparr>gflag := 1, gpcs := (gpcs g)[i := GWake]\<rparr>"

definition gate_reset :: "ThreadGate \<Rightarrow> ThreadGate" where
  "gate_reset g = g\<lparr>gflag := 0\<rparr>"

inductive gate_step :: "(i32 \<Rightarrow> bool) \<Rightarrow> ThreadGate \<Rightarrow> gate_ev \<Rightarrow> ThreadGate \<Rightarrow> bool" for kblock where
  g_wait: "i < length (gpcs g) \<Longrightarrow> gpcs g ! i = GIdle \<Longrightarrow> gate_step kblock g (GWaitCall i) (g\<lparr>gpcs := (gpcs g)[i := GLoad]\<rparr>)"
| g_load: "i < length (gpcs g) \<Longrightarrow> gpcs g ! i = GLoad \<Longrightarrow>
    gate_step kblock g (if gflag g = 1 then GWaitRet i else GTau) (waiter_load i g)"
| g_futex: "i < length (gpcs g) \<Longrightarrow> gpcs g ! i = GFutex \<Longrightarrow> gate_step kblock g GTau (waiter_futex kblock i g)"
| g_spurious: "i < length (gpcs g) \<Longrightarrow> gpcs g ! i = GSleep \<Longrightarrow> gate_step kblock g GTau (g\<lparr>gpcs := (gpcs g)[i := GLoad]\<rparr>)"
| g_signal: "i < length (gpcs g) \<Longrightarrow> gpcs g ! i = GIdle \<Longrightarrow> gate_step kblock g (GSignal i) (signaler_store i g)"
| g_wake: "i < length (gpcs g) \<Longrightarrow> gpcs g ! i = GWake \<Longrightarrow> j < length (gpcs g) \<Longrightarrow> gpcs g ! j = GSleep \<Longrightarrow>
    gate_step kblock g (GSignalRet i) (g\<lparr>gpcs := (gpcs g)[j := GLoad, i := GIdle]\<rparr>)"
| g_wake_none: "i < length (gpcs g) \<Longrightarrow> gpcs g ! i = GWake \<Longrightarrow> GSleep \<notin> set (gpcs g) \<Longrightarrow>
    gate_step kblock g (GSignalRet i) (g\<lparr>gpcs := (gpcs g)[i := GIdle]\<rparr>)"
| g_reset: "i < length (gpcs g) \<Longrightarrow> gpcs g ! i = GIdle \<Longrightarrow> gate_step kblock g (GReset i) (gate_reset g)"

lemmas gate_defs = waiter_load_def waiter_futex_def signaler_store_def gate_reset_def

lemma gate_step_length: "gate_step kblock g e g' \<Longrightarrow> length (gpcs g') = length (gpcs g)"
  by (induction rule: gate_step.induct) (simp_all add: gate_defs)

section \<open>One waiter\<close>

text \<open>When only thread \<open>w\<close> waits, the others never sleep, and it sleeps behind an open gate only while a wake-up is under way.\<close>

fun waiting :: "gpc \<Rightarrow> bool" where
  "waiting GLoad = True"
| "waiting GFutex = True"
| "waiting GSleep = True"
| "waiting _ = False"

definition one_waiter :: "tid \<Rightarrow> gate_ev list \<Rightarrow> bool" where
  "one_waiter w tr \<longleftrightarrow> (\<forall>i. GWaitCall i \<in> set tr \<longrightarrow> i = w)"

definition gate_inv :: "tid \<Rightarrow> gate_ev list \<Rightarrow> ThreadGate \<Rightarrow> bool" where
  "gate_inv w tr g \<longleftrightarrow> one_waiter w tr \<longrightarrow>
     (\<forall>i < length (gpcs g). i \<noteq> w \<longrightarrow> \<not> waiting (gpcs g ! i)) \<and> (w < length (gpcs g) \<and> gpcs g ! w = GSleep \<and> gflag g = 1 \<longrightarrow> GWake \<in> set (gpcs g))"

lemma one_waiter_snoc: "one_waiter w (tr @ [e]) \<longleftrightarrow> one_waiter w tr \<and> (\<forall>i. e = GWaitCall i \<longrightarrow> i = w)"
  by (auto simp: one_waiter_def)

lemma gate_inv_step:
  assumes k: "\<not> kblock 1" and inv: "gate_inv w tr g" and st: "gate_step kblock g e g'"
  shows "gate_inv w (tr @ [e]) g'"
proof -
  have keep: "GWake \<in> set ((gpcs g)[i := p])" if "GWake \<in> set (gpcs g)" "gpcs g ! i \<noteq> GWake" for i p
    by (rule in_set_update_other [OF that(1) that(2) [symmetric]])
  from st show ?thesis
  proof cases
    case (g_wake i j)
    then have "j = w" if "one_waiter w tr" using inv that by (force simp: gate_inv_def)
    then show ?thesis using g_wake inv by (auto simp: gate_inv_def one_waiter_snoc nth_list_update split: if_splits)
  next
    case (g_wake_none i)
    then have "gpcs g ! w \<noteq> GSleep" if "w < length (gpcs g)" using that nth_mem by metis
    then show ?thesis using g_wake_none inv by (auto simp: gate_inv_def one_waiter_snoc nth_list_update)
  next
    case (g_signal i)
    then show ?thesis using inv by (auto simp: gate_inv_def one_waiter_snoc nth_list_update gate_defs intro: set_update_memI)
  qed (use k inv keep in \<open>auto simp: gate_inv_def one_waiter_snoc nth_list_update gate_defs split: if_splits\<close>)
qed

lemma gate_inv_run:
  assumes "\<not> kblock 1" "lts_run (gate_step kblock) (new_ThreadGate n) tr g"
  shows "gate_inv w tr g"
  using assms(2)
proof (induction rule: lts_run.induct)
  case run_nil
  show ?case by (simp add: gate_inv_def new_ThreadGate_def)
next
  case (run_snoc tr g e g')
  then show ?case using gate_inv_step [where kblock = kblock, OF assms(1)] by blast
qed

text \<open>With one waiter no signal is lost: a waiter that sleeps although the flag is set is about to be woken. And \<open>waiter\<close> returns only
  when it has read 1.\<close>

theorem gate_signal_not_lost:
  assumes "\<not> kblock 1" "lts_run (gate_step kblock) (new_ThreadGate n) tr g" "one_waiter w tr" "w < n"
    and "gpcs g ! w = GSleep" "gflag g = 1"
  shows "GWake \<in> set (gpcs g)"
proof -
  have "length (gpcs g) = n"
    using assms(2) by (induction rule: lts_run.induct) (simp_all add: new_ThreadGate_def gate_step_length)
  then show ?thesis using gate_inv_run [OF assms(1,2), of w] assms(3-6) by (simp add: gate_inv_def)
qed

theorem waiter_returns_open:
  "gate_step kblock g (GWaitRet i) g' \<Longrightarrow> gflag g = 1"
  by (cases rule: gate_step.cases) (auto split: if_splits)

text \<open>
  \<open>FUTEX_WAKE\<close> wakes one thread: with a second waiter on the same gate, one signal leaves the other asleep behind an open gate, with nobody
  left to wake it. The pool has one waiter for each gate.
\<close>

theorem second_waiter_stranded:
  "\<exists>tr g. lts_run (gate_step (\<lambda>v. v = 0)) (new_ThreadGate 3) tr g \<and> gpcs g = [GIdle, GSleep, GIdle] \<and> gflag g = 1"
proof -
  let ?st = "gate_step (\<lambda>v. v = 0)" and ?g = "\<lambda>f a b c. \<lparr>gflag = f, gpcs = [a, b, c]\<rparr>"
  have s0: "new_ThreadGate 3 = ?g 0 GIdle GIdle GIdle" by (simp add: new_ThreadGate_def numeral_3_eq_3)
  have a: "?st (?g 0 GIdle GIdle GIdle) (GWaitCall 0) (?g 0 GLoad GIdle GIdle)" using g_wait [of 0 "?g 0 GIdle GIdle GIdle"] by simp
  have b: "?st (?g 0 GLoad GIdle GIdle) GTau (?g 0 GFutex GIdle GIdle)" using g_load [of 0 "?g 0 GLoad GIdle GIdle"] by (simp add: gate_defs)
  have c: "?st (?g 0 GFutex GIdle GIdle) GTau (?g 0 GSleep GIdle GIdle)"
    using g_futex [of 0 "?g 0 GFutex GIdle GIdle" "\<lambda>v. v = 0"] by (simp add: gate_defs)
  have d: "?st (?g 0 GSleep GIdle GIdle) (GWaitCall 1) (?g 0 GSleep GLoad GIdle)" using g_wait [of 1 "?g 0 GSleep GIdle GIdle"] by simp
  have e: "?st (?g 0 GSleep GLoad GIdle) GTau (?g 0 GSleep GFutex GIdle)" using g_load [of 1 "?g 0 GSleep GLoad GIdle"] by (simp add: gate_defs)
  have f: "?st (?g 0 GSleep GFutex GIdle) GTau (?g 0 GSleep GSleep GIdle)"
    using g_futex [of 1 "?g 0 GSleep GFutex GIdle" "\<lambda>v. v = 0"] by (simp add: gate_defs)
  have g: "?st (?g 0 GSleep GSleep GIdle) (GSignal 2) (?g 1 GSleep GSleep GWake)" using g_signal [of 2 "?g 0 GSleep GSleep GIdle"] by (simp add: gate_defs)
  have h: "?st (?g 1 GSleep GSleep GWake) (GSignalRet 2) (?g 1 GLoad GSleep GIdle)" using g_wake [of 2 "?g 1 GSleep GSleep GWake" 0] by simp
  have i: "?st (?g 1 GLoad GSleep GIdle) (GWaitRet 0) (?g 1 GIdle GSleep GIdle)" using g_load [of 0 "?g 1 GLoad GSleep GIdle"] by (simp add: gate_defs)
  have "lts_run ?st (new_ThreadGate 3) [GWaitCall 0, GTau, GTau, GWaitCall 1, GTau, GTau, GSignal 2, GSignalRet 2, GWaitRet 0] (?g 1 GIdle GSleep GIdle)"
    unfolding s0 by (rule lts_run_cons, rule a b c d e f g h i)+ (rule lts_run.run_nil)
  then show ?thesis by fastforce
qed

end
