(* ===== verification/Atomic_Futex.thy ===== *)
theory Atomic_Futex
  imports Astra_Prelude
begin

text \<open>
  \<open>AtomicFutex\<close> (include/AstraLib/Atomic/atomicFutex.hpp): any number of threads that call \<open>wait\<close> and
  \<open>wake\<close>. The kernel is a parameter: \<open>kblock v e\<close> says whether \<open>FUTEX_WAIT\<close> with expected value \<open>e\<close>
  puts the caller to sleep when the futex word is \<open>v\<close>; it may also fail with an error other than
  \<open>EAGAIN\<close> and \<open>EINTR\<close>, a sleeper may wake for no reason, and \<open>FUTEX_WAKE\<close> wakes one sleeper of the
  kernel's choice, if there is one.
\<close>

section \<open>The machine\<close>

datatype fpc =
    FIdle
  | FCall i32
  | FSleep i32
  | FCheck i32
  | FWake

record AtomicFutex =
  futex_val :: i32
  fpcs :: "fpc list"

datatype futex_ev = WaitCall tid | WaitRet tid | WaitError tid | WakeCall tid | WakeRet tid | FTau

definition new_AtomicFutex :: "nat \<Rightarrow> AtomicFutex" where
  "new_AtomicFutex n = \<lparr>futex_val = 0, fpcs = replicate n FIdle\<rparr>"

fun sleeping :: "fpc \<Rightarrow> bool" where
  "sleeping (FSleep e) = True"
| "sleeping _ = False"

text \<open>A sleeper that \<open>FUTEX_WAKE\<close> or a signal wakes returns from the call and looks at the word again.\<close>

fun awaken :: "fpc \<Rightarrow> fpc" where
  "awaken (FSleep e) = FCheck e"
| "awaken p = p"

definition set_fpc :: "tid \<Rightarrow> fpc \<Rightarrow> AtomicFutex \<Rightarrow> AtomicFutex" where
  "set_fpc i p s = s\<lparr>fpcs := (fpcs s)[i := p]\<rparr>"

inductive futex_step :: "(i32 \<Rightarrow> i32 \<Rightarrow> bool) \<Rightarrow> AtomicFutex \<Rightarrow> futex_ev \<Rightarrow> AtomicFutex \<Rightarrow> bool" for kblock where
  call_wait: "i < length (fpcs s) \<Longrightarrow> fpcs s ! i = FIdle \<Longrightarrow>
    futex_step kblock s (WaitCall i) (set_fpc i (FCall (futex_val s)) s)"
| futex_wait: "i < length (fpcs s) \<Longrightarrow> fpcs s ! i = FCall e \<Longrightarrow>
    futex_step kblock s FTau (set_fpc i (if kblock (futex_val s) e then FSleep e else FCheck e) s)"
| futex_error: "i < length (fpcs s) \<Longrightarrow> fpcs s ! i = FCall e \<Longrightarrow>
    futex_step kblock s (WaitError i) (set_fpc i FIdle s)"
| interrupted: "i < length (fpcs s) \<Longrightarrow> fpcs s ! i = FSleep e \<Longrightarrow>
    futex_step kblock s FTau (set_fpc i (FCheck e) s)"
| recheck: "i < length (fpcs s) \<Longrightarrow> fpcs s ! i = FCheck e \<Longrightarrow> futex_val s = e \<Longrightarrow>
    futex_step kblock s FTau (set_fpc i (FCall e) s)"
| wait_return: "i < length (fpcs s) \<Longrightarrow> fpcs s ! i = FCheck e \<Longrightarrow> futex_val s \<noteq> e \<Longrightarrow>
    futex_step kblock s (WaitRet i) (set_fpc i FIdle s)"
| call_wake: "i < length (fpcs s) \<Longrightarrow> fpcs s ! i = FIdle \<Longrightarrow>
    futex_step kblock s (WakeCall i) (set_fpc i FWake (s\<lparr>futex_val := futex_val s + 1\<rparr>))"
| futex_wake: "i < length (fpcs s) \<Longrightarrow> fpcs s ! i = FWake \<Longrightarrow> j < length (fpcs s) \<Longrightarrow> sleeping (fpcs s ! j) \<Longrightarrow>
    futex_step kblock s (WakeRet i) (set_fpc j (awaken (fpcs s ! j)) (set_fpc i FIdle s))"
| futex_wake_none: "i < length (fpcs s) \<Longrightarrow> fpcs s ! i = FWake \<Longrightarrow> \<not> list_ex sleeping (fpcs s) \<Longrightarrow>
    futex_step kblock s (WakeRet i) (set_fpc i FIdle s)"

section \<open>Wake-ups since a call\<close>

text \<open>The number of calls of \<open>wake\<close> since the latest call of \<open>wait\<close> by thread \<open>i\<close>.\<close>

fun wakes_since :: "tid \<Rightarrow> futex_ev list \<Rightarrow> nat" where
  "wakes_since i [] = 0"
| "wakes_since i (WaitCall j # tr) = (if i = j then 0 else wakes_since i tr)"
| "wakes_since i (WakeCall j # tr) = Suc (wakes_since i tr)"
| "wakes_since i (_ # tr) = wakes_since i tr"

fun snapshot :: "fpc \<Rightarrow> i32 option" where
  "snapshot (FCall e) = Some e"
| "snapshot (FSleep e) = Some e"
| "snapshot (FCheck e) = Some e"
| "snapshot _ = None"

text \<open>The word has moved on from the snapshot of a waiting thread by the number of wake-ups since its call.\<close>

definition futex_inv :: "futex_ev list \<Rightarrow> AtomicFutex \<Rightarrow> bool" where
  "futex_inv tr s \<longleftrightarrow> (\<forall>i < length (fpcs s). \<forall>e. snapshot (fpcs s ! i) = Some e \<longrightarrow>
     futex_val s = e + of_nat (wakes_since i (rev tr)))"

lemma snapshot_awaken [simp]: "snapshot (awaken p) = snapshot p"
  by (cases p) auto

lemma set_fpc_simps [simp]:
  "futex_val (set_fpc i p s) = futex_val s" "fpcs (set_fpc i p s) = (fpcs s)[i := p]"
  by (simp_all add: set_fpc_def)

lemma futex_inv_quiet:
  assumes "futex_inv tr s" "futex_val s' = futex_val s" "fpcs s' = (fpcs s)[i := p]" "i < length (fpcs s)"
    and "\<And>e. snapshot p = Some e \<Longrightarrow> snapshot (fpcs s ! i) = Some e" "\<And>j. wakes_since j (rev (tr @ [l])) = wakes_since j (rev tr)"
  shows "futex_inv (tr @ [l]) s'"
  using assms by (auto simp: futex_inv_def nth_list_update)

lemma futex_inv_step:
  assumes inv: "futex_inv tr s" and st: "futex_step kblock s l s'"
  shows "futex_inv (tr @ [l]) s'"
  using st
proof cases
  case (call_wait i)
  then show ?thesis using inv by (auto simp: futex_inv_def nth_list_update)
next
  case (call_wake i)
  then show ?thesis using inv by (auto simp: futex_inv_def nth_list_update)
next
  case (futex_wake i j)
  then have "futex_inv (tr @ [l]) (set_fpc i FIdle s)"
    by (intro futex_inv_quiet [OF inv, where p = FIdle and i = i]) auto
  moreover have "i \<noteq> j" using futex_wake by auto
  ultimately show ?thesis using futex_wake by (auto simp: futex_inv_def nth_list_update)
qed (auto intro!: futex_inv_quiet [OF inv] split: if_splits)

interpretation futexm: lts_invariant "futex_step kblock" "\<lambda>s. \<exists>n. s = new_AtomicFutex n" futex_inv
  for kblock
proof unfold_locales
  show "\<exists>n. s = new_AtomicFutex n \<Longrightarrow> futex_inv [] s" for s by (auto simp: futex_inv_def new_AtomicFutex_def)
qed (rule futex_inv_step)

lemma futex_run_length: "lts_run (futex_step kblock) s0 tr s \<Longrightarrow> length (fpcs s) = length (fpcs s0)"
  by (induction rule: lts_run.induct) (auto elim!: futex_step.cases)

section \<open>A single waiter\<close>

definition stranded_free :: "tid \<Rightarrow> AtomicFutex \<Rightarrow> bool" where
  "stranded_free w s \<longleftrightarrow> w < length (fpcs s) \<and> (\<forall>i < length (fpcs s). i \<noteq> w \<longrightarrow> snapshot (fpcs s ! i) = None) \<and>
     (\<forall>e. fpcs s ! w = FSleep e \<and> futex_val s \<noteq> e \<longrightarrow> FWake \<in> set (fpcs s))"

lemma stranded_free_step:
  assumes inv: "stranded_free w s" and st: "futex_step kblock s l s'" and k: "\<And>v e. kblock v e \<Longrightarrow> v = e"
    and only: "\<And>i. l = WaitCall i \<Longrightarrow> i = w"
  shows "stranded_free w s'"
  using st
proof cases
  case (call_wait i)
  then show ?thesis using inv only by (auto simp: stranded_free_def nth_list_update)
next
  case (futex_wait i e)
  then have "i = w" using inv by (auto simp: stranded_free_def)
  then show ?thesis using inv futex_wait k by (auto simp: stranded_free_def nth_list_update)
next
  case (call_wake i)
  then show ?thesis using inv by (auto simp: stranded_free_def nth_list_update set_update_memI)
next
  case (futex_wake i j)
  then have "j = w" using inv by (cases "fpcs s ! j") (auto simp: stranded_free_def)
  then show ?thesis using inv futex_wake by (cases "fpcs s ! j") (auto simp: stranded_free_def nth_list_update)
next
  case (futex_wake_none i)
  then have "\<not> sleeping (fpcs s ! w)" using inv by (auto simp: stranded_free_def list_ex_iff)
  then show ?thesis using inv futex_wake_none by (auto simp: stranded_free_def nth_list_update)
next
  case (futex_error i e)
  then have "i = w" using inv by (auto simp: stranded_free_def)
  then show ?thesis using inv futex_error by (auto simp: stranded_free_def nth_list_update)
next
  case (interrupted i e)
  then have "i = w" using inv by (auto simp: stranded_free_def)
  then show ?thesis using inv interrupted by (auto simp: stranded_free_def nth_list_update)
next
  case (recheck i e)
  then have "i = w" using inv by (auto simp: stranded_free_def)
  then show ?thesis using inv recheck by (auto simp: stranded_free_def nth_list_update)
next
  case (wait_return i e)
  then have "i = w" using inv by (auto simp: stranded_free_def)
  then show ?thesis using inv wait_return by (auto simp: stranded_free_def nth_list_update)
qed

section \<open>Properties\<close>

text \<open>C25: \<open>wait\<close> is edge-triggered. It returns, except on a kernel error, only if \<open>wake\<close> was called since the call of \<open>wait\<close>: a
  wake-up that came before is not remembered, and spurious wake-ups of the kernel are absorbed. A
  thread whose snapshot equals the word sees a multiple of \<open>2 ^ 32\<close> wake-ups as none.\<close>

theorem wait_needs_wake:
  assumes "lts_run (futex_step kblock) (new_AtomicFutex n) tr s" "futex_step kblock s (WaitRet i) s'"
  shows "0 < wakes_since i (rev tr) \<and> \<not> 2 ^ 32 dvd wakes_since i (rev tr)"
proof -
  have "futex_inv tr s" using futexm.inv_run [OF assms(1)] by blast
  moreover from assms(2) obtain e where "i < length (fpcs s)" "fpcs s ! i = FCheck e" "futex_val s \<noteq> e"
    by cases auto
  ultimately have "of_nat (wakes_since i (rev tr)) \<noteq> (0 :: i32)" by (auto simp: futex_inv_def)
  then have "\<not> 2 ^ LENGTH(32) dvd wakes_since i (rev tr)" using word_of_nat_eq_0_iff by blast
  then show ?thesis by (cases "wakes_since i (rev tr) = 0") simp_all
qed

text \<open>Thread 0 waits and sleeps, thread 1 wakes it.\<close>

definition futex_at :: "i32 \<Rightarrow> fpc \<Rightarrow> fpc \<Rightarrow> AtomicFutex" where
  "futex_at v p q = \<lparr>futex_val = v, fpcs = [p, q]\<rparr>"

lemma wake_up_steps:
  "futex_step (=) (futex_at 0 FIdle FIdle) (WaitCall 0) (futex_at 0 (FCall 0) FIdle)"
  "futex_step (=) (futex_at 0 (FCall 0) FIdle) FTau (futex_at 0 (FSleep 0) FIdle)"
  "futex_step (=) (futex_at 0 (FSleep 0) FIdle) (WakeCall 1) (futex_at 1 (FSleep 0) FWake)"
  "futex_step (=) (futex_at 1 (FSleep 0) FWake) (WakeRet 1) (futex_at 1 (FCheck 0) FIdle)"
  "futex_step (=) (futex_at 1 (FCheck 0) FIdle) (WaitRet 0) (futex_at 1 FIdle FIdle)"
  using call_wait [of 0 "futex_at 0 FIdle FIdle"] futex_wait [of 0 "futex_at 0 (FCall 0) FIdle" 0 "(=)"]
    call_wake [of 1 "futex_at 0 (FSleep 0) FIdle"] futex_wake [of 1 "futex_at 1 (FSleep 0) FWake" 0]
    wait_return [of 0 "futex_at 1 (FCheck 0) FIdle" 0]
  by (simp_all add: futex_at_def set_fpc_def)

lemma sleep_run: "lts_run (futex_step (=)) (new_AtomicFutex 2) [WaitCall 0, FTau, WakeCall 1] (futex_at 1 (FSleep 0) FWake)"
proof -
  have "new_AtomicFutex 2 = futex_at 0 FIdle FIdle" by (simp add: new_AtomicFutex_def futex_at_def numeral_2_eq_2)
  then show ?thesis
    by (simp only:) (rule lts_run_cons, rule wake_up_steps(1), rule lts_run_cons, rule wake_up_steps(2),
      rule lts_run_cons, rule wake_up_steps(3), rule lts_run.run_nil)
qed

theorem wait_needs_wake_witness: "0 < wakes_since 0 (rev ([WaitCall 0, FTau, WakeCall 1] @ [WakeRet 1]))"
proof -
  have "lts_run (futex_step (=)) (new_AtomicFutex 2) ([WaitCall 0, FTau, WakeCall 1] @ [WakeRet 1]) (futex_at 1 (FCheck 0) FIdle)"
    by (rule lts_run.run_snoc, rule sleep_run, rule wake_up_steps(4))
  from wait_needs_wake [OF this wake_up_steps(5)] show ?thesis by simp
qed

text \<open>One waiter is never stranded. If a single thread waits and the kernel blocks it only while the word equals the
  expected value, then whenever it sleeps although the word has changed, a \<open>FUTEX_WAKE\<close> is on its way.\<close>

theorem single_waiter_woken:
  assumes "\<forall>v e. kblock v e \<longrightarrow> v = e" "w < n"
    and "lts_run (futex_step kblock) (new_AtomicFutex n) tr s" "\<forall>i. WaitCall i \<in> set tr \<longrightarrow> i = w"
    and "fpcs s ! w = FSleep e"
  shows "futex_val s = e \<or> FWake \<in> set (fpcs s)"
proof -
  have "stranded_free w s"
    using assms(3,4)
  proof (induction rule: lts_run.induct)
    case run_nil
    then show ?case using assms(2) by (auto simp: stranded_free_def new_AtomicFutex_def)
  next
    case (run_snoc tr s l s')
    then show ?case using assms(1) by (intro stranded_free_step [of w s kblock l s']) auto
  qed
  then show ?thesis using assms(5) by (auto simp: stranded_free_def)
qed

theorem single_waiter_woken_witness: "futex_val (futex_at 1 (FSleep 0) FWake) = 0 \<or> FWake \<in> set (fpcs (futex_at 1 (FSleep 0) FWake))"
  by (rule single_waiter_woken [OF _ _ sleep_run, of 0]) (auto simp: futex_at_def)

end
