(* ===== verification/Padded_Atomic.thy ===== *)
theory Padded_Atomic
  imports Astra_Prelude
begin

text \<open>
  \<open>PaddedAtomic\<close> (include/AstraLib/Atomic/paddedAtomic.hpp): the layout of the structure and of arrays of it. \<open>sz\<close> is
  \<open>sizeof(std::atomic<T>)\<close>, a parameter; the arithmetic is that of \<open>std::size_t\<close>.
\<close>

section \<open>Layout\<close>

text \<open>The bound of the array \<open>padding\<close>; it wraps round for a payload of more than 64 bytes.\<close>

definition padding_len :: "u64 \<Rightarrow> u64" where
  "padding_len sz = 64 - sz"

text \<open>
  \<open>sizeof(PaddedAtomic<T>)\<close>: \<open>value\<close> is at offset 0 and \<open>padding\<close>, of alignment 1, follows; the sum is rounded up
  to the alignment 64. An array bound of zero or above the largest object size is ill-formed (\<open>None\<close>).
\<close>

definition sizeof_PaddedAtomic :: "u64 \<Rightarrow> u64 option" where
  "sizeof_PaddedAtomic sz =
     (if padding_len sz = 0 \<or> 2 ^ 63 \<le> padding_len sz then None
      else Some ((sz + padding_len sz + 63) div 64 * 64))"

text \<open>The constructor from a value; \<open>PaddedAtomic()\<close> leaves it to the atomic.\<close>

record 'a PaddedAtomic =
  padded_value :: 'a

definition new_PaddedAtomic :: "'a \<Rightarrow> 'a PaddedAtomic" where
  "new_PaddedAtomic v = \<lparr>padded_value = v\<rparr>"

text \<open>The addresses of the bytes of \<open>value\<close> of element \<open>i\<close> of an array at address \<open>base\<close>, and their cache lines of 64 bytes.\<close>

definition value_bytes :: "nat \<Rightarrow> nat \<Rightarrow> nat \<Rightarrow> nat list" where
  "value_bytes stride sz i = map ((+) (stride * i)) [0..<sz]"

definition cache_lines :: "nat \<Rightarrow> nat list \<Rightarrow> nat list" where
  "cache_lines base bs = map (\<lambda>b. (base + b) div 64) bs"

section \<open>Properties\<close>

lemma padded_size_small:
  assumes "0 < sz" "sz < 64"
  shows "sizeof_PaddedAtomic sz = Some 64"
proof -
  have "unat sz < 64" "0 < unat sz" using assms by (simp_all add: word_less_nat_alt unat_gt_0)
  moreover have "unat (64 - sz) = 64 - unat sz" using assms(2) by (subst unat_sub) (simp_all add: word_le_nat_alt word_less_nat_alt)
  ultimately have "64 - sz \<noteq> 0" "\<not> 2 ^ 63 \<le> (64 - sz :: u64)" by (auto simp: word_le_nat_alt)
  then show ?thesis by (simp add: sizeof_PaddedAtomic_def padding_len_def)
qed

lemma padded_size_large:
  assumes "64 \<le> sz" "sz < 2 ^ 63"
  shows "sizeof_PaddedAtomic sz = None"
proof (cases "sz = 64")
  case False
  then have "64 < sz" using assms(1) by simp
  then have lt: "64 < unat sz" "unat sz < 2 ^ 63" using assms(2) by (simp_all add: word_less_nat_alt)
  then have "unat (64 - sz) = 64 + 2 ^ 64 - unat sz" by (simp add: unat_sub_if')
  then have "2 ^ 63 \<le> (64 - sz :: u64)" using lt by (simp add: word_le_nat_alt)
  then show ?thesis by (simp add: sizeof_PaddedAtomic_def padding_len_def)
qed (simp add: sizeof_PaddedAtomic_def padding_len_def)

text \<open>
  A payload of up to 63 bytes gives exactly one cache line, one of 64 bytes or more does not compile; and no
  two elements of an array that starts at a multiple of 64 share a cache line.
\<close>

theorem padded_no_false_sharing:
  assumes "0 < sz" "sz < 2 ^ 63" "64 dvd base" "i \<noteq> j"
  shows "case sizeof_PaddedAtomic sz of
      None \<Rightarrow> 64 \<le> sz
    | Some stride \<Rightarrow> stride = 64 \<and> sz < 64 \<and>
        set (cache_lines base (value_bytes (unat stride) (unat sz) i)) \<inter>
        set (cache_lines base (value_bytes (unat stride) (unat sz) j)) = {}"
proof (cases "sz < 64")
  case True
  obtain l where l: "base = 64 * l" using assms(3) by blast
  have "unat sz < 64" using True by (simp add: word_less_nat_alt)
  then have "(64 * l + (64 * k + b)) div 64 = l + k" if "b < unat sz" for k b
    using that by (simp add: div_nat_eqI)
  then show ?thesis
    using padded_size_small [OF assms(1) True] True assms(4) by (auto simp: cache_lines_def value_bytes_def l)
next
  case False
  then show ?thesis using padded_size_large [OF _ assms(2)] by simp
qed

end
