(* ===== verification/Time_Util.thy ===== *)
theory Time_Util
  imports Astra_Prelude Complex_Main "HOL-Library.Signed_Division"
begin

text \<open>
  \<open>unixTimestampNS\<close>, \<open>unixTimestampMS\<close> (include/AstraLib/Time/timeNow.hpp) and \<open>Timer\<close>
  (include/AstraLib/Time/timer.hpp). The clock and the time-stamp counter are read from outside:
  their readings are arguments. \<open>system_clock\<close> counts nanoseconds; \<open>duration_cast\<close> to a coarser unit
  truncates towards zero. The \<open>double\<close> operations of \<open>Timer\<close> are real operations followed by a
  rounding function \<open>fl\<close>, an argument too.
\<close>

section \<open>Timestamps\<close>

definition duration_cast :: "int \<Rightarrow> int \<Rightarrow> int" where
  "duration_cast ns_per_tick now_ns = now_ns sdiv ns_per_tick"

definition unixTimestampNS :: "int \<Rightarrow> int" where
  "unixTimestampNS now_ns = duration_cast 1 now_ns"

definition unixTimestampMS :: "int \<Rightarrow> int" where
  "unixTimestampMS now_ns = duration_cast 1000000 now_ns"

lemma duration_cast_eq:
  "0 < u \<Longrightarrow> duration_cast u now = (if 0 \<le> now then now div u else - ((- now) div u))"
  by (auto simp: duration_cast_def signed_divide_int_def sgn_if)

section \<open>Timer\<close>

text \<open>\<open>aux\<close> and the four \<open>cpuid\<close> registers are only written and never read; they are left out.\<close>

record Timer =
  startTime :: u64
  ghz :: real

text \<open>The conversion of a \<open>uint64_t\<close> to \<open>double\<close>.\<close>

definition to_double :: "(real \<Rightarrow> real) \<Rightarrow> u64 \<Rightarrow> real" where
  "to_double fl w = fl (real (unat w))"

definition setGHz :: "(real \<Rightarrow> real) \<Rightarrow> u64 \<Rightarrow> u64 \<Rightarrow> Timer \<Rightarrow> Timer" where
  "setGHz fl t1 t2 s = s\<lparr>ghz := fl (to_double fl (t2 - t1) / 1000000000)\<rparr>"

text \<open>The constructor calibrates; the other members keep what their memory holds.\<close>

definition new_Timer :: "(real \<Rightarrow> real) \<Rightarrow> u64 \<Rightarrow> u64 \<Rightarrow> Timer \<Rightarrow> Timer" where
  "new_Timer fl t1 t2 uninitialised = setGHz fl t1 t2 uninitialised"

definition timer_start :: "u64 \<Rightarrow> Timer \<Rightarrow> Timer" where
  "timer_start tsc s = s\<lparr>startTime := tsc\<rparr>"

definition getTimeCycles :: "u64 \<Rightarrow> Timer \<Rightarrow> u64" where
  "getTimeCycles endTime s = endTime - startTime s"

definition getTimeNs :: "(real \<Rightarrow> real) \<Rightarrow> u64 \<Rightarrow> Timer \<Rightarrow> real" where
  "getTimeNs fl endTime s = fl (to_double fl (getTimeCycles endTime s) / ghz s)"

text \<open>The three numbers \<open>write\<close> prints: cycles, nanoseconds, microseconds.\<close>

definition timer_write :: "(real \<Rightarrow> real) \<Rightarrow> u64 \<Rightarrow> Timer \<Rightarrow> u64 \<times> real \<times> real" where
  "timer_write fl endTime s =
     (let cycles = getTimeCycles endTime s; ns = fl (to_double fl cycles / ghz s) in (cycles, ns, fl (ns / 1000)))"

text \<open>Cycles are exact across a wrap-around of the counter.\<close>

lemma getTimeCycles_exact:
  assumes "k < 2 ^ 64"
  shows "unat (getTimeCycles (tsc + of_nat k) (timer_start tsc s)) = k"
  using assms by (simp add: getTimeCycles_def timer_start_def unat_of_nat)

lemma rounding_twice:
  fixes fl :: "real \<Rightarrow> real"
  assumes "\<And>x. \<bar>fl x - x\<bar> \<le> e * \<bar>x\<bar>" "0 \<le> e" "0 \<le> c" "0 < g"
  shows "\<bar>fl (fl c / g) - c / g\<bar> \<le> ((1 + e)\<^sup>2 - 1) * (c / g)"
proof -
  have a: "\<bar>fl c - c\<bar> \<le> e * c" using assms(1) [of c] assms(3) by simp
  then have "\<bar>fl c\<bar> \<le> (1 + e) * c" using assms(3) by (simp add: algebra_simps)
  then have "\<bar>fl c / g\<bar> \<le> (1 + e) * (c / g)" using assms(4) by (simp add: divide_right_mono)
  then have "e * \<bar>fl c / g\<bar> \<le> e * ((1 + e) * (c / g))" using assms(2) by (rule mult_left_mono)
  then have "\<bar>fl (fl c / g) - fl c / g\<bar> \<le> e * ((1 + e) * (c / g))" using assms(1) [of "fl c / g"] by linarith
  moreover have "\<bar>fl c / g - c / g\<bar> \<le> e * (c / g)"
    using a assms(4) by (simp flip: diff_divide_distrib add: divide_right_mono)
  moreover have "\<bar>fl (fl c / g) - c / g\<bar> \<le> \<bar>fl (fl c / g) - fl c / g\<bar> + \<bar>fl c / g - c / g\<bar>" by simp
  ultimately have "\<bar>fl (fl c / g) - c / g\<bar> \<le> e * ((1 + e) * (c / g)) + e * (c / g)" by linarith
  also have "\<dots> = ((1 + e)\<^sup>2 - 1) * (c / g)" by (simp add: power2_eq_square algebra_simps flip: add_divide_distrib)
  finally show ?thesis .
qed

section \<open>Properties\<close>

text \<open>The two timestamps agree: for a clock past the epoch the millisecond stamp is the nanosecond stamp
  rounded down, and for one before the epoch it is rounded up, towards zero.\<close>

theorem timestamps_agree:
  "unixTimestampNS now = now \<and>
    (if 0 \<le> now then unixTimestampMS now = now div 1000000 else unixTimestampMS now = - ((- now) div 1000000))"
  by (simp add: unixTimestampNS_def unixTimestampMS_def duration_cast_eq)

text \<open>\<open>Timer\<close>. The cycle count is exact as long as fewer than \<open>2 ^ 64\<close> cycles pass, also when the counter
  wraps round in between; and the nanoseconds differ from cycles divided by the calibrated rate by at
  most two roundings, for any rounding with relative error \<open>e\<close>.\<close>

theorem timer_elapsed:
  assumes "k < 2 ^ 64" "\<forall>x. \<bar>fl x - x\<bar> \<le> e * \<bar>x\<bar>" "0 \<le> e" "0 < ghz s"
  shows "unat (getTimeCycles (tsc + of_nat k) (timer_start tsc s)) = k \<and>
    \<bar>getTimeNs fl (tsc + of_nat k) (timer_start tsc s) - real k / ghz s\<bar> \<le> ((1 + e)\<^sup>2 - 1) * (real k / ghz s)"
proof -
  have c: "unat (getTimeCycles (tsc + of_nat k) (timer_start tsc s)) = k" using assms(1) by (rule getTimeCycles_exact)
  have "\<bar>fl (fl (real k) / ghz s) - real k / ghz s\<bar> \<le> ((1 + e)\<^sup>2 - 1) * (real k / ghz s)"
    by (rule rounding_twice) (use assms in auto)
  then show ?thesis using c by (simp add: getTimeNs_def to_double_def) (simp add: timer_start_def)
qed

theorem timer_elapsed_witness:
  "unat (getTimeCycles (- 1 + of_nat 3) (timer_start (- 1) \<lparr>startTime = 0, ghz = 2\<rparr>)) = 3"
  using timer_elapsed [of 3 "\<lambda>x. x" 0 "\<lparr>startTime = 0, ghz = 2\<rparr>" "- 1"] by simp

end
