(* ===== verification/Demos.thy ===== *)
theory Demos
  imports Atomic_Ring_Buffer Time_Util
begin

text \<open>
  The two demo programs (demo/atomicRingBufferDemo.cpp, demo/timerDemo.cpp): the calls that \<open>main\<close> makes, in
  order, and what it prints. \<open>None\<close> is a program that does not end or ends with an exception.
\<close>

definition run_then :: "('s, 'r) run \<Rightarrow> ('s \<Rightarrow> 'r \<Rightarrow> 'o option) \<Rightarrow> 'o option" where
  "run_then r k = (case r of Returned s x \<Rightarrow> k s x | _ \<Rightarrow> None)"

lemma run_then_Returned [simp]: "run_then (Returned s x) k = k s x"
  by (simp add: run_then_def)

section \<open>The ring buffer\<close>

record IntStruct =
  ist_a :: i32

datatype demo_line = DequeuedValue i32 | DequeuedStruct i32 | BatchNumbers "i32 list" | EmptyMessage

text \<open>\<open>std::array::at\<close> throws out of range.\<close>

definition array_at :: "'a list \<Rightarrow> nat \<Rightarrow> 'a option" where
  "array_at xs i = (if i < length xs then Some (xs ! i) else None)"

definition ringBufferDemo :: "i32 AtomicRingBuffer \<Rightarrow> IntStruct AtomicRingBuffer \<Rightarrow> demo_line list option" where
  "ringBufferDemo intBuffer structBuffer =
     run_then (enqueue 42 intBuffer) (\<lambda>ib _.
     run_then (dequeue id ib) (\<lambda>ib v.
     run_then (emplaceEnqueue True id (\<lambda>a. Some \<lparr>ist_a = a\<rparr>) 1 structBuffer) (\<lambda>sb _.
     run_then (dequeue id sb) (\<lambda>sb example.
     run_then (enqueue_all enqueue (map of_nat [0..<10]) ib) (\<lambda>ib _.
     run_then (batchDequeue id 10 ib) (\<lambda>ib arr.
     map_option (\<lambda>ns. [DequeuedValue v, DequeuedStruct (ist_a example), BatchNumbers ns] @
         (if isEmpty (clearBuffer ib) then [EmptyMessage] else []))
       (those (map (array_at arr) [0..<10]))))))))"

lemma those_array_at: "n \<le> length xs \<Longrightarrow> those (map (array_at xs) [0..<n]) = Some (take n xs)"
proof -
  assume n: "n \<le> length xs"
  have "those (map f ys) = Some (map g ys)" if "\<And>y. y \<in> set ys \<Longrightarrow> f y = Some (g y)"
    for f :: "nat \<Rightarrow> 'a option" and g ys
    using that by (induction ys) auto
  from this [of "[0..<n]" "array_at xs" "(!) xs"] n have "those (map (array_at xs) [0..<n]) = Some (map ((!) xs) [0..<n])"
    by (simp add: array_at_def)
  also have "map ((!) xs) [0..<n] = take n xs" using n by (intro nth_equalityI) auto
  finally show ?thesis .
qed

text \<open>The batch array is touched by nothing but \<open>batchDequeue\<close>.\<close>

lemma batch_unchanged:
  "enqueue d s = Returned s' u \<Longrightarrow> batchDequeueArray s' = batchDequeueArray s"
  "dequeue mv s = Returned s' x \<Longrightarrow> batchDequeueArray s' = batchDequeueArray s"
  "enqueue_all enqueue ds s = Returned s' u \<Longrightarrow> batchDequeueArray s' = batchDequeueArray s"
proof -
  show e: "enqueue d s = Returned s' u \<Longrightarrow> batchDequeueArray s' = batchDequeueArray s" for d s s' u by (rule enqueue_batch)
  show "dequeue mv s = Returned s' x \<Longrightarrow> batchDequeueArray s' = batchDequeueArray s"
    by (auto simp: dequeue_def dequeue_defs Let_def upd_slot_def split: if_splits)
  show "enqueue_all enqueue ds s = Returned s' u \<Longrightarrow> batchDequeueArray s' = batchDequeueArray s"
  proof (induction ds arbitrary: s)
    case (Cons d ds)
    then show ?case using e by (auto split: run.splits)
  qed simp
qed

text \<open>
  The demo on two rings of 1024 slots and a batch array of 50, whatever their memory holds at first:
  it ends and prints 42, then 1, the numbers 0 to 9 in order, and the message that the buffer is empty.
\<close>

theorem ringBufferDemo_prints:
  assumes "length ds = 1024" "length ss = 1024" "length batch = 50"
  shows "ringBufferDemo (new_AtomicRingBuffer batch ds) (new_AtomicRingBuffer batch' ss) =
    Some [DequeuedValue 42, DequeuedStruct 1, BatchNumbers (map of_nat [0..<10]), EmptyMessage]"
proof -
  let ?nums = "map of_nat [0..<10] :: i32 list"
  have ok: "ring_size_ok 1024" by (simp add: ring_size_ok_def size_asserts_def)
  then have ib0: "ring_inv (new_AtomicRingBuffer batch ds)" "contents (new_AtomicRingBuffer batch ds) = []"
    "SIZE (new_AtomicRingBuffer batch ds) = 1024"
    using new_AtomicRingBuffer_inv [of ds batch] assms(1) by auto
  have sb0: "ring_inv (new_AtomicRingBuffer batch' ss)" "contents (new_AtomicRingBuffer batch' ss) = []"
    "SIZE (new_AtomicRingBuffer batch' ss) = 1024"
    using ok new_AtomicRingBuffer_inv [of ss batch'] assms(2) by auto
  obtain ib1 where ib1: "enqueue 42 (new_AtomicRingBuffer batch ds) = Returned ib1 ()" "ring_inv ib1" "contents ib1 = [42]" "SIZE ib1 = 1024"
    using arb.enq_room [OF ib0(1), of 42] ib0(2,3) by auto
  obtain ib2 where ib2: "dequeue id ib1 = Returned ib2 42" "ring_inv ib2" "contents ib2 = []" "SIZE ib2 = 1024"
    using arb.deq_item [OF ib1(2,3), of id] ib1(4) by auto
  obtain ib3 where ib3: "enqueue_all enqueue ?nums ib2 = Returned ib3 ()" "ring_inv ib3" "contents ib3 = ?nums" "SIZE ib3 = 1024"
    using arb.enqueue_all_room [OF ib2(2), of ?nums] ib2(3,4) by auto
  have "batchDequeueArray ib3 = batch"
    using batch_unchanged(1) [OF ib1(1)] batch_unchanged(2) [OF ib2(1)] batch_unchanged(3) [OF ib3(1)]
    by (simp add: new_AtomicRingBuffer_def prepareBuffer_seq)
  then have "nat (sint (batch_count (BATCH_SIZE ib3) 10)) = 10" "10 \<le> BATCH_SIZE ib3"
    using assms(3) batch_count_nonneg [of 10 "BATCH_SIZE ib3"] by simp_all
  then obtain ib4 where ib4: "batchDequeue id 10 ib3 = Returned ib4 (batchDequeueArray ib4)" "take 10 (batchDequeueArray ib4) = ?nums"
    "10 \<le> length (batchDequeueArray ib4)"
    using batch_loop_spec [OF ib3(2), of 10 0 id] ib3(3) length_contents [of ib3] by (auto simp: batchDequeue_def)
  obtain sb1 where sb1: "enqueue \<lparr>ist_a = 1\<rparr> (new_AtomicRingBuffer batch' ss) = Returned sb1 ()" "ring_inv sb1" "contents sb1 = [\<lparr>ist_a = 1\<rparr>]"
    using arb.enq_room [OF sb0(1), of "\<lparr>ist_a = 1\<rparr>"] sb0(2,3) by auto
  then have "emplaceEnqueue True id (\<lambda>a. Some \<lparr>ist_a = a\<rparr>) 1 (new_AtomicRingBuffer batch' ss) = Returned sb1 ()"
    by (simp add: emplaceEnqueue_def enqueue_def Let_def case_prod_unfold split: if_splits)
  moreover obtain sb2 where "dequeue id sb1 = Returned sb2 \<lparr>ist_a = 1\<rparr>" using arb.deq_item [OF sb1(2,3), of id] by auto
  moreover have "isEmpty (clearBuffer ib4)" by (simp add: isEmpty_def clearBuffer_def prepareBuffer_seq)
  ultimately show ?thesis
    using ib1(1) ib2(1) ib3(1) ib4 by (simp add: ringBufferDemo_def those_array_at)
qed

section \<open>The timer\<close>

text \<open>
  The readings of the time-stamp counter in the order the demo makes them: two in the constructor, then one
  in each \<open>start\<close> and \<open>write\<close>; \<open>tm0\<close> is the memory of the timer. A line is its label and its three numbers.
\<close>

definition timerDemo :: "(real \<Rightarrow> real) \<Rightarrow> Timer \<Rightarrow> u64 \<Rightarrow> u64 \<Rightarrow> u64 \<Rightarrow> u64 \<Rightarrow> u64 \<Rightarrow> u64 \<Rightarrow> (string \<times> u64 \<times> real \<times> real) list" where
  "timerDemo fl tm0 t1 t2 a b c d =
     (let timer = new_Timer fl t1 t2 tm0; timer1 = timer_start a timer; timer2 = timer_start c timer1
      in [(''It took'', timer_write fl b timer1), (''Timer'', timer_write fl d timer2)])"

theorem timerDemo_cycles:
  assumes "k < 2 ^ 64" "k' < 2 ^ 64"
  shows "map (\<lambda>(label, cycles, ns, us). (label, unat cycles)) (timerDemo fl tm0 t1 t2 a (a + of_nat k) c (c + of_nat k')) =
    [(''It took'', k), (''Timer'', k')]"
  using getTimeCycles_exact [OF assms(1)] getTimeCycles_exact [OF assms(2)]
  by (simp add: timerDemo_def timer_write_def Let_def)

end
