(* ===== verification/Bench_Common.thy ===== *)
theory Bench_Common
  imports Astra_Prelude Complex_Main
begin

text \<open>
  The shared harness of the benchmarks (bench/benchCommon.hpp): work scaling and knobs, core
  topology and thread placement, the watchdog, the order of interleaved runs, and the statistics
  of a table row. What comes from outside (environment variables, the sysfs files, clock readings,
  the samples) is an argument. \<open>double\<close> arithmetic is a parameter where it rounds: \<open>mid a b\<close> is
  \<open>(a + b) / 2.0\<close>, and \<open>fl\<close> rounds a real result.
\<close>

section \<open>Knobs\<close>

record knobs =
  g_scale :: u64
  g_mult :: u64
  g_reps :: i32
  g_verbose :: bool

text \<open>\<open>base * g_mult / g_scale\<close> in 64-bit arithmetic; \<open>None\<close> is the division by zero.\<close>

definition scaled :: "knobs \<Rightarrow> u64 \<Rightarrow> u64 \<Rightarrow> u64 option" where
  "scaled k base minimum =
     (if g_scale k = 0 then None
      else let v = base * g_mult k div g_scale k in Some (if v < minimum then minimum else v))"

text \<open>
  \<open>strtoull(s, nullptr, 10)\<close>: leading white space, an optional sign, decimal digits; too large a number
  gives the maximum, a minus sign negates in 64 bits.
\<close>

definition is_space :: "char \<Rightarrow> bool" where
  "is_space c \<longleftrightarrow> c \<in> {CHR '' '', CHR 0x09, CHR 0x0A, CHR 0x0B, CHR 0x0C, CHR 0x0D}"

definition digit_val :: "char \<Rightarrow> nat option" where
  "digit_val c = (let n = (of_char c :: nat) in if 48 \<le> n \<and> n \<le> 57 then Some (n - 48) else None)"

fun digits_val :: "nat \<Rightarrow> string \<Rightarrow> nat" where
  "digits_val acc [] = acc"
| "digits_val acc (c # cs) = (case digit_val c of Some d \<Rightarrow> digits_val (10 * acc + d) cs | None \<Rightarrow> acc)"

definition saturate :: "nat \<Rightarrow> u64" where
  "saturate n = (if n < 2 ^ 64 then of_nat n else - 1)"

definition strtoull :: "string \<Rightarrow> u64" where
  "strtoull s =
     (let t = dropWhile is_space s in
      case t of
        [] \<Rightarrow> 0
      | c # cs \<Rightarrow>
          if c = CHR ''-'' then (if digits_val 0 cs < 2 ^ 64 then - saturate (digits_val 0 cs) else - 1)
          else if c = CHR ''+'' then saturate (digits_val 0 cs)
          else saturate (digits_val 0 t))"

definition knob_num :: "(string \<Rightarrow> string option) \<Rightarrow> string \<Rightarrow> u64 \<Rightarrow> u64" where
  "knob_num getenv k def =
     (case getenv k of
        None \<Rightarrow> def
      | Some s \<Rightarrow> let v = strtoull s in if v \<noteq> 0 then v else def)"

definition readKnobs :: "(string \<Rightarrow> string option) \<Rightarrow> knobs" where
  "readKnobs getenv =
     \<lparr>g_scale = knob_num getenv ''ASTRA_BENCH_SCALE'' 1, g_mult = knob_num getenv ''ASTRA_BENCH_MULT'' 1,
      g_reps = ucast (knob_num getenv ''ASTRA_BENCH_REPS'' 7), g_verbose = (getenv ''ASTRA_BENCH_VERBOSE'' \<noteq> None)\<rparr>"

section \<open>Topology and placement\<close>

text \<open>
  The loop over the logical CPUs: \<open>None\<close> is a file that cannot be opened (the list is dropped and the
  loop left), \<open>Some None\<close> one without a number, \<open>Some (Some l)\<close> the first sibling.
\<close>

fun topology_loop :: "nat \<Rightarrow> nat option option list \<Rightarrow> nat list \<Rightarrow> nat list" where
  "topology_loop c [] leaders = leaders"
| "topology_loop c (None # rs) leaders = []"
| "topology_loop c (Some r # rs) leaders =
     (let leader = (case r of Some l \<Rightarrow> l | None \<Rightarrow> c)
      in topology_loop (Suc c) rs (if leader \<in> set leaders then leaders else leaders @ [leader]))"

definition detectTopology :: "nat option option list \<Rightarrow> nat list" where
  "detectTopology rs =
     (let leaders = topology_loop 0 rs []; hw = length rs
      in if leaders = [] then [0..<(if hw \<noteq> 0 then hw else 1)] else leaders)"

definition coreCount :: "nat list \<Rightarrow> nat" where
  "coreCount physCpus = (if physCpus = [] then 1 else length physCpus)"

definition pinToCore :: "nat list \<Rightarrow> nat \<Rightarrow> nat" where
  "pinToCore physCpus slot = physCpus ! (slot mod length physCpus)"

definition pinCoordinatorAway :: "nat list \<Rightarrow> nat \<Rightarrow> nat option" where
  "pinCoordinatorAway physCpus workersInUse =
     (if workersInUse < coreCount physCpus then Some (pinToCore physCpus (coreCount physCpus - 1)) else None)"

text \<open>\<open>unpin\<close> allows the calling thread every logical CPU.\<close>

definition unpin :: "nat \<Rightarrow> nat list" where
  "unpin hw = [0..<hw]"

section \<open>Time-stamp counter\<close>

text \<open>
  \<open>calibrateTsc\<close> on the readings of the clock in the order the loop makes them: the first reading \<open>n0\<close>,
  the readings of the loop condition (the loop ends with the first that is late enough) and the
  reading of the last line; \<open>t0\<close> and \<open>t1\<close> are the counter readings. \<open>None\<close> is a clock that stops.
\<close>

definition calibrateTsc :: "(real \<Rightarrow> real) \<Rightarrow> int \<Rightarrow> u64 \<Rightarrow> int list \<Rightarrow> u64 \<Rightarrow> int \<Rightarrow> real option" where
  "calibrateTsc fl n0 t0 polls t1 n1 =
     (case dropWhile (\<lambda>n. n - n0 < 200000000) polls of
        [] \<Rightarrow> None
      | _ \<Rightarrow> Some (fl (fl (real (unat (t1 - t0))) / fl (of_int (n1 - n0)))))"

definition cyclesToNs :: "(real \<Rightarrow> real) \<Rightarrow> real \<Rightarrow> u64 \<Rightarrow> real" where
  "cyclesToNs fl tscPerNs c = fl (fl (real (unat c)) / tscPerNs)"

section \<open>Watchdog\<close>

definition INT64_MAX :: i64 where "INT64_MAX = 0x7FFFFFFFFFFFFFFF"

record watchdog =
  g_benchName :: string
  g_deadlineNs :: i64

definition no_deadline :: watchdog where
  "no_deadline = \<lparr>g_benchName = ''<none>'', g_deadlineNs = INT64_MAX\<rparr>"

text \<open>One round of \<open>watchdogLoop\<close> at the time \<open>now\<close>: the status it ends the process with, if it does.\<close>

definition watchdog_round :: "i64 \<Rightarrow> watchdog \<Rightarrow> int option" where
  "watchdog_round now w =
     (if g_deadlineNs w \<noteq> INT64_MAX \<and> sint (g_deadlineNs w) < sint now then Some 3 else None)"

text \<open>The constructor of \<open>Deadline\<close>, which reads the clock, and its destructor.\<close>

definition new_Deadline :: "string \<Rightarrow> i32 \<Rightarrow> i64 \<Rightarrow> watchdog \<Rightarrow> watchdog" where
  "new_Deadline name seconds now w = w\<lparr>g_benchName := name, g_deadlineNs := now + scast seconds * 1000000000\<rparr>"

definition delete_Deadline :: "watchdog \<Rightarrow> watchdog" where
  "delete_Deadline w = w\<lparr>g_deadlineNs := INT64_MAX\<rparr>"

section \<open>Statistics\<close>

record 'd Stat =
  median :: 'd
  lo :: 'd
  hi :: 'd

text \<open>\<open>summarize\<close>; an empty vector is read out of range (\<open>None\<close>).\<close>

definition summarize :: "('d::linorder \<Rightarrow> 'd \<Rightarrow> 'd) \<Rightarrow> 'd list \<Rightarrow> 'd Stat option" where
  "summarize mid v =
     (if v = [] then None
      else let w = sort v; n = length w in
        Some \<lparr>median = (if n mod 2 = 1 then w ! (n div 2) else mid (w ! (n div 2 - 1)) (w ! (n div 2))),
              lo = hd w, hi = last w\<rparr>)"

definition percentile :: "(real \<Rightarrow> real) \<Rightarrow> real list \<Rightarrow> real \<Rightarrow> real" where
  "percentile fl sorted_v p =
     (if sorted_v = [] then 0
      else let n = length sorted_v; idx = nat \<lfloor>fl (fl (p * real (n - 1)) + 1 / 2)\<rfloor>
           in sorted_v ! min idx (n - 1))"

section \<open>Interleaved runs\<close>

text \<open>
  A competitor is a function of the state of the machine it runs on to a sample and a new state.
  \<open>run_all\<close> calls every competitor once, \<open>reps_loop\<close> is the loop over the repetitions with the samples
  of each competitor, \<open>interleaved\<close> discards a first round. \<open>None\<close> is the out-of-range read of
  \<open>summarize\<close>.
\<close>

fun run_all :: "('s \<Rightarrow> 'd \<times> 's) list \<Rightarrow> 's \<Rightarrow> 'd list \<times> 's" where
  "run_all [] s = ([], s)"
| "run_all (f # fs) s = (let (x, s1) = f s; (xs, s2) = run_all fs s1 in (x # xs, s2))"

fun reps_loop :: "nat \<Rightarrow> ('s \<Rightarrow> 'd \<times> 's) list \<Rightarrow> 'd list list \<Rightarrow> 's \<Rightarrow> 'd list list \<times> 's" where
  "reps_loop 0 fns samples s = (samples, s)"
| "reps_loop (Suc r) fns samples s =
     (let (xs, s1) = run_all fns s in reps_loop r fns (map2 (\<lambda>ss x. ss @ [x]) samples xs) s1)"

definition interleaved ::
    "('d::linorder \<Rightarrow> 'd \<Rightarrow> 'd) \<Rightarrow> i32 \<Rightarrow> ('s \<Rightarrow> 'd \<times> 's) list \<Rightarrow> 's \<Rightarrow> 'd Stat list option \<times> 's" where
  "interleaved mid reps fns s =
     (let s1 = snd (run_all fns s);
          (samples, s2) = reps_loop (nat (sint reps)) fns (replicate (length fns) []) s1
      in (those (map (summarize mid) samples), s2))"

section \<open>Tables\<close>

text \<open>A row of a table and what is printed of it; a ratio is \<open>None\<close> when the division is by zero.\<close>

record Row =
  row_name :: string
  row_note :: string
  row_stat :: "real Stat"
  row_skipped :: bool

datatype table_line =
    SkippedLine string string
  | RowLine string real real real "real option" bool string

definition double_div :: "(real \<Rightarrow> real) \<Rightarrow> real \<Rightarrow> real \<Rightarrow> real option" where
  "double_div fl a b = (if b = 0 then None else Some (fl (a / b)))"

definition astra_median :: "Row list \<Rightarrow> real" where
  "astra_median rows =
     (case find (\<lambda>r. \<not> row_skipped r \<and> take 8 (row_name r) = ''AstraLib'') rows of
        Some r \<Rightarrow> median (row_stat r)
      | None \<Rightarrow> 0)"

definition print_row :: "(real \<Rightarrow> real) \<Rightarrow> bool \<Rightarrow> real \<Rightarrow> Row \<Rightarrow> table_line" where
  "print_row fl higherIsBetter astra r =
     (if row_skipped r then SkippedLine (row_name r) (row_note r)
      else
        let st = row_stat r;
            ratio = (if 0 < astra then
                       (if higherIsBetter then double_div fl (median st) astra else double_div fl astra (median st))
                     else Some 0);
            unstable = (0 < lo st \<and> (case double_div fl (hi st) (lo st) of Some q \<Rightarrow> 3 / 2 < q | None \<Rightarrow> False))
        in RowLine (row_name r) (median st) (lo st) (hi st) ratio unstable (row_note r))"

definition printTable :: "(real \<Rightarrow> real) \<Rightarrow> Row list \<Rightarrow> bool \<Rightarrow> table_line list" where
  "printTable fl rows higherIsBetter = map (print_row fl higherIsBetter (astra_median rows)) rows"

section \<open>Accounting checks\<close>

text \<open>\<open>BENCH_CHECK\<close> counts the failures in \<open>g_failures\<close>, \<open>finish\<close> is the exit status.\<close>

definition bench_check :: "bool \<Rightarrow> u64 \<Rightarrow> u64" where
  "bench_check cond failures = (if \<not> cond then failures + 1 else failures)"

definition finish :: "u64 \<Rightarrow> int" where
  "finish failures = (if failures \<noteq> 0 then 1 else 0)"

section \<open>Properties\<close>

lemma knob_num_nonzero: "def \<noteq> 0 \<Longrightarrow> knob_num getenv k def \<noteq> 0"
  by (simp add: knob_num_def Let_def split: option.splits)

text \<open>Scaling. With the knobs as \<open>readKnobs\<close> sets them from any environment, \<open>scaled\<close> never divides by zero and never
  returns less than the minimum; as long as the product fits 64 bits it is the exact quotient.\<close>

theorem scaled_total:
  "\<exists>v. scaled (readKnobs getenv) base minimum = Some v \<and> minimum \<le> v \<and>
    (unat base * unat (g_mult (readKnobs getenv)) < 2 ^ 64 \<longrightarrow>
      unat v = max (unat minimum) (unat base * unat (g_mult (readKnobs getenv)) div unat (g_scale (readKnobs getenv))))"
proof -
  let ?k = "readKnobs getenv" and ?q = "base * g_mult (readKnobs getenv) div g_scale (readKnobs getenv)"
  have "g_scale ?k \<noteq> 0" by (simp add: readKnobs_def knob_num_nonzero)
  then have s: "scaled ?k base minimum = Some (if ?q < minimum then minimum else ?q)"
    by (simp add: scaled_def Let_def)
  have "unat ?q = unat base * unat (g_mult ?k) div unat (g_scale ?k)" if "unat base * unat (g_mult ?k) < 2 ^ 64"
    using that by (simp add: unat_div unat_word_ariths(2))
  then show ?thesis using s by (auto simp: word_less_nat_alt max_def not_less word_le_nat_alt)
qed

theorem scaled_total_witness:
  "\<exists>v. scaled (readKnobs (\<lambda>_. None)) 4000000 1000 = Some v \<and> 1000 \<le> v"
  using scaled_total [of "\<lambda>_. None" 4000000 1000] by blast

text \<open>
  The watchdog ends the process exactly when a \<open>Deadline\<close> is alive and its time is over; before the first
  \<open>Deadline\<close> and after the destructor of each it never does.
\<close>

theorem watchdog_exact:
  assumes "0 \<le> sint now" "0 \<le> sint seconds" "sint now + sint seconds * 1000000000 < 2 ^ 63 - 1"
  shows "watchdog_round t (new_Deadline name seconds now w) =
      (if sint now + sint seconds * 1000000000 < sint t then Some 3 else None)"
    and "watchdog_round t (delete_Deadline w) = None" "watchdog_round t no_deadline = None"
proof -
  let ?d = "now + scast seconds * 1000000000 :: i64"
  have m: "sint (scast seconds * 1000000000 :: i64) = sint seconds * 1000000000"
    using assms sint_mult_i64 [of "scast seconds" 1000000000] by (simp add: sint_scast_i64)
  have d: "sint ?d = sint now + sint seconds * 1000000000"
    using assms m sint_add_i64 [of now "scast seconds * 1000000000"] by simp
  moreover have "sint INT64_MAX = 2 ^ 63 - 1" by (simp add: INT64_MAX_def)
  ultimately have "?d \<noteq> INT64_MAX" using assms(3) by (metis less_irrefl)
  with d show "watchdog_round t (new_Deadline name seconds now w) =
      (if sint now + sint seconds * 1000000000 < sint t then Some 3 else None)"
    by (simp add: watchdog_round_def new_Deadline_def)
qed (simp_all add: watchdog_round_def delete_Deadline_def no_deadline_def)

lemma topology_loop_distinct: "distinct leaders \<Longrightarrow> distinct (topology_loop c rs leaders)"
  by (induction c rs leaders rule: topology_loop.induct) (auto simp: Let_def split: option.splits)

text \<open>Placement. The detected list of cores is never empty and has no CPU twice; up to as many
  workers as there are cores are pinned to different CPUs, and the coordinator, when it is pinned,
  to one that no worker uses.\<close>

theorem placement_exclusive:
  "distinct (detectTopology rs) \<and> detectTopology rs \<noteq> [] \<and>
    (\<forall>i < coreCount (detectTopology rs). \<forall>j < coreCount (detectTopology rs).
       pinToCore (detectTopology rs) i = pinToCore (detectTopology rs) j \<longrightarrow> i = j) \<and>
    (\<forall>c n i. pinCoordinatorAway (detectTopology rs) n = Some c \<and> i < n \<longrightarrow> pinToCore (detectTopology rs) i \<noteq> c)"
proof -
  let ?t = "detectTopology rs"
  have d: "distinct ?t" "?t \<noteq> []"
    using topology_loop_distinct [of "[]" 0 rs] by (auto simp: detectTopology_def Let_def)
  have core: "coreCount ?t = length ?t" using d(2) by (simp add: coreCount_def)
  have inj: "pinToCore ?t i = pinToCore ?t j \<longleftrightarrow> i = j" if "i < length ?t" "j < length ?t" for i j
    using that d(1) by (simp add: pinToCore_def nth_eq_iff_index_eq)
  have "pinToCore ?t i \<noteq> c" if "pinCoordinatorAway ?t n = Some c" "i < n" for c n i
  proof -
    have "n < length ?t" "c = pinToCore ?t (length ?t - 1)"
      using that(1) core by (auto simp: pinCoordinatorAway_def split: if_splits)
    then show ?thesis using that(2) inj [of i "length ?t - 1"] by auto
  qed
  then show ?thesis using d inj core by auto
qed

theorem placement_exclusive_witness:
  "pinToCore (detectTopology [Some (Some 0), Some (Some 0), Some (Some 2)]) 0 \<noteq> 2"
proof -
  have "detectTopology [Some (Some 0), Some (Some 0), Some (Some 2)] = [0, 2]" by (simp add: detectTopology_def)
  moreover from this have "pinCoordinatorAway (detectTopology [Some (Some 0), Some (Some 0), Some (Some 2)]) 1 = Some 2"
    by (simp add: pinCoordinatorAway_def coreCount_def pinToCore_def)
  ultimately show ?thesis using placement_exclusive [of "[Some (Some 0), Some (Some 0), Some (Some 2)]"] by (metis zero_less_one)
qed

lemma sorted_nth_bounds:
  assumes "w \<noteq> []" "sorted w" "i < length w"
  shows "hd w \<le> w ! i" "w ! i \<le> last w"
proof -
  show "hd w \<le> w ! i" using assms by (simp add: hd_conv_nth sorted_nth_mono)
  show "w ! i \<le> last w" using assms sorted_nth_mono [OF assms(2), of i "length w - 1"] by (simp add: last_conv_nth)
qed

text \<open>Statistics. Of a non-empty list of samples \<open>summarize\<close> reports the minimum, the maximum and a median
  between them, for any midpoint that stays between its arguments.\<close>

theorem summarize_bounds:
  fixes v :: "'d::linorder list"
  assumes "v \<noteq> []" "\<forall>a b. a \<le> b \<longrightarrow> a \<le> mid a b \<and> mid a b \<le> b"
  shows "\<exists>st. summarize mid v = Some st \<and> lo st = Min (set v) \<and> hi st = Max (set v) \<and>
    lo st \<le> median st \<and> median st \<le> hi st"
proof -
  let ?w = "sort v" and ?n = "length (sort v)"
  have w: "?w \<noteq> []" "sorted ?w" "set ?w = set v" using assms(1) by (metis set_empty set_sort, simp_all)
  note b = sorted_nth_bounds [OF w(1,2)]
  have n: "0 < ?n" using assms(1) by simp
  have "\<forall>x \<in> set v. hd ?w \<le> x \<and> x \<le> last ?w" using b w(3) by (metis in_set_conv_nth)
  moreover have "hd ?w \<in> set v" "last ?w \<in> set v" using w(1,3) by (metis hd_in_set, metis last_in_set)
  ultimately have "hd ?w = Min (set v)" "last ?w = Max (set v)"
    by (auto intro!: Min_eqI [symmetric] Max_eqI [symmetric])
  moreover have "hd ?w \<le> ?w ! (?n div 2) \<and> ?w ! (?n div 2) \<le> last ?w" using b [of "?n div 2"] n by simp
  moreover have "hd ?w \<le> mid (?w ! (?n div 2 - 1)) (?w ! (?n div 2)) \<and> mid (?w ! (?n div 2 - 1)) (?w ! (?n div 2)) \<le> last ?w"
  proof -
    have "?w ! (?n div 2 - 1) \<le> ?w ! (?n div 2)" using n by (intro sorted_nth_mono [OF w(2)]) auto
    moreover have "hd ?w \<le> ?w ! (?n div 2 - 1)" using n by (intro b(1)) linarith
    moreover have "?w ! (?n div 2) \<le> last ?w" using n by (intro b(2)) linarith
    ultimately show ?thesis using assms(2) by (meson order_trans)
  qed
  ultimately show ?thesis using assms(1) by (simp add: summarize_def Let_def)
qed

theorem summarize_bounds_witness:
  "\<exists>st. summarize (\<lambda>a b. (a + b) div 2) [5, 1, 4 :: int] = Some st \<and> lo st \<le> median st \<and> median st \<le> hi st"
proof -
  have "\<forall>a b :: int. a \<le> b \<longrightarrow> a \<le> (a + b) div 2 \<and> (a + b) div 2 \<le> b" by auto
  then show ?thesis using summarize_bounds [of "[5, 1, 4 :: int]" "\<lambda>a b. (a + b) div 2"] by blast
qed

section \<open>Interleaving\<close>

text \<open>The state before round \<open>r\<close>; round 0 is the warm-up.\<close>

primrec round_state :: "('s \<Rightarrow> 'd \<times> 's) list \<Rightarrow> nat \<Rightarrow> 's \<Rightarrow> 's" where
  "round_state fns 0 s = s"
| "round_state fns (Suc r) s = snd (run_all fns (round_state fns r s))"

lemma length_run_all [simp]: "length (fst (run_all fns s)) = length fns"
  by (induction fns s rule: run_all.induct) (auto simp: Let_def split: prod.splits)

lemma round_state_Suc: "round_state fns (Suc r) s = round_state fns r (snd (run_all fns s))"
  by (induction r) auto

lemma reps_loop_samples:
  "length samples = length fns \<Longrightarrow>
    reps_loop reps fns samples s =
      (map (\<lambda>i. samples ! i @ map (\<lambda>r. fst (run_all fns (round_state fns r s)) ! i) [0..<reps]) [0..<length fns],
       round_state fns reps s)"
proof (induction reps arbitrary: samples s)
  case 0
  then show ?case by (auto intro: nth_equalityI)
next
  case (Suc reps)
  obtain xs s1 where run: "run_all fns s = (xs, s1)" by (cases "run_all fns s")
  have len: "length xs = length fns" using length_run_all [of fns s] run by simp
  have "reps_loop (Suc reps) fns samples s = reps_loop reps fns (map2 (\<lambda>ss x. ss @ [x]) samples xs) s1"
    by (simp add: run)
  also have "\<dots> = (map (\<lambda>i. (samples ! i @ [xs ! i]) @ map (\<lambda>r. fst (run_all fns (round_state fns r s1)) ! i) [0..<reps])
       [0..<length fns], round_state fns reps s1)"
    using Suc len by (auto simp: Suc.IH)
  finally show ?case using run by (simp add: upt_conv_Cons map_Suc_upt [symmetric] round_state_Suc comp_def del: upt_Suc round_state.simps(2))
qed

lemma those_map_Some: "(\<And>x. x \<in> set xs \<Longrightarrow> f x = Some (g x)) \<Longrightarrow> those (map f xs) = Some (map g xs)"
  by (induction xs) auto

lemma those_None: "None \<in> set xs \<Longrightarrow> those xs = None"
  by (induction xs) (auto split: option.splits)

text \<open>Interleaved runs. With a positive number of repetitions every competitor gets a summary, of exactly its
  samples of the rounds after the warm-up, each round running all competitors in order; the machine
  is left in the state after all rounds. With none, the summary reads an empty vector.\<close>

theorem interleaved_rounds:
  "(0 < sint reps \<longrightarrow>
      interleaved mid reps fns s =
        (Some (map (\<lambda>i. the (summarize mid (map (\<lambda>r. fst (run_all fns (round_state fns (Suc r) s)) ! i) [0..<nat (sint reps)])))
                 [0..<length fns]),
         round_state fns (Suc (nat (sint reps))) s)) \<and>
    (sint reps \<le> 0 \<and> fns \<noteq> [] \<longrightarrow> fst (interleaved mid reps fns s) = None)"
proof (intro conjI impI; (elim conjE)?)
  let ?n = "nat (sint reps)"
  have loop: "reps_loop ?n fns (replicate (length fns) []) (snd (run_all fns s)) =
      (map (\<lambda>i. map (\<lambda>r. fst (run_all fns (round_state fns (Suc r) s)) ! i) [0..<?n]) [0..<length fns],
       round_state fns (Suc ?n) s)"
    by (subst reps_loop_samples) (auto simp: round_state_Suc simp del: round_state.simps(2))
  {
    assume "0 < sint reps"
    then show "interleaved mid reps fns s =
        (Some (map (\<lambda>i. the (summarize mid (map (\<lambda>r. fst (run_all fns (round_state fns (Suc r) s)) ! i) [0..<?n])))
           [0..<length fns]), round_state fns (Suc ?n) s)"
      by (auto simp: interleaved_def Let_def loop comp_def summarize_def intro!: those_map_Some)
  next
    assume "sint reps \<le> 0" "fns \<noteq> []"
    then show "fst (interleaved mid reps fns s) = None"
      by (auto simp: interleaved_def Let_def loop summarize_def intro!: those_None)
  }
qed

theorem interleaved_rounds_witness:
  "fst (interleaved (\<lambda>a b. (a + b) div 2) 2 [\<lambda>s. (s, s + 1)] (10 :: int)) = Some [\<lparr>median = 11, lo = 11, hi = 12\<rparr>]"
proof -
  have "sint (2 :: i32) = 2" "nat 2 = 2" "[0..<2] = [0, 1]" by (simp_all add: upt_rec)
  then show ?thesis
    using interleaved_rounds [of "2 :: i32" "\<lambda>a b. (a + b) div 2" "[\<lambda>s. (s, s + 1)]" "10 :: int"]
    by (simp add: summarize_def)
qed

text \<open>
  The number of repetitions is cut to 32 bits after the test for zero: a request of \<open>2 ^ 32\<close>
  repetitions makes none, and the summary of a table reads an empty vector.
\<close>

definition huge_reps :: "string \<Rightarrow> string option" where
  "huge_reps k = (if k = ''ASTRA_BENCH_REPS'' then Some ''4294967296'' else None)"

theorem repetitions_wrap:
  "g_reps (readKnobs huge_reps) = 0 \<and>
    (fns \<noteq> [] \<longrightarrow> fst (interleaved mid (g_reps (readKnobs huge_reps)) fns s) = None)"
proof -
  have "strtoull ''4294967296'' = 4294967296"
    by (simp add: strtoull_def is_space_def digit_val_def saturate_def Let_def)
  then have "knob_num huge_reps ''ASTRA_BENCH_REPS'' 7 = 4294967296"
    by (simp add: knob_num_def huge_reps_def)
  then have "g_reps (readKnobs huge_reps) = 0" by (simp add: readKnobs_def)
  then show ?thesis
    by (auto simp: interleaved_def Let_def reps_loop_samples summarize_def intro!: those_None)
qed

text \<open>
  The direction of a ratio: with a rounding that is monotone and exact at 1, a ratio of at least 1
  means that the row is at least as good as the AstraLib row, at most 1 that it is at most as good.
\<close>

lemma rounded_ratio:
  fixes fl :: "real \<Rightarrow> real"
  assumes "mono fl" "fl 1 = 1" "0 < b"
  shows "b \<le> a \<longrightarrow> 1 \<le> fl (a / b)" "a \<le> b \<longrightarrow> fl (a / b) \<le> 1"
  using monoD [OF assms(1), of 1 "a / b"] monoD [OF assms(1), of "a / b" 1] assms(2,3) by auto

theorem table_ratio:
  assumes "mono fl" "fl 1 = 1" "0 < astra" "0 < median (row_stat r)" "\<not> row_skipped r"
  shows "\<exists>q u. print_row fl higher astra r =
      RowLine (row_name r) (median (row_stat r)) (lo (row_stat r)) (hi (row_stat r)) (Some q) u (row_note r) \<and>
    (median (row_stat r) \<le> astra \<longrightarrow> (if higher then q \<le> 1 else 1 \<le> q)) \<and>
    (astra \<le> median (row_stat r) \<longrightarrow> (if higher then 1 \<le> q else q \<le> 1))"
  using assms rounded_ratio [OF assms(1,2)] by (simp add: print_row_def double_div_def Let_def)

end
