(* ===== verification/Bench_Watchdog.thy ===== *)
theory Bench_Watchdog
  imports Bench_Common Time_Util
begin

text \<open>
  The watchdog of bench/benchCommon.hpp as a thread beside the program: \<open>watchdogLoop\<close> loads the deadline, then reads
  the clock, then loads the name it reports, each a step of its own; the program enters and leaves blocks with a \<open>Deadline\<close> meanwhile, and
  time passes. Theory \<open>Bench_Common\<close> has a whole round as one function.
\<close>

section \<open>The machine\<close>

text \<open>\<open>nowNs\<close> on a reading of the steady clock, which counts nanoseconds.\<close>

definition nowNs :: "i64 \<Rightarrow> i64" where
  "nowNs reading = of_int (duration_cast 1 (sint reading))"

datatype wdpc = WdSleep | WdLoad | WdCheck i64 | WdReport | WdExited string

text \<open>The program outside a block, in the constructor of a \<open>Deadline\<close> (name stored; clock read), and in the block.\<close>

datatype scope = ScOut | ScNamed i32 | ScRead i64 | ScIn

record wd_sys =
  wglobals :: watchdog
  wnow :: i64
  wdpc :: wdpc
  wscope :: scope

datatype wd_ev = WdArm i64 | WdDisarm i64 | WdExit string | WdTau

definition startWatchdog :: "i64 \<Rightarrow> wd_sys" where
  "startWatchdog now = \<lparr>wglobals = no_deadline, wnow = now, wdpc = WdSleep, wscope = ScOut\<rparr>"

definition watchdogLoop :: "wd_sys \<Rightarrow> wd_sys" where
  "watchdogLoop s =
     (case wdpc s of
        WdSleep \<Rightarrow> s\<lparr>wdpc := WdLoad\<rparr>
      | WdLoad \<Rightarrow> s\<lparr>wdpc := WdCheck (g_deadlineNs (wglobals s))\<rparr>
      | WdCheck dl \<Rightarrow> s\<lparr>wdpc := (if dl \<noteq> INT64_MAX \<and> sint dl < sint (nowNs (wnow s)) then WdReport else WdSleep)\<rparr>
      | WdReport \<Rightarrow> s\<lparr>wdpc := WdExited (g_benchName (wglobals s))\<rparr>
      | WdExited name \<Rightarrow> s)"

fun exit_event :: "wdpc \<Rightarrow> wd_ev" where
  "exit_event (WdExited name) = WdExit name"
| "exit_event _ = WdTau"

fun alive :: "wdpc \<Rightarrow> bool" where
  "alive (WdExited name) = False"
| "alive _ = True"

inductive watchdog_step :: "wd_sys \<Rightarrow> wd_ev \<Rightarrow> wd_sys \<Rightarrow> bool" where
  wd_time: "alive (wdpc s) \<Longrightarrow> sint (wnow s) \<le> sint t \<Longrightarrow> watchdog_step s WdTau (s\<lparr>wnow := t\<rparr>)"
| wd_name: "alive (wdpc s) \<Longrightarrow> wscope s = ScOut \<Longrightarrow>
    watchdog_step s WdTau (s\<lparr>wglobals := (wglobals s)\<lparr>g_benchName := name\<rparr>, wscope := ScNamed seconds\<rparr>)"
| wd_clock: "alive (wdpc s) \<Longrightarrow> wscope s = ScNamed seconds \<Longrightarrow>
    watchdog_step s WdTau (s\<lparr>wscope := ScRead (nowNs (wnow s) + scast seconds * 1000000000)\<rparr>)"
| wd_arm: "alive (wdpc s) \<Longrightarrow> wscope s = ScRead dl \<Longrightarrow>
    watchdog_step s (WdArm dl) (s\<lparr>wglobals := (wglobals s)\<lparr>g_deadlineNs := dl\<rparr>, wscope := ScIn\<rparr>)"
| wd_disarm: "alive (wdpc s) \<Longrightarrow> wscope s = ScIn \<Longrightarrow>
    watchdog_step s (WdDisarm (wnow s)) (s\<lparr>wglobals := delete_Deadline (wglobals s), wscope := ScOut\<rparr>)"
| wd_thread: "alive (wdpc s) \<Longrightarrow> watchdog_step s (exit_event (wdpc (watchdogLoop s))) (watchdogLoop s)"

lemma nowNs_id [simp]: "nowNs t = t"
  by (simp add: nowNs_def duration_cast_def)

text \<open>The steps against the functions of \<open>Bench_Common\<close>: a constructor, and a round that nothing interrupts.\<close>

lemma constructor_steps:
  assumes "alive (wdpc s)" "wscope s = ScOut"
  shows "lts_run watchdog_step s [WdTau, WdTau, WdArm (wnow s + scast seconds * 1000000000)]
    (s\<lparr>wglobals := new_Deadline name seconds (wnow s) (wglobals s), wscope := ScIn\<rparr>)"
proof -
  let ?a = "s\<lparr>wglobals := (wglobals s)\<lparr>g_benchName := name\<rparr>, wscope := ScNamed seconds\<rparr>"
  let ?b = "?a\<lparr>wscope := ScRead (wnow s + scast seconds * 1000000000)\<rparr>"
  have "watchdog_step s WdTau ?a" using wd_name [OF assms] .
  moreover have "watchdog_step ?a WdTau ?b" using wd_clock [of ?a seconds] assms(1) by simp
  moreover have "watchdog_step ?b (WdArm (wnow s + scast seconds * 1000000000))
      (s\<lparr>wglobals := new_Deadline name seconds (wnow s) (wglobals s), wscope := ScIn\<rparr>)"
    using wd_arm [of ?b] assms(1) by (simp add: new_Deadline_def)
  ultimately show ?thesis by (blast intro: lts_run_cons lts_run.run_nil)
qed

lemma round_steps:
  assumes "wdpc s = WdSleep"
  shows "wdpc (watchdogLoop (watchdogLoop (watchdogLoop s))) = WdReport \<longleftrightarrow> watchdog_round (wnow s) (wglobals s) = Some 3"
  using assms by (simp add: watchdogLoop_def watchdog_round_def)

section \<open>What an exit means\<close>

definition armed :: "wd_ev list \<Rightarrow> i64 set" where
  "armed tr = {dl. WdArm dl \<in> set tr}"

fun wd_ok :: "i64 set \<Rightarrow> i64 \<Rightarrow> wdpc \<Rightarrow> bool" where
  "wd_ok D now (WdCheck dl) = (dl = INT64_MAX \<or> dl \<in> D)"
| "wd_ok D now WdReport = (\<exists>dl \<in> D. sint dl < sint now)"
| "wd_ok D now (WdExited name) = (\<exists>dl \<in> D. sint dl < sint now)"
| "wd_ok D now _ = True"

definition wd_inv :: "wd_ev list \<Rightarrow> wd_sys \<Rightarrow> bool" where
  "wd_inv tr s \<longleftrightarrow> (g_deadlineNs (wglobals s) = INT64_MAX \<or> g_deadlineNs (wglobals s) \<in> armed tr) \<and> wd_ok (armed tr) (wnow s) (wdpc s)"

lemma wd_ok_mono: "wd_ok D now p \<Longrightarrow> D \<subseteq> D' \<Longrightarrow> sint now \<le> sint now' \<Longrightarrow> wd_ok D' now' p"
  by (cases p) (auto intro: order_less_le_trans)

lemma armed_snoc [simp]: "armed [] = {}" "armed (tr @ [e]) = armed tr \<union> (case e of WdArm dl \<Rightarrow> {dl} | _ \<Rightarrow> {})"
  by (auto simp: armed_def split: wd_ev.splits)

lemma wd_inv_step:
  assumes "wd_inv tr s" "watchdog_step s e s'"
  shows "wd_inv (tr @ [e]) s'"
  using assms(2)
proof cases
  case wd_thread
  then have "armed (tr @ [e]) = armed tr" by (cases "wdpc (watchdogLoop s)") auto
  then show ?thesis using wd_thread assms(1) by (auto simp: wd_inv_def watchdogLoop_def split: wdpc.splits)
qed (use assms(1) in \<open>auto simp: wd_inv_def delete_Deadline_def intro: wd_ok_mono\<close>)

interpretation wdm: lts_invariant watchdog_step "\<lambda>s. \<exists>now. s = startWatchdog now" wd_inv
proof
  show "\<exists>now. s = startWatchdog now \<Longrightarrow> wd_inv [] s" for s by (auto simp: wd_inv_def startWatchdog_def no_deadline_def)
  show "wd_inv tr s \<Longrightarrow> watchdog_step s e s' \<Longrightarrow> wd_inv (tr @ [e]) s'" for tr s e s' by (rule wd_inv_step)
qed

section \<open>Properties\<close>

text \<open>C39: The watchdog. It ends the process only after the clock has passed a deadline that some block set; and when a block hangs past its
  deadline, the next round of the watchdog ends the process and names that block.\<close>

theorem watchdog_sound_and_complete:
  assumes "lts_run watchdog_step (startWatchdog now) tr s"
  shows "(\<forall>name. wdpc s = WdExited name \<longrightarrow> (\<exists>dl. WdArm dl \<in> set tr \<and> sint dl < sint (wnow s))) \<and>
    (wdpc s = WdSleep \<and> g_deadlineNs (wglobals s) \<noteq> INT64_MAX \<and> sint (g_deadlineNs (wglobals s)) < sint (wnow s) \<longrightarrow>
      (\<exists>s'. lts_run watchdog_step s [WdTau, WdTau, WdTau, WdExit (g_benchName (wglobals s))] s' \<and> wdpc s' = WdExited (g_benchName (wglobals s))))"
proof -
  have "\<exists>dl. WdArm dl \<in> set tr \<and> sint dl < sint (wnow s)" if "wdpc s = WdExited name" for name
    using wdm.inv_run [OF assms] that by (auto simp: wd_inv_def armed_def)
  moreover have "\<exists>s'. lts_run watchdog_step s [WdTau, WdTau, WdTau, WdExit (g_benchName (wglobals s))] s' \<and> wdpc s' = WdExited (g_benchName (wglobals s))"
    if d: "wdpc s = WdSleep" "g_deadlineNs (wglobals s) \<noteq> INT64_MAX" "sint (g_deadlineNs (wglobals s)) < sint (wnow s)"
  proof -
    let ?p = "\<lambda>x. s\<lparr>wdpc := x\<rparr>" and ?dl = "g_deadlineNs (wglobals s)" and ?name = "g_benchName (wglobals s)"
    have "watchdog_step s WdTau (?p WdLoad)" using wd_thread [of s] d(1) by (simp add: watchdogLoop_def)
    moreover have "watchdog_step (?p WdLoad) WdTau (?p (WdCheck ?dl))" using wd_thread [of "?p WdLoad"] by (simp add: watchdogLoop_def)
    moreover have "watchdog_step (?p (WdCheck ?dl)) WdTau (?p WdReport)" using wd_thread [of "?p (WdCheck ?dl)"] d(2,3) by (simp add: watchdogLoop_def)
    moreover have "watchdog_step (?p WdReport) (WdExit ?name) (?p (WdExited ?name))" using wd_thread [of "?p WdReport"] by (simp add: watchdogLoop_def)
    ultimately have "lts_run watchdog_step s [WdTau, WdTau, WdTau, WdExit ?name] (?p (WdExited ?name))"
      by (blast intro: lts_run_cons lts_run.run_nil)
    then show ?thesis by (intro exI [of _ "?p (WdExited ?name)"]) simp
  qed
  ultimately show ?thesis by blast
qed

text \<open>Schedules: the program enters or leaves a block, time passes, or the watchdog takes a step.\<close>

datatype wd_act = ActTime i64 | ActName string i32 | ActProgram | ActWatchdog

fun wd_do :: "wd_act \<Rightarrow> wd_sys \<Rightarrow> (wd_ev \<times> wd_sys) option" where
  "wd_do (ActTime t) s = (if alive (wdpc s) \<and> sint (wnow s) \<le> sint t then Some (WdTau, s\<lparr>wnow := t\<rparr>) else None)"
| "wd_do (ActName name seconds) s =
     (if alive (wdpc s) \<and> wscope s = ScOut then Some (WdTau, s\<lparr>wglobals := (wglobals s)\<lparr>g_benchName := name\<rparr>, wscope := ScNamed seconds\<rparr>) else None)"
| "wd_do ActProgram s =
     (if \<not> alive (wdpc s) then None
      else case wscope s of
        ScOut \<Rightarrow> None
      | ScNamed seconds \<Rightarrow> Some (WdTau, s\<lparr>wscope := ScRead (nowNs (wnow s) + scast seconds * 1000000000)\<rparr>)
      | ScRead dl \<Rightarrow> Some (WdArm dl, s\<lparr>wglobals := (wglobals s)\<lparr>g_deadlineNs := dl\<rparr>, wscope := ScIn\<rparr>)
      | ScIn \<Rightarrow> Some (WdDisarm (wnow s), s\<lparr>wglobals := delete_Deadline (wglobals s), wscope := ScOut\<rparr>))"
| "wd_do ActWatchdog s = (if alive (wdpc s) then Some (exit_event (wdpc (watchdogLoop s)), watchdogLoop s) else None)"

fun wd_script :: "wd_act list \<Rightarrow> wd_sys \<Rightarrow> (wd_ev list \<times> wd_sys) option" where
  "wd_script [] s = Some ([], s)"
| "wd_script (x # xs) s =
     (case wd_do x s of
        None \<Rightarrow> None
      | Some (e, s1) \<Rightarrow> map_option (\<lambda>(tr, s2). (e # tr, s2)) (wd_script xs s1))"

lemma wd_do_step: "wd_do x s = Some (e, s') \<Longrightarrow> watchdog_step s e s'"
  using wd_clock [of s] by (cases x) (auto split: if_splits scope.splits intro: watchdog_step.intros)

lemma wd_script_run: "wd_script xs s = Some (tr, s') \<Longrightarrow> lts_run watchdog_step s tr s'"
proof (induction xs arbitrary: s tr)
  case Nil
  then show ?case by (auto intro: lts_run.run_nil)
next
  case (Cons x xs)
  then show ?case by (auto simp del: wd_do.simps split: option.splits intro: lts_run_cons wd_do_step)
qed

lemma wd_script_witness:
  assumes "map_option (\<lambda>(tr, s). (tr, wdpc s, wnow s)) (wd_script xs s0) = Some (tr, p, t)"
  obtains s where "lts_run watchdog_step s0 tr s" "wdpc s = p" "wnow s = t"
proof -
  from assms obtain s where "wd_script xs s0 = Some (tr, s)" "wdpc s = p" "wnow s = t" by (auto simp del: wd_script.simps)
  then show ?thesis using that wd_script_run by blast
qed

theorem watchdog_sound_and_complete_witness:
  "\<exists>dl. WdArm dl \<in> set [WdTau, WdTau, WdArm 1000000000, WdTau, WdTau, WdTau, WdTau, WdExit ''a''] \<and> sint dl < 1000000001"
proof -
  have "map_option (\<lambda>(tr, s). (tr, wdpc s, wnow s))
      (wd_script [ActName ''a'' 1, ActProgram, ActProgram, ActTime 1000000001, ActWatchdog, ActWatchdog, ActWatchdog, ActWatchdog] (startWatchdog 0)) =
    Some ([WdTau, WdTau, WdArm 1000000000, WdTau, WdTau, WdTau, WdTau, WdExit ''a''], WdExited ''a'', 1000000001)"
    by code_simp
  then obtain s where s: "lts_run watchdog_step (startWatchdog 0)
      [WdTau, WdTau, WdArm 1000000000, WdTau, WdTau, WdTau, WdTau, WdExit ''a''] s" "wdpc s = WdExited ''a''" "wnow s = 1000000001"
    by (rule wd_script_witness)
  from watchdog_sound_and_complete [OF s(1)] s(2,3) show ?thesis by simp
qed

text \<open>C40: A false alarm. The deadline is loaded before the clock is read: when the watchdog is held up between the two, a block that
  ends within its time is followed by the end of the process, and the message names the next block, whose own deadline is not even set.\<close>

theorem watchdog_false_alarm:
  "\<exists>tr s. lts_run watchdog_step (startWatchdog 0) tr s \<and> wdpc s = WdExited ''b'' \<and> armed tr = {1000000000} \<and>
    WdDisarm 999999999 \<in> set tr \<and> g_deadlineNs (wglobals s) = INT64_MAX"
proof -
  let ?xs = "[ActName ''a'' 1, ActProgram, ActProgram, ActTime 999999999, ActWatchdog, ActWatchdog, ActProgram, ActName ''b'' 1,
    ActTime 1000000001, ActWatchdog, ActWatchdog]"
  let ?tr = "[WdTau, WdTau, WdArm 1000000000, WdTau, WdTau, WdTau, WdDisarm 999999999, WdTau, WdTau, WdTau, WdExit ''b'']"
  have "map_option (\<lambda>(tr, s). (tr, wdpc s, g_deadlineNs (wglobals s))) (wd_script ?xs (startWatchdog 0)) = Some (?tr, WdExited ''b'', INT64_MAX)"
    by code_simp
  then obtain s where s: "wd_script ?xs (startWatchdog 0) = Some (?tr, s)" "wdpc s = WdExited ''b''" "g_deadlineNs (wglobals s) = INT64_MAX"
    by (auto simp del: wd_script.simps)
  from wd_script_run [OF s(1)] s(2,3) show ?thesis by (intro exI [of _ ?tr] exI [of _ s]) (auto simp: armed_def)
qed

end
