(* ===== verification/Debug_Func.thy ===== *)
theory Debug_Func
  imports Spinlock Time_Util
begin

text \<open>
  \<open>debugMessage\<close> (include/AstraLib/Debug/debugFunc.hpp): one line per call on \<open>std::cout\<close>, written under
  the process-wide lock \<open>writing\<close>. The stream is its text and its fill character, the only formatting
  state the function leaves behind; an argument of the message is the text its \<open>operator<<\<close> writes,
  or \<open>None\<close> when that throws. The conversion to local time is a parameter, it depends on the time
  zone database.
\<close>

section \<open>Formatting\<close>

fun dec :: "nat \<Rightarrow> string" where
  "dec n = (if n < 10 then [char_of (48 + n)] else dec (n div 10) @ [char_of (48 + n mod 10)])"

declare dec.simps [simp del]

definition dec_int :: "int \<Rightarrow> string" where
  "dec_int z = (if z < 0 then CHR ''-'' # dec (nat (- z)) else dec (nat z))"

definition pad :: "char \<Rightarrow> nat \<Rightarrow> string \<Rightarrow> string" where
  "pad c w s = replicate (w - length s) c @ s"

record tm =
  tm_hour :: nat
  tm_min :: nat
  tm_sec :: nat

definition put_time :: "tm \<Rightarrow> string" where
  "put_time t = pad CHR ''0'' 2 (dec (tm_hour t)) @ '':'' @ pad CHR ''0'' 2 (dec (tm_min t)) @ '':'' @
     pad CHR ''0'' 2 (dec (tm_sec t))"

definition to_time_t :: "int \<Rightarrow> int" where
  "to_time_t now_ns = duration_cast 1000000000 now_ns"

definition now_us :: "int \<Rightarrow> int" where
  "now_us now_ns = duration_cast 1000 now_ns smod 1000000"

section \<open>One call\<close>

record cout =
  otext :: string
  ofill :: char

record dbg_call =
  call_now :: int
  call_tid :: nat
  call_args :: "string option list"

text \<open>The operations on the stream in program order; \<open>PutPadded w z\<close> is a number after \<open>setw(w)\<close>.\<close>

datatype out_op = PutStr string | SetFill char | PutPadded nat int | PutThrows

definition put_arg :: "string option \<Rightarrow> out_op" where
  "put_arg a = (case a of Some t \<Rightarrow> PutStr t | None \<Rightarrow> PutThrows)"

definition debug_ops :: "(int \<Rightarrow> tm) \<Rightarrow> dbg_call \<Rightarrow> out_op list" where
  "debug_ops localtime c =
     [PutStr ''ThreadID (TID): '', PutStr (dec (call_tid c)), PutStr ''['',
      PutStr (put_time (localtime (to_time_t (call_now c)))), PutStr ''.'', SetFill CHR ''0'',
      PutPadded 6 (now_us (call_now c)), PutStr ''] [Debug] ''] @ map put_arg (call_args c) @ [PutStr [CHR 0x0A]]"

fun out_step :: "out_op \<Rightarrow> cout \<Rightarrow> cout" where
  "out_step (PutStr t) o1 = o1\<lparr>otext := otext o1 @ t\<rparr>"
| "out_step (SetFill f) o1 = o1\<lparr>ofill := f\<rparr>"
| "out_step (PutPadded w z) o1 = o1\<lparr>otext := otext o1 @ pad (ofill o1) w (dec_int z)\<rparr>"
| "out_step PutThrows o1 = o1"

fun out_run :: "out_op list \<Rightarrow> cout \<Rightarrow> (cout, unit) run" where
  "out_run [] o1 = Returned o1 ()"
| "out_run (PutThrows # ops) o1 = Threw o1"
| "out_run (op # ops) o1 = out_run ops (out_step op o1)"

text \<open>A call made by one thread alone: \<open>writing\<close> is set, the line is written, \<open>writing\<close> is cleared.\<close>

definition debugMessage :: "(int \<Rightarrow> tm) \<Rightarrow> dbg_call \<Rightarrow> bool \<times> cout \<Rightarrow> (bool \<times> cout, unit) run" where
  "debugMessage localtime c s =
     (let (writing, o1) = s in
      if writing then Spinning (True, o1)
      else case out_run (debug_ops localtime c) o1 of
             Returned o2 _ \<Rightarrow> Returned (False, o2) ()
           | Threw o2 \<Rightarrow> Threw (True, o2)
           | Spinning o2 \<Rightarrow> Spinning (True, o2))"

text \<open>The line of a call.\<close>

definition debug_line :: "(int \<Rightarrow> tm) \<Rightarrow> dbg_call \<Rightarrow> string" where
  "debug_line localtime c =
     ''ThreadID (TID): '' @ dec (call_tid c) @ ''['' @ put_time (localtime (to_time_t (call_now c))) @ ''.'' @
     pad CHR ''0'' 6 (dec_int (now_us (call_now c))) @ ''] [Debug] '' @ concat (map the (call_args c)) @ [CHR 0x0A]"

lemma fold_put_args:
  "None \<notin> set as \<Longrightarrow> fold out_step (map put_arg as) o1 = o1\<lparr>otext := otext o1 @ concat (map the as)\<rparr>"
  by (induction "as" arbitrary: o1) (auto simp: put_arg_def split: option.splits)

lemma fold_debug_ops:
  assumes "None \<notin> set (call_args c)"
  shows "fold out_step (debug_ops lt c) o1 = \<lparr>otext = otext o1 @ debug_line lt c, ofill = CHR ''0''\<rparr>"
  using fold_put_args [OF assms] by (cases o1) (simp add: debug_ops_def debug_line_def)

lemma out_run_fold: "PutThrows \<notin> set ops \<Longrightarrow> out_run ops o1 = Returned (fold out_step ops o1) ()"
proof (induction ops arbitrary: o1)
  case (Cons op ops)
  then show ?case by (cases op) auto
qed simp

lemma out_run_throws: "PutThrows \<in> set ops \<Longrightarrow> \<exists>o2. out_run ops o1 = Threw o2"
proof (induction ops arbitrary: o1)
  case (Cons op ops)
  then show ?case by (cases op) auto
qed simp

lemma debug_ops_throws: "PutThrows \<in> set (debug_ops lt c) \<longleftrightarrow> None \<in> set (call_args c)"
  by (auto simp: debug_ops_def put_arg_def image_iff split: option.splits)

lemma length_dec: "n < 10 ^ Suc k \<Longrightarrow> length (dec n) \<le> Suc k"
proof (induction k arbitrary: n)
  case 0
  then show ?case by (simp add: dec.simps)
next
  case (Suc k)
  then have "n div 10 < 10 ^ Suc k" by (simp add: less_mult_imp_div_less)
  then show ?case using Suc.IH [of "n div 10"] by (subst dec.simps) simp
qed

lemma now_us_range: "0 \<le> now \<Longrightarrow> 0 \<le> now_us now \<and> now_us now < 1000000"
  by (simp add: now_us_def duration_cast_eq signed_modulo_int_def signed_divide_int_def sgn_if)

section \<open>Concurrent calls\<close>

text \<open>
  Call \<open>i\<close> writes the line of \<open>calls i\<close>, one stream operation at a time, while it holds \<open>writing\<close>. The
  lock is taken with \<open>compare_exchange_weak\<close>, and a call that fails yields and tries again.
\<close>

definition yield_wait :: "bool \<Rightarrow> nat \<Rightarrow> nat option" where
  "yield_wait flag k = None"

definition debug_cs :: "(int \<Rightarrow> tm) \<Rightarrow> (nat \<Rightarrow> dbg_call) \<Rightarrow> tid \<Rightarrow> nat \<Rightarrow> cout \<Rightarrow> nat option \<times> cout" where
  "debug_cs localtime calls i k o1 =
     (let ops = debug_ops localtime (calls i)
      in (if Suc k < length ops then Some (Suc k) else None, out_step (ops ! k) o1))"

lemma debug_section:
  "section_at (debug_cs lt calls) 0 i o1 k o2 \<Longrightarrow>
    k < length (debug_ops lt (calls i)) \<and> o2 = fold out_step (take k (debug_ops lt (calls i))) o1"
proof (induction rule: section_at.induct)
  case section_enter
  then show ?case by (simp add: debug_ops_def)
next
  case (section_step i d k d1 k' d2)
  then show ?case by (auto simp: debug_cs_def Let_def take_Suc_conv_app_nth split: if_splits)
qed

lemma debug_serial:
  assumes "\<And>i. None \<notin> set (call_args (calls i))"
  shows "serial (debug_cs lt calls) 0 o1 is o2 \<Longrightarrow> otext o2 = otext o1 @ concat (map (\<lambda>i. debug_line lt (calls i)) is)"
proof (induction rule: serial.induct)
  case (serial_snoc "is" d i k d1 d2)
  let ?ops = "debug_ops lt (calls i)"
  from debug_section [OF serial_snoc.hyps(2)] have
    k: "k < length ?ops" "d1 = fold out_step (take k ?ops) d" by auto
  have last: "Suc k = length ?ops" "d2 = out_step (?ops ! k) d1"
    using serial_snoc.hyps(3) k(1) by (auto simp: debug_cs_def Let_def split: if_splits)
  have "take k ?ops @ [?ops ! k] = ?ops" using k(1) last(1) by (metis take_Suc_conv_app_nth take_all order_refl)
  then have "d2 = fold out_step ?ops d" using last(2) k(2) by (metis comp_apply fold_append fold_simps)
  then show ?case using serial_snoc.IH fold_debug_ops [OF assms] by simp
qed simp

section \<open>Properties\<close>

text \<open>A clock reading past the epoch prints exactly six digits of microseconds.\<close>

theorem debug_microseconds_six_digits:
  assumes "0 \<le> now"
  shows "length (pad CHR ''0'' 6 (dec_int (now_us now))) = 6"
proof -
  have "nat (now_us now) < 10 ^ Suc 5" using now_us_range [OF assms] by (simp add: nat_less_iff)
  then show ?thesis using length_dec [of "nat (now_us now)" 5] now_us_range [OF assms] by (simp add: pad_def dec_int_def)
qed

text \<open>C26: Lines are never mixed up. For any number of concurrent calls, whenever no call is writing, the
  text on the stream is the sequence of complete lines, one per call, in the order in which
  the calls took the lock.\<close>

theorem debug_lines_whole:
  assumes "lts_run (lock_step True yield_wait (debug_cs lt calls) 0) (lock_start n o1) tr s" "\<not> list_ex is_stray tr"
    and "\<forall>i < n. \<not> holds (lpcs s ! i)" "\<forall>i. None \<notin> set (call_args (calls i))"
  shows "otext (ldata s) = otext o1 @ concat (map (\<lambda>i. debug_line lt (calls i)) (acquirers tr))"
proof -
  have "length (lpcs s) = n" using lock_run_length [OF assms(1)] by (simp add: lock_start_def)
  then have "serial (debug_cs lt calls) 0 o1 (acquirers tr) (ldata s)"
    using assms(3) by (cases rule: lock_reachable [OF assms(1,2)]) (auto simp: free_ok_def held_ok_def)
  then show ?thesis using debug_serial assms(4) by blast
qed

text \<open>Two calls with their texts, the second one issued first.\<close>

definition demo_calls :: "nat \<Rightarrow> dbg_call" where
  "demo_calls i = \<lparr>call_now = 1000, call_tid = i, call_args = [Some ''x'']\<rparr>"

definition demo_time :: "int \<Rightarrow> tm" where
  "demo_time t = \<lparr>tm_hour = 1, tm_min = 2, tm_sec = 3\<rparr>"

lemma two_calls_run:
  obtains tr s where "lts_run (lock_step True yield_wait (debug_cs demo_time demo_calls) 0) (lock_start 2 \<lparr>otext = [], ofill = CHR '' ''\<rparr>) tr s"
    "\<not> list_ex is_stray tr" "acquirers tr = [1, 0]" "map holds (lpcs s) = [False, False]"
proof -
  let ?is = "[1, 0, 1, 0] @ replicate 11 1 @ replicate 13 (0 :: nat)" and ?o = "\<lparr>otext = [], ofill = CHR '' ''\<rparr>"
  have "map_option (\<lambda>(tr, s). (list_ex is_stray tr, acquirers tr, map holds (lpcs s)))
      (lock_script yield_wait (debug_cs demo_time demo_calls) 0 ?is (lock_start 2 ?o)) = Some (False, [1, 0], [False, False])"
    by code_simp
  then obtain tr s where "lock_script yield_wait (debug_cs demo_time demo_calls) 0 ?is (lock_start 2 ?o) = Some (tr, s)"
    "\<not> list_ex is_stray tr" "acquirers tr = [1, 0]" "map holds (lpcs s) = [False, False]"
    by (auto simp del: lock_script.simps)
  from that [OF lock_script_run [OF this(1)] this(2-4)] show ?thesis .
qed

theorem debug_lines_whole_witness:
  "\<exists>s :: (nat, cout) lock_sys. otext (ldata s) = debug_line demo_time (demo_calls 1) @ debug_line demo_time (demo_calls 0)"
proof -
  obtain tr s where s: "lts_run (lock_step True yield_wait (debug_cs demo_time demo_calls) 0) (lock_start 2 \<lparr>otext = [], ofill = CHR '' ''\<rparr>) tr s"
    "\<not> list_ex is_stray tr" "acquirers tr = [1, 0]" "map holds (lpcs s) = [False, False]" by (rule two_calls_run)
  have "\<forall>i < 2. \<not> holds (lpcs s ! i)" using s(4) by (auto simp: less_Suc_eq numeral_2_eq_2 map_eq_Cons_conv)
  from debug_lines_whole [OF s(1,2) this] s(3) show ?thesis by (intro exI [of _ s]) (simp add: demo_calls_def)
qed

text \<open>C27: A throwing argument. When writing an argument throws, \<open>writing\<close> stays set: the exception leaves the call, and
  every later call, from any thread, waits for ever.\<close>

theorem debug_throw_blocks_logging:
  assumes "None \<in> set (call_args c)"
  shows "\<exists>o2. debugMessage lt c (False, o1) = Threw (True, o2) \<and>
    (\<forall>c'. debugMessage lt c' (True, o2) = Spinning (True, o2))"
proof -
  from assms obtain o2 where "out_run (debug_ops lt c) o1 = Threw o2"
    using out_run_throws debug_ops_throws by blast
  then show ?thesis by (simp add: debugMessage_def)
qed

theorem debug_throw_blocks_logging_witness:
  "\<exists>o2. debugMessage (\<lambda>_. \<lparr>tm_hour = 0, tm_min = 0, tm_sec = 0\<rparr>)
      \<lparr>call_now = 0, call_tid = 1, call_args = [Some ''x'', None]\<rparr> (False, \<lparr>otext = [], ofill = CHR '' ''\<rparr>) = Threw (True, o2)"
  using debug_throw_blocks_logging [of "\<lparr>call_now = 0, call_tid = 1, call_args = [Some ''x'', None]\<rparr>"
      "\<lambda>_. \<lparr>tm_hour = 0, tm_min = 0, tm_sec = 0\<rparr>" "\<lparr>otext = [], ofill = CHR '' ''\<rparr>"] by auto

end
