(* ===== verification/Bench_Main.thy ===== *)
theory Bench_Main
  imports Bench_Common Debug_Func
begin

text \<open>
  What the \<open>main\<close> functions of the four benchmark programs share: the initialisation, the state of
  the process, a measurement with its accounting check, a table of interleaved measurements under a
  \<open>Deadline\<close>, and the loops over configurations. A measurement is an argument: a function of the machine to its
  result, whether its check held, and the machine afterwards. \<open>None\<close> is undefined behaviour, a read of an empty vector.
\<close>

named_theorems step_rules

section \<open>State of a benchmark process\<close>

record benv =
  e_knobs :: knobs
  e_cpus :: "nat list"
  e_tscPerNs :: real

definition init ::
    "(real \<Rightarrow> real) \<Rightarrow> (string \<Rightarrow> string option) \<Rightarrow> nat option option list \<Rightarrow> int \<Rightarrow> u64 \<Rightarrow> int list \<Rightarrow> u64 \<Rightarrow> int \<Rightarrow> benv option" where
  "init fl getenv rs n0 t0 polls t1 n1 =
     (let kn = readKnobs getenv; cpus = detectTopology rs
      in map_option (\<lambda>g. \<lparr>e_knobs = kn, e_cpus = cpus, e_tscPerNs = g\<rparr>) (calibrateTsc fl n0 t0 polls t1 n1))"

datatype out_line =
    Preamble string nat "nat list" real i32 u64 u64
  | Heading string
  | Skipped string nat
  | Table string string "table_line list"
  | Percentiles string "real list" real

record 's prog =
  mach :: 's
  failures :: u64
  dog :: watchdog
  printed :: "out_line list"

definition start_prog :: "'s \<Rightarrow> 's prog" where
  "start_prog m = \<lparr>mach = m, failures = 0, dog = no_deadline, printed = []\<rparr>"

definition print_out :: "out_line \<Rightarrow> 's prog \<Rightarrow> 's prog" where
  "print_out l p = p\<lparr>printed := printed p @ [l]\<rparr>"

definition printPreamble :: "benv \<Rightarrow> string \<Rightarrow> 's prog \<Rightarrow> 's prog" where
  "printPreamble e what p =
     print_out (Preamble what (coreCount (e_cpus e)) (e_cpus e) (e_tscPerNs e)
       (g_reps (e_knobs e)) (g_mult (e_knobs e)) (g_scale (e_knobs e))) p"

section \<open>Measurements and tables\<close>

type_synonym ('s, 'r) meas = "'s \<Rightarrow> 'r \<times> bool \<times> 's"

definition run_meas :: "('s, 'r) meas \<Rightarrow> 's prog \<Rightarrow> 'r \<times> 's prog" where
  "run_meas f p = (let (r, ok, m) = f (mach p) in (r, p\<lparr>mach := m, failures := bench_check ok (failures p)\<rparr>))"

text \<open>A block with a local \<open>Deadline\<close>; \<open>clock\<close> is the reading of the steady clock.\<close>

definition with_Deadline :: "('s \<Rightarrow> i64) \<Rightarrow> string \<Rightarrow> i32 \<Rightarrow> ('s prog \<Rightarrow> 's prog option) \<Rightarrow> 's prog \<Rightarrow> 's prog option" where
  "with_Deadline clock name seconds body p =
     map_option (\<lambda>q. q\<lparr>dog := delete_Deadline (dog q)\<rparr>)
       (body (p\<lparr>dog := new_Deadline name seconds (clock (mach p)) (dog p)\<rparr>))"

definition double_mid :: "(real \<Rightarrow> real) \<Rightarrow> real \<Rightarrow> real \<Rightarrow> real" where
  "double_mid fl a b = fl (fl (a + b) / 2)"

definition make_row :: "string \<times> string \<Rightarrow> real Stat \<Rightarrow> Row" where
  "make_row c st = \<lparr>row_name = fst c, row_note = snd c, row_stat = st, row_skipped = False\<rparr>"

text \<open>\<open>interleaved\<close> on named measurements, and the table of its summaries.\<close>

definition run_table ::
    "(real \<Rightarrow> real) \<Rightarrow> benv \<Rightarrow> string \<Rightarrow> string \<Rightarrow> ((string \<times> string) \<times> ('s, real) meas) list \<Rightarrow> 's prog \<Rightarrow> 's prog option" where
  "run_table fl e title unit cs p =
     (let (st, q) = interleaved (double_mid fl) (g_reps (e_knobs e)) (map (run_meas \<circ> snd) cs) p
      in map_option (\<lambda>sts. print_out (Table title unit (printTable fl (map2 make_row (map fst cs) sts) True)) q) st)"

text \<open>A row of percentiles: the warm-up, the measurement, and \<open>back()\<close> of the sorted samples.\<close>

definition run_latency ::
    "(real \<Rightarrow> real) \<Rightarrow> string \<Rightarrow> real list \<Rightarrow> (u64 \<Rightarrow> ('s, real list) meas) \<Rightarrow> u64 \<Rightarrow> 's prog \<Rightarrow> 's prog option" where
  "run_latency fl name ps f samples p =
     (let (w, p1) = run_meas (f (samples div 10)) p; (r, p2) = run_meas (f samples) p1
      in if r = [] then None else Some (print_out (Percentiles name (map (percentile fl r) ps) (last r)) p2))"

fun for_each :: "('x \<Rightarrow> 'p \<Rightarrow> 'p option) \<Rightarrow> 'x list \<Rightarrow> 'p \<Rightarrow> 'p option" where
  "for_each f [] p = Some p"
| "for_each f (x # xs) p = Option.bind (f x p) (for_each f xs)"

text \<open>A program ends with \<open>return finish()\<close>.\<close>

definition run_main :: "('s prog \<Rightarrow> 's prog option) \<Rightarrow> 's \<Rightarrow> (int \<times> 's prog) option" where
  "run_main body m = map_option (\<lambda>p. (finish (failures p), p)) (body (start_prog m))"

section \<open>Contracts\<close>

text \<open>Whatever the environment is, the scale is never zero, and without the knob there are seven repetitions.\<close>

lemma init_knobs:
  assumes "init fl getenv rs n0 t0 polls t1 n1 = Some e"
  shows "g_scale (e_knobs e) \<noteq> 0" "getenv ''ASTRA_BENCH_REPS'' = None \<Longrightarrow> g_reps (e_knobs e) = 7" "e_cpus e = detectTopology rs"
  using assms by (auto simp: init_def Let_def readKnobs_def knob_num_nonzero knob_num_def split: option.splits if_splits)

text \<open>
  A measurement that keeps an invariant \<open>J\<close> of the machine, where \<open>cnt\<close> counts the failed checks; a step of the
  program that returns when started with \<open>g_failures\<close> equal to that count and without a \<open>Deadline\<close>, and leaves it so.
\<close>

definition meas_ok :: "('s \<Rightarrow> bool) \<Rightarrow> ('s \<Rightarrow> nat) \<Rightarrow> ('r \<Rightarrow> bool) \<Rightarrow> ('s, 'r) meas \<Rightarrow> bool" where
  "meas_ok J cnt R f \<longleftrightarrow>
     (\<forall>m. J m \<longrightarrow> (case f m of (r, ok, m') \<Rightarrow> R r \<and> J m' \<and> cnt m' = cnt m + (if ok then 0 else 1)))"

definition clean :: "('s \<Rightarrow> bool) \<Rightarrow> ('s \<Rightarrow> nat) \<Rightarrow> 's prog \<Rightarrow> bool" where
  "clean J cnt p \<longleftrightarrow> J (mach p) \<and> failures p = of_nat (cnt (mach p))"

definition disarmed :: "'s prog \<Rightarrow> bool" where
  "disarmed p \<longleftrightarrow> g_deadlineNs (dog p) = INT64_MAX"

definition fine :: "('s \<Rightarrow> bool) \<Rightarrow> ('s \<Rightarrow> nat) \<Rightarrow> 's prog \<Rightarrow> bool" where
  "fine J cnt p \<longleftrightarrow> clean J cnt p \<and> disarmed p"

definition step_ok :: "('p \<Rightarrow> bool) \<Rightarrow> ('p \<Rightarrow> 'p option) \<Rightarrow> bool" where
  "step_ok I f \<longleftrightarrow> (\<forall>p. I p \<longrightarrow> (\<exists>q. f p = Some q \<and> I q))"

lemma step_okD: "step_ok I f \<Longrightarrow> I p \<Longrightarrow> \<exists>q. f p = Some q \<and> I q"
  by (simp add: step_ok_def)

lemma for_each_ok [step_rules]: "(\<And>x. x \<in> set xs \<Longrightarrow> step_ok I (f x)) \<Longrightarrow> step_ok I (for_each f xs)"
proof (induction xs)
  case (Cons x xs)
  have "\<exists>q. for_each f (x # xs) p = Some q \<and> I q" if p: "I p" for p
  proof -
    obtain q where "f x p = Some q" "I q" using Cons.prems [of x] p by (auto dest: step_okD)
    then show ?thesis using Cons by (auto dest: step_okD)
  qed
  then show ?case by (simp add: step_ok_def)
qed (simp add: step_ok_def)

declare for_each.simps [simp del]

lemma step_ok_seq [step_rules]: "step_ok I f \<Longrightarrow> step_ok I g \<Longrightarrow> step_ok I (\<lambda>p. Option.bind (f p) g)"
  by (fastforce simp: step_ok_def)

lemma step_ok_bind [step_rules]: "x = Some y \<Longrightarrow> step_ok I (g y) \<Longrightarrow> step_ok I (\<lambda>p. Option.bind x (\<lambda>y. g y p))"
  by (simp add: step_ok_def)

lemma step_ok_if [step_rules]: "(b \<Longrightarrow> step_ok I f) \<Longrightarrow> (\<not> b \<Longrightarrow> step_ok I g) \<Longrightarrow> step_ok I (\<lambda>p. if b then f p else g p)"
  by (simp add: step_ok_def)

lemma clean_print [simp]:
  "clean J cnt (print_out l p) = clean J cnt p" "fine J cnt (print_out l p) = fine J cnt p" "fine J cnt (printPreamble e w p) = fine J cnt p"
  by (simp_all add: fine_def clean_def disarmed_def print_out_def printPreamble_def)

lemma step_ok_print [step_rules]:
  "step_ok (fine J cnt) (\<lambda>p. Some (print_out l p))" "step_ok (fine J cnt) f \<Longrightarrow> step_ok (fine J cnt) (\<lambda>p. f (print_out l p))"
  "step_ok (fine J cnt) f \<Longrightarrow> step_ok (fine J cnt) (\<lambda>p. f (printPreamble e w p))"
  by (simp_all add: step_ok_def)

text \<open>
  A program all of whose steps are right returns 0 exactly when no check failed, and the watchdog has
  nothing left to wait for.
\<close>

definition reports :: "('s \<Rightarrow> bool) \<Rightarrow> ('s \<Rightarrow> nat) \<Rightarrow> int \<Rightarrow> 's prog \<Rightarrow> bool" where
  "reports J cnt status p \<longleftrightarrow> J (mach p) \<and>
     (cnt (mach p) < 2 ^ 64 \<longrightarrow> status = (if cnt (mach p) = 0 then 0 else 1)) \<and> (\<forall>t. watchdog_round t (dog p) = None)"

lemma run_main_ok:
  assumes "step_ok (fine J cnt) body" "J m" "cnt m = 0"
  shows "\<exists>status p. run_main body m = Some (status, p) \<and> reports J cnt status p"
proof -
  have "fine J cnt (start_prog m)"
    using assms(2,3) by (simp add: fine_def clean_def disarmed_def start_prog_def no_deadline_def)
  then obtain p where p: "body (start_prog m) = Some p" "fine J cnt p" using step_okD [OF assms(1)] by blast
  have "of_nat (cnt (mach p)) = (0 :: u64) \<longleftrightarrow> cnt (mach p) = 0" if "cnt (mach p) < 2 ^ 64"
    using that of_nat_word_inject_close [where 'a = 64, of 0 "cnt (mach p)"] by auto
  with p show ?thesis
    by (auto simp: run_main_def reports_def fine_def clean_def disarmed_def finish_def watchdog_round_def)
qed

lemma run_meas_ok:
  assumes "meas_ok J cnt R f" "clean J cnt p"
  shows "R (fst (run_meas f p))" "clean J cnt (snd (run_meas f p))"
  using assms by (auto simp: meas_ok_def clean_def run_meas_def bench_check_def Let_def split: prod.splits)

lemma run_all_inv: "(\<And>f s. f \<in> set fns \<Longrightarrow> I s \<Longrightarrow> I (snd (f s))) \<Longrightarrow> I s \<Longrightarrow> I (snd (run_all fns s))"
proof (induction fns arbitrary: s)
  case (Cons f fns)
  then have "I (snd (f s))" by simp
  then have "I (snd (run_all fns (snd (f s))))" using Cons by simp
  then show ?case by (simp add: case_prod_unfold Let_def)
qed simp

lemma round_state_inv: "(\<And>f s. f \<in> set fns \<Longrightarrow> I s \<Longrightarrow> I (snd (f s))) \<Longrightarrow> I s \<Longrightarrow> I (round_state fns r s)"
  by (induction r) (simp_all add: run_all_inv)

lemma interleaved_ok:
  assumes "0 < sint reps" "\<And>f s. f \<in> set fns \<Longrightarrow> I s \<Longrightarrow> I (snd (f s))" "I s"
  obtains sts t where "interleaved mid reps fns s = (Some sts, t)" "I t" "length sts = length fns"
  using interleaved_rounds [of reps mid fns s] round_state_inv [of fns I s "Suc (nat (sint reps))"] assms
  by (auto simp del: round_state.simps)

lemma run_table_ok:
  assumes "0 < sint (g_reps (e_knobs e))" "\<And>c. c \<in> set cs \<Longrightarrow> meas_ok J cnt (\<lambda>_. True) (snd c)"
  shows "step_ok (clean J cnt) (run_table fl e title unit cs)"
  unfolding step_ok_def
proof (intro allI impI)
  fix p assume p: "clean J cnt p"
  have "clean J cnt (snd (f s))" if "f \<in> set (map (run_meas \<circ> snd) cs)" "clean J cnt s" for f s
    using that assms(2) by (auto intro: run_meas_ok(2))
  then obtain sts t where "interleaved (double_mid fl) (g_reps (e_knobs e)) (map (run_meas \<circ> snd) cs) p = (Some sts, t)" "clean J cnt t"
    using interleaved_ok [of "g_reps (e_knobs e)" "map (run_meas \<circ> snd) cs" "clean J cnt" p "double_mid fl"] assms(1) p by metis
  then show "\<exists>q. run_table fl e title unit cs p = Some q \<and> clean J cnt q" by (simp add: run_table_def)
qed

lemma run_latency_ok:
  assumes "\<And>n. meas_ok J cnt (\<lambda>r. n \<noteq> 0 \<longrightarrow> r \<noteq> []) (f n)" "samples \<noteq> 0"
  shows "step_ok (clean J cnt) (run_latency fl name ps f samples)"
  unfolding step_ok_def
proof (intro allI impI)
  fix p assume "clean J cnt p"
  then have "clean J cnt (snd (run_meas (f (samples div 10)) p))" using run_meas_ok(2) [OF assms(1)] by blast
  from run_meas_ok [OF assms(1) [of samples] this] assms(2)
  show "\<exists>q. run_latency fl name ps f samples p = Some q \<and> clean J cnt q"
    by (simp add: run_latency_def Let_def case_prod_unfold)
qed

lemma with_Deadline_ok [step_rules]:
  assumes "step_ok (clean J cnt) body"
  shows "step_ok (fine J cnt) (with_Deadline clock name seconds body)"
  unfolding step_ok_def
proof (intro allI impI)
  fix p assume "fine J cnt p"
  then have "clean J cnt (p\<lparr>dog := new_Deadline name seconds (clock (mach p)) (dog p)\<rparr>)" by (simp add: fine_def clean_def)
  from step_okD [OF assms this] show "\<exists>q. with_Deadline clock name seconds body p = Some q \<and> fine J cnt q"
    by (auto simp: with_Deadline_def fine_def clean_def disarmed_def delete_Deadline_def)
qed

end
