(* ===== verification/Bench_Run.thy ===== *)
theory Bench_Run
  imports Bench_Common
begin

text \<open>
  \<open>runPinned\<close> (bench/benchCommon.hpp): the coordinator spawns \<open>n\<close> threads, each of which pins itself,
  announces itself in \<open>ready\<close> and spins on \<open>go\<close>; the coordinator waits for all of them, reads the
  clock, releases them, joins them and reads the clock again. The body of a thread is whatever
  happens between the events \<open>Began\<close> and \<open>Ended\<close>, which carry the time of the steady clock.
\<close>

section \<open>The machine\<close>

datatype rpc = RPin | RReady | RSpin | RBody | RDone

datatype coord =
    CoSpawn | CoPin | CoWait | CoStart | CoGo int | CoJoin int nat | CoStop int | CoUnpin int int | CoRet int

record run_sys =
  ready :: u32
  go :: bool
  tpcs :: "rpc list"
  coord :: coord
  steady :: int

datatype run_ev =
    Pinned nat nat
  | CoordPinned "nat option"
  | Began nat int
  | Ended nat int
  | RTau

definition run_start :: "int \<Rightarrow> run_sys" where
  "run_start now = \<lparr>ready = 0, go = False, tpcs = [], coord = CoSpawn, steady = now\<rparr>"

fun coord_exec :: "nat list \<Rightarrow> u32 \<Rightarrow> coord \<Rightarrow> run_sys \<Rightarrow> run_sys" where
  "coord_exec cpus n CoSpawn s =
     (if length (tpcs s) < unat n then s\<lparr>tpcs := tpcs s @ [RPin]\<rparr> else s\<lparr>coord := CoPin\<rparr>)"
| "coord_exec cpus n CoPin s = s\<lparr>coord := CoWait\<rparr>"
| "coord_exec cpus n CoWait s = (if ready s < n then s else s\<lparr>coord := CoStart\<rparr>)"
| "coord_exec cpus n CoStart s = s\<lparr>coord := CoGo (steady s)\<rparr>"
| "coord_exec cpus n (CoGo t0) s = s\<lparr>go := True, coord := CoJoin t0 0\<rparr>"
| "coord_exec cpus n (CoJoin t0 k) s =
     (if k < length (tpcs s) then (if tpcs s ! k = RDone then s\<lparr>coord := CoJoin t0 (Suc k)\<rparr> else s)
      else s\<lparr>coord := CoStop t0\<rparr>)"
| "coord_exec cpus n (CoStop t0) s = s\<lparr>coord := CoUnpin t0 (steady s)\<rparr>"
| "coord_exec cpus n (CoUnpin t0 t1) s = s\<lparr>coord := CoRet (t1 - t0)\<rparr>"
| "coord_exec cpus n (CoRet d) s = s"

fun coord_event :: "nat list \<Rightarrow> u32 \<Rightarrow> coord \<Rightarrow> run_ev" where
  "coord_event cpus n CoPin = CoordPinned (pinCoordinatorAway cpus (unat n))"
| "coord_event cpus n p = RTau"

fun thread_exec :: "nat \<Rightarrow> rpc \<Rightarrow> run_sys \<Rightarrow> run_sys" where
  "thread_exec i RPin s = s\<lparr>tpcs := (tpcs s)[i := RReady]\<rparr>"
| "thread_exec i RReady s = s\<lparr>ready := ready s + 1, tpcs := (tpcs s)[i := RSpin]\<rparr>"
| "thread_exec i RSpin s = (if go s then s\<lparr>tpcs := (tpcs s)[i := RBody]\<rparr> else s)"
| "thread_exec i RBody s = s\<lparr>tpcs := (tpcs s)[i := RDone]\<rparr>"
| "thread_exec i RDone s = s"

fun thread_event :: "nat list \<Rightarrow> nat \<Rightarrow> rpc \<Rightarrow> run_sys \<Rightarrow> run_ev" where
  "thread_event cpus i RPin s = Pinned i (pinToCore cpus i)"
| "thread_event cpus i RSpin s = (if go s then Began i (steady s) else RTau)"
| "thread_event cpus i RBody s = Ended i (steady s)"
| "thread_event cpus i p s = RTau"

inductive runPinned_step :: "nat list \<Rightarrow> u32 \<Rightarrow> run_sys \<Rightarrow> run_ev \<Rightarrow> run_sys \<Rightarrow> bool" for cpus n where
  coordinator: "runPinned_step cpus n s (coord_event cpus n (coord s)) (coord_exec cpus n (coord s) s)"
| thread: "i < length (tpcs s) \<Longrightarrow>
    runPinned_step cpus n s (thread_event cpus i (tpcs s ! i) s) (thread_exec i (tpcs s ! i) s)"
| tick: "steady s \<le> now \<Longrightarrow> runPinned_step cpus n s RTau (s\<lparr>steady := now\<rparr>)"

section \<open>Invariant\<close>

fun announced :: "rpc \<Rightarrow> bool" where
  "announced RPin = False"
| "announced RReady = False"
| "announced _ = True"

fun started :: "rpc \<Rightarrow> bool" where
  "started RBody = True"
| "started RDone = True"
| "started _ = False"

fun ended_by :: "nat \<Rightarrow> run_ev \<Rightarrow> bool" where
  "ended_by i (Ended j c) = (i = j)"
| "ended_by i _ = False"

fun timed_within :: "int \<Rightarrow> int \<Rightarrow> run_ev \<Rightarrow> bool" where
  "timed_within t0 t1 (Began i c) = (t0 \<le> c \<and> c \<le> t1)"
| "timed_within t0 t1 (Ended i c) = (t0 \<le> c \<and> c \<le> t1)"
| "timed_within t0 t1 _ = True"

fun untimed :: "run_ev \<Rightarrow> bool" where
  "untimed (Began i c) = False"
| "untimed (Ended i c) = False"
| "untimed _ = True"

text \<open>What holds of the threads and the events when the coordinator is at a point.\<close>

fun coord_ok :: "u32 \<Rightarrow> run_ev list \<Rightarrow> run_sys \<Rightarrow> coord \<Rightarrow> bool" where
  "coord_ok n tr s CoSpawn = (\<not> go s)"
| "coord_ok n tr s CoPin = (\<not> go s \<and> length (tpcs s) = unat n)"
| "coord_ok n tr s CoWait = (\<not> go s \<and> length (tpcs s) = unat n)"
| "coord_ok n tr s CoStart = (\<not> go s \<and> length (tpcs s) = unat n \<and> list_all announced (tpcs s))"
| "coord_ok n tr s (CoGo t0) = (\<not> go s \<and> length (tpcs s) = unat n \<and> list_all announced (tpcs s) \<and> t0 \<le> steady s)"
| "coord_ok n tr s (CoJoin t0 k) = (length (tpcs s) = unat n \<and> list_all announced (tpcs s) \<and>
     list_all (timed_within t0 (steady s)) tr \<and> t0 \<le> steady s \<and> k \<le> unat n \<and> (\<forall>j < k. tpcs s ! j = RDone))"
| "coord_ok n tr s (CoStop t0) = (length (tpcs s) = unat n \<and> list_all announced (tpcs s) \<and>
     list_all (timed_within t0 (steady s)) tr \<and> t0 \<le> steady s \<and> (\<forall>j < unat n. tpcs s ! j = RDone))"
| "coord_ok n tr s (CoUnpin t0 t1) = (length (tpcs s) = unat n \<and> list_all announced (tpcs s) \<and>
     list_all (timed_within t0 t1) tr \<and> (\<forall>j < unat n. tpcs s ! j = RDone))"
| "coord_ok n tr s (CoRet d) = (length (tpcs s) = unat n \<and> list_all announced (tpcs s) \<and>
     (\<exists>t0 t1. d = t1 - t0 \<and> list_all (timed_within t0 t1) tr) \<and> (\<forall>j < unat n. tpcs s ! j = RDone))"

definition run_inv :: "u32 \<Rightarrow> run_ev list \<Rightarrow> run_sys \<Rightarrow> bool" where
  "run_inv n tr s \<longleftrightarrow>
     length (tpcs s) \<le> unat n \<and> ready s = of_nat (length (filter announced (tpcs s))) \<and>
     (\<not> go s \<longrightarrow> list_all untimed tr \<and> list_all (Not \<circ> started) (tpcs s)) \<and>
     (\<forall>i. length (filter (ended_by i) tr) = (if i < length (tpcs s) \<and> tpcs s ! i = RDone then 1 else 0)) \<and>
     coord_ok n tr s (coord s)"

lemma timed_within_mono: "list_all (timed_within t0 t1) tr \<Longrightarrow> t1 \<le> t2 \<Longrightarrow> list_all (timed_within t0 t2) tr"
proof (induction tr)
  case (Cons e tr)
  then show ?case by (cases e) auto
qed simp

lemma untimed_within: "list_all untimed tr \<Longrightarrow> list_all (timed_within t0 t1) tr"
proof (induction tr)
  case (Cons e tr)
  then show ?case by (cases e) auto
qed simp

lemma all_announced:
  assumes "ready s = of_nat (length (filter announced (tpcs s)))" "length (tpcs s) = unat n" "\<not> ready s < n"
  shows "list_all announced (tpcs s)"
proof (rule ccontr)
  assume "\<not> ?thesis"
  then have "length (filter announced (tpcs s)) < unat n"
    using assms(2) by (metis length_filter_less list_all_iff)
  then have "unat (ready s) < unat n" using assms(1) by (simp add: unat_of_nat) 
  with assms(3) show False by (simp add: word_less_nat_alt)
qed

lemma coord_ok_tau:
  "coord_ok n tr s p \<Longrightarrow> tpcs s' = tpcs s \<Longrightarrow> go s' = go s \<Longrightarrow> steady s \<le> steady s' \<Longrightarrow> untimed e \<Longrightarrow>
    coord_ok n (tr @ [e]) s' p"
  by (cases p; cases e) (auto intro: timed_within_mono order_trans)

lemma run_inv_coordinator:
  assumes "run_inv n tr s"
  shows "run_inv n (tr @ [coord_event cpus n (coord s)]) (coord_exec cpus n (coord s) s)"
proof (cases "coord s")
  case CoWait
  then show ?thesis using assms all_announced [of s n] by (auto simp: run_inv_def)
next
  case (CoGo t0)
  then show ?thesis using assms by (auto simp: run_inv_def intro: untimed_within)
next
  case (CoJoin t0 k)
  then show ?thesis using assms by (auto simp: run_inv_def less_Suc_eq)
next
  case (CoSpawn)
  then show ?thesis using assms by (auto simp: run_inv_def nth_append less_Suc_eq)
qed (use assms in \<open>auto simp: run_inv_def\<close>)


lemma coord_ok_thread:
  assumes "coord_ok n tr s (coord s)" "i < length (tpcs s)"
    "\<not> go s \<longrightarrow> list_all (Not \<circ> started) (tpcs s)"
  shows "coord_ok n (tr @ [thread_event cpus i (tpcs s ! i) s]) (thread_exec i (tpcs s ! i) s) (coord s)"
proof -
  have ann: "list_all announced (tpcs s) \<Longrightarrow> announced (tpcs s ! i)" using assms(2) by (simp add: list_all_length)
  have st: "\<not> go s \<Longrightarrow> \<not> started (tpcs s ! i)" using assms(2,3) by (simp add: list_all_length)
  show ?thesis
    using assms(1,2) ann st
    by (cases "tpcs s ! i"; cases "coord s") (auto simp: nth_list_update list_all_update)
qed

lemma run_inv_thread:
  assumes "run_inv n tr s" "i < length (tpcs s)"
  shows "run_inv n (tr @ [thread_event cpus i (tpcs s ! i) s]) (thread_exec i (tpcs s ! i) s)"
proof -
  let ?s = "thread_exec i (tpcs s ! i) s" and ?e = "thread_event cpus i (tpcs s ! i) s"
  have same [simp]: "coord ?s = coord s" "go ?s = go s" "length (tpcs ?s) = length (tpcs s)"
    by (cases "tpcs s ! i"; simp)+
  have st: "\<not> go s \<Longrightarrow> \<not> started (tpcs s ! i)" "\<not> go s \<Longrightarrow> list_all (Not \<circ> started) (tpcs s)"
    using assms by (auto simp: run_inv_def list_all_length)
  note upd = length_filter_update [OF assms(2), of announced]
  have "ready ?s = of_nat (length (filter announced (tpcs ?s)))"
    using assms upd [of RReady] upd [of RSpin] upd [of RBody] upd [of RDone]
    by (cases "tpcs s ! i") (auto simp: run_inv_def algebra_simps)
  moreover have "\<not> go s \<longrightarrow> list_all untimed (tr @ [?e]) \<and> list_all (Not \<circ> started) (tpcs ?s)"
    using assms st by (cases "tpcs s ! i") (auto simp: run_inv_def list_all_update)
  moreover have "length (filter (ended_by j) (tr @ [?e])) = (if j < length (tpcs s) \<and> tpcs ?s ! j = RDone then 1 else 0)" for j
    using assms by (cases "tpcs s ! i"; cases "i = j") (auto simp: run_inv_def)
  moreover have "coord_ok n (tr @ [?e]) ?s (coord s)"
    using assms st by (intro coord_ok_thread) (auto simp: run_inv_def)
  ultimately show ?thesis using assms by (simp add: run_inv_def)
qed

lemma run_inv_tick:
  assumes "run_inv n tr s" "steady s \<le> now"
  shows "run_inv n (tr @ [RTau]) (s\<lparr>steady := now\<rparr>)"
  using assms coord_ok_tau [of n tr s "coord s" "s\<lparr>steady := now\<rparr>" RTau] by (auto simp: run_inv_def)

interpretation runm: lts_invariant "runPinned_step cpus n" "\<lambda>s. \<exists>now. s = run_start now" "run_inv n"
proof
  show "\<exists>now. s = run_start now \<Longrightarrow> run_inv n [] s" for s by (auto simp: run_start_def run_inv_def)
  show "run_inv n tr s \<Longrightarrow> runPinned_step cpus n s l s' \<Longrightarrow> run_inv n (tr @ [l]) s'" for tr s l s'
    by (erule runPinned_step.cases) (auto intro: run_inv_coordinator run_inv_thread run_inv_tick)
qed

text \<open>Runs by a script: the coordinator, thread \<open>i\<close>, or the clock moves.\<close>

datatype run_act = Co | Th nat | Clock int

fun run_do :: "nat list \<Rightarrow> u32 \<Rightarrow> run_act \<Rightarrow> run_sys \<Rightarrow> run_ev \<times> run_sys" where
  "run_do cpus n Co s = (coord_event cpus n (coord s), coord_exec cpus n (coord s) s)"
| "run_do cpus n (Th i) s = (if i < length (tpcs s) then (thread_event cpus i (tpcs s ! i) s, thread_exec i (tpcs s ! i) s)
     else (RTau, s))"
| "run_do cpus n (Clock now) s = (RTau, s\<lparr>steady := max now (steady s)\<rparr>)"

fun run_script :: "nat list \<Rightarrow> u32 \<Rightarrow> run_act list \<Rightarrow> run_sys \<Rightarrow> run_ev list \<times> run_sys" where
  "run_script cpus n [] s = ([], s)"
| "run_script cpus n (a # as) s = (let (e, s1) = run_do cpus n a s; (es, s2) = run_script cpus n as s1 in (e # es, s2))"

lemma run_do_step: "run_do cpus n a s = (e, s') \<Longrightarrow> runPinned_step cpus n s e s'"
  using runPinned_step.tick [of s "steady s" cpus n] runPinned_step.tick [of s "max _ (steady s)" cpus n]
  by (cases a) (auto intro: runPinned_step.intros split: if_splits)

lemma run_script_run: "run_script cpus n as s = (tr, s') \<Longrightarrow> lts_run (runPinned_step cpus n) s tr s'"
proof (induction as arbitrary: s tr)
  case Nil
  then show ?case by (auto intro: lts_run.run_nil)
next
  case (Cons a as)
  then show ?case by (auto split: prod.splits intro: lts_run_cons run_do_step)
qed

text \<open>C34: The barrier of \<open>runPinned\<close>. No body begins before every thread is pinned and has announced itself. When
  \<open>runPinned\<close> returns, each of the \<open>n\<close> bodies has ended exactly once, and the result is the length of
  an interval of the steady clock that contains the beginning and the end of every body.\<close>

theorem runPinned_barrier:
  assumes "lts_run (runPinned_step cpus n) (run_start now) tr s"
  shows "((\<exists>p \<in> set (tpcs s). started p) \<longrightarrow> length (tpcs s) = unat n \<and> list_all announced (tpcs s)) \<and>
    (coord s = CoRet d \<longrightarrow>
      (\<forall>i < unat n. length (filter (ended_by i) tr) = 1) \<and>
      (\<exists>t0 t1. d = t1 - t0 \<and> list_all (timed_within t0 t1) tr))"
proof -
  have inv: "run_inv n tr s" using runm.inv_run [OF assms] by blast
  have "go s \<Longrightarrow> length (tpcs s) = unat n \<and> list_all announced (tpcs s)"
    using inv by (cases "coord s") (auto simp: run_inv_def)
  then have "(\<exists>p \<in> set (tpcs s). started p) \<longrightarrow> length (tpcs s) = unat n \<and> list_all announced (tpcs s)"
    using inv by (auto simp: run_inv_def list_all_iff)
  moreover have "coord s = CoRet d \<longrightarrow> (\<forall>i < unat n. length (filter (ended_by i) tr) = 1) \<and>
      (\<exists>t0 t1. d = t1 - t0 \<and> list_all (timed_within t0 t1) tr)"
    using inv by (auto simp: run_inv_def)
  ultimately show ?thesis by blast
qed

definition one_body :: "run_act list" where
  "one_body = [Co, Co, Co, Th 0, Th 0, Co, Clock 7, Co, Co, Th 0, Clock 9, Th 0, Co, Co, Co, Co]"

theorem runPinned_barrier_witness:
  "\<exists>tr s. lts_run (runPinned_step [0, 1] 1) (run_start 5) tr s \<and> coord s = CoRet 2 \<and>
    length (filter (ended_by 0) tr) = 1"
proof -
  obtain tr s where r: "run_script [0, 1] 1 one_body (run_start 5) = (tr, s)" by (cases "run_script [0, 1] 1 one_body (run_start 5)")
  then have run: "lts_run (runPinned_step [0, 1] 1) (run_start 5) tr s" by (rule run_script_run)
  moreover have "coord s = CoRet 2"
    using r by (auto simp: one_body_def run_start_def pinToCore_def pinCoordinatorAway_def)
  ultimately show ?thesis using runPinned_barrier [OF run, of 2] by auto
qed

end
