(* ===== verification/Bench_Queue.thy ===== *)
theory Bench_Queue
  imports Bench_Run Ring_Concurrent Spsc_Concurrent
begin

text \<open>
  The throughput measurement of bench/QueueComparisonBench.cpp and the adapters of the queues that
  the repository itself implements: the two ring buffers and the deque under a mutex. A queue is a
  step relation whose events are the calls and returns of \<open>push\<close> and \<open>pop\<close>; the body of \<open>throughput\<close>
  drives it with \<open>P\<close> producers and \<open>C\<close> consumers.
\<close>

section \<open>Queues as the benchmark sees them\<close>

datatype qev = Push tid u64 | PushRet tid | Pop tid | PopRet tid u64 | QTau

fun push_of :: "qev \<Rightarrow> (tid \<times> u64) list" where
  "push_of (Push i v) = [(i, v)]"
| "push_of _ = []"

fun pop_of :: "qev \<Rightarrow> (tid \<times> u64) list" where
  "pop_of (PopRet i v) = [(i, v)]"
| "pop_of _ = []"

definition pushes :: "qev list \<Rightarrow> (tid \<times> u64) list" where "pushes tr = concat (map push_of tr)"
definition pops :: "qev list \<Rightarrow> (tid \<times> u64) list" where "pops tr = concat (map pop_of tr)"

lemma qev_simps [simp]:
  "pushes [] = []" "pops [] = []"
  "pushes (tr @ tr') = pushes tr @ pushes tr'" "pops (tr @ tr') = pops tr @ pops tr'"
  "pushes [e] = push_of e" "pops [e] = pop_of e"
  by (simp_all add: pushes_def pops_def)

definition CAP :: nat where "CAP = 1024"

text \<open>\<open>AstraQ\<close>: \<open>push\<close> is \<open>enqueue\<close>, \<open>pop\<close> is \<open>dequeue\<close> of an \<open>AtomicRingBuffer<uint64_t, CAP>\<close>.\<close>

fun AstraQ_event :: "u64 ring_ev \<Rightarrow> qev option" where
  "AstraQ_event (EnqCall i v) = Some (Push i v)"
| "AstraQ_event (EnqRet i) = Some (PushRet i)"
| "AstraQ_event (DeqCall i) = Some (Pop i)"
| "AstraQ_event (DeqRet i v) = Some (PopRet i v)"
| "AstraQ_event (Tau i) = Some QTau"
| "AstraQ_event _ = None"

inductive AstraQ_step :: "u64 ring_sys \<Rightarrow> qev \<Rightarrow> u64 ring_sys \<Rightarrow> bool" where
  astra_q: "ring_step id id q e q' \<Longrightarrow> AstraQ_event e = Some l \<Longrightarrow> AstraQ_step q l q'"

definition AstraQ_start :: "nat \<Rightarrow> u64 list \<Rightarrow> u64 ring_sys" where
  "AstraQ_start n ds = ring_start n [] ds"

text \<open>\<open>AstraSPSC\<close>: thread \<open>p\<close> is the producer, thread \<open>c\<close> the consumer (0 and 1 in the 1P/1C shape).\<close>

fun AstraSPSC_event :: "tid \<Rightarrow> tid \<Rightarrow> u64 spsc_ev \<Rightarrow> qev" where
  "AstraSPSC_event p c (PCall v) = Push p v"
| "AstraSPSC_event p c PRet = PushRet p"
| "AstraSPSC_event p c CCall = Pop c"
| "AstraSPSC_event p c (CRet v) = PopRet c v"
| "AstraSPSC_event p c STau = QTau"

inductive AstraSPSC_step :: "tid \<Rightarrow> tid \<Rightarrow> u64 spsc_sys \<Rightarrow> qev \<Rightarrow> u64 spsc_sys \<Rightarrow> bool" for p c where
  astra_spsc: "spsc_step id id q e q' \<Longrightarrow> AstraSPSC_step p c q (AstraSPSC_event p c e) q'"

text \<open>
  \<open>MutexDeque\<close>: a section under the \<open>std::lock_guard\<close> is one step, it either performs the operation and
  returns, or finds the deque full or empty and the call pauses and tries again.
\<close>

datatype mqpc = MqIdle | MqPush u64 | MqPop

record MutexDeque =
  mdeque :: "u64 list"
  mqpcs :: "mqpc list"

definition MutexDeque_start :: "nat \<Rightarrow> MutexDeque" where
  "MutexDeque_start n = \<lparr>mdeque = [], mqpcs = replicate n MqIdle\<rparr>"

inductive MutexDeque_step :: "MutexDeque \<Rightarrow> qev \<Rightarrow> MutexDeque \<Rightarrow> bool" where
  md_push: "i < length (mqpcs q) \<Longrightarrow> mqpcs q ! i = MqIdle \<Longrightarrow>
    MutexDeque_step q (Push i v) (q\<lparr>mqpcs := (mqpcs q)[i := MqPush v]\<rparr>)"
| md_push_back: "i < length (mqpcs q) \<Longrightarrow> mqpcs q ! i = MqPush v \<Longrightarrow> length (mdeque q) < CAP \<Longrightarrow>
    MutexDeque_step q (PushRet i) (q\<lparr>mdeque := mdeque q @ [v], mqpcs := (mqpcs q)[i := MqIdle]\<rparr>)"
| md_full: "i < length (mqpcs q) \<Longrightarrow> mqpcs q ! i = MqPush v \<Longrightarrow> \<not> length (mdeque q) < CAP \<Longrightarrow>
    MutexDeque_step q QTau q"
| md_pop: "i < length (mqpcs q) \<Longrightarrow> mqpcs q ! i = MqIdle \<Longrightarrow>
    MutexDeque_step q (Pop i) (q\<lparr>mqpcs := (mqpcs q)[i := MqPop]\<rparr>)"
| md_pop_front: "i < length (mqpcs q) \<Longrightarrow> mqpcs q ! i = MqPop \<Longrightarrow> mdeque q = v # vs \<Longrightarrow>
    MutexDeque_step q (PopRet i v) (q\<lparr>mdeque := vs, mqpcs := (mqpcs q)[i := MqIdle]\<rparr>)"
| md_empty: "i < length (mqpcs q) \<Longrightarrow> mqpcs q ! i = MqPop \<Longrightarrow> mdeque q = [] \<Longrightarrow>
    MutexDeque_step q QTau q"

section \<open>The measurement\<close>

text \<open>
  The threads of \<open>throughput<Q>(P, C, N)\<close>: producer \<open>i\<close> pushes \<open>i + 1 + k * P\<close> for \<open>k < N / P\<close>, a consumer
  pops \<open>N / C\<close> values, adds them up and adds its total to \<open>sum\<close>.
\<close>

datatype tphase = TLoop | TCall | TDone

record 'q tput =
  tqueue :: 'q
  tk :: "u64 list"
  tacc :: "u64 list"
  tphase :: "tphase list"
  tsum :: u64

definition push_value :: "u32 \<Rightarrow> tid \<Rightarrow> u64 \<Rightarrow> u64" where
  "push_value P i k = ucast (of_nat i + 1 :: u32) + k * ucast P"

definition throughput_start :: "u32 \<Rightarrow> u32 \<Rightarrow> 'q \<Rightarrow> 'q tput" where
  "throughput_start P C q =
     \<lparr>tqueue = q, tk = replicate (unat (P + C)) 0, tacc = replicate (unat (P + C)) 0,
      tphase = replicate (unat (P + C)) TLoop, tsum = 0\<rparr>"

definition is_producer :: "u32 \<Rightarrow> tid \<Rightarrow> bool" where
  "is_producer P i \<longleftrightarrow> i < unat P"

definition iterations :: "u32 \<Rightarrow> u32 \<Rightarrow> u64 \<Rightarrow> tid \<Rightarrow> u64" where
  "iterations P C N i = (if is_producer P i then N div ucast P else N div ucast C)"

inductive throughput_step :: "('q \<Rightarrow> qev \<Rightarrow> 'q \<Rightarrow> bool) \<Rightarrow> u32 \<Rightarrow> u32 \<Rightarrow> u64 \<Rightarrow> 'q tput \<Rightarrow> qev \<Rightarrow> 'q tput \<Rightarrow> bool"
  for qstep P C N where
  tp_push: "i < length (tphase s) \<Longrightarrow> tphase s ! i = TLoop \<Longrightarrow> is_producer P i \<Longrightarrow> tk s ! i < iterations P C N i \<Longrightarrow>
    qstep (tqueue s) (Push i (push_value P i (tk s ! i))) q \<Longrightarrow>
    throughput_step qstep P C N s (Push i (push_value P i (tk s ! i)))
      (s\<lparr>tqueue := q, tphase := (tphase s)[i := TCall]\<rparr>)"
| tp_pushed: "i < length (tphase s) \<Longrightarrow> tphase s ! i = TCall \<Longrightarrow> is_producer P i \<Longrightarrow> qstep (tqueue s) (PushRet i) q \<Longrightarrow>
    throughput_step qstep P C N s (PushRet i)
      (s\<lparr>tqueue := q, tphase := (tphase s)[i := TLoop], tk := (tk s)[i := tk s ! i + 1]\<rparr>)"
| tp_pop: "i < length (tphase s) \<Longrightarrow> tphase s ! i = TLoop \<Longrightarrow> \<not> is_producer P i \<Longrightarrow> tk s ! i < iterations P C N i \<Longrightarrow>
    qstep (tqueue s) (Pop i) q \<Longrightarrow>
    throughput_step qstep P C N s (Pop i) (s\<lparr>tqueue := q, tphase := (tphase s)[i := TCall]\<rparr>)"
| tp_popped: "i < length (tphase s) \<Longrightarrow> tphase s ! i = TCall \<Longrightarrow> \<not> is_producer P i \<Longrightarrow> qstep (tqueue s) (PopRet i v) q \<Longrightarrow>
    throughput_step qstep P C N s (PopRet i v)
      (s\<lparr>tqueue := q, tphase := (tphase s)[i := TLoop], tk := (tk s)[i := tk s ! i + 1],
         tacc := (tacc s)[i := tacc s ! i + v]\<rparr>)"
| tp_inside: "qstep (tqueue s) QTau q \<Longrightarrow> throughput_step qstep P C N s QTau (s\<lparr>tqueue := q\<rparr>)"
| tp_producer_done: "i < length (tphase s) \<Longrightarrow> tphase s ! i = TLoop \<Longrightarrow> is_producer P i \<Longrightarrow> \<not> tk s ! i < iterations P C N i \<Longrightarrow>
    throughput_step qstep P C N s QTau (s\<lparr>tphase := (tphase s)[i := TDone]\<rparr>)"
| tp_consumer_done: "i < length (tphase s) \<Longrightarrow> tphase s ! i = TLoop \<Longrightarrow> \<not> is_producer P i \<Longrightarrow> \<not> tk s ! i < iterations P C N i \<Longrightarrow>
    throughput_step qstep P C N s QTau (s\<lparr>tphase := (tphase s)[i := TDone], tsum := tsum s + tacc s ! i\<rparr>)"

text \<open>The number of items of a shape, as \<open>main\<close> computes it; \<open>None\<close> when a shape is skipped for want of cores.\<close>

definition items_of_shape :: "knobs \<Rightarrow> nat list \<Rightarrow> u32 \<Rightarrow> u32 \<Rightarrow> u64 \<Rightarrow> u64 option" where
  "items_of_shape kn cpus P C base =
     (if of_nat (coreCount cpus) < P + C + 1 then None
      else map_option (\<lambda>N. N - N mod (ucast P * ucast C)) (scaled kn base 1000))"

text \<open>The check at the end, in the arithmetic of \<open>uint64_t\<close>.\<close>

definition expect :: "u64 \<Rightarrow> u64" where
  "expect N = N * (N + 1) div 2"

definition throughput_check :: "u64 \<Rightarrow> 'q tput \<Rightarrow> bool" where
  "throughput_check N s \<longleftrightarrow> tsum s = expect N"

section \<open>Accounting\<close>

definition vals_by :: "tid \<Rightarrow> (tid \<times> u64) list \<Rightarrow> u64 list" where
  "vals_by i xs = map snd (filter (\<lambda>p. fst p = i) xs)"

lemma vals_by_simps [simp]:
  "vals_by i [] = []" "vals_by i (xs @ ys) = vals_by i xs @ vals_by i ys"
  "vals_by i ((j, v) # xs) = (if i = j then v # vals_by i xs else vals_by i xs)"
  by (simp_all add: vals_by_def)

text \<open>What the calls of thread \<open>i\<close> so far have been and given.\<close>

definition thread_ok :: "u32 \<Rightarrow> u32 \<Rightarrow> u64 \<Rightarrow> qev list \<Rightarrow> tid \<Rightarrow> u64 \<Rightarrow> u64 \<Rightarrow> tphase \<Rightarrow> bool" where
  "thread_ok P C N tr i k a ph \<longleftrightarrow>
     k \<le> iterations P C N i \<and> (ph = TCall \<longrightarrow> k < iterations P C N i) \<and> (ph = TDone \<longrightarrow> k = iterations P C N i) \<and>
     (if is_producer P i
      then vals_by i (pops tr) = [] \<and>
        vals_by i (pushes tr) = map (\<lambda>j. push_value P i (of_nat j)) [0..<unat k + (if ph = TCall then 1 else 0)]
      else vals_by i (pushes tr) = [] \<and> length (vals_by i (pops tr)) = unat k \<and> sum_list (vals_by i (pops tr)) = a)"

definition tput_inv :: "u32 \<Rightarrow> u32 \<Rightarrow> u64 \<Rightarrow> qev list \<Rightarrow> 'q tput \<Rightarrow> bool" where
  "tput_inv P C N tr s \<longleftrightarrow>
     length (tk s) = unat (P + C) \<and> length (tacc s) = unat (P + C) \<and> length (tphase s) = unat (P + C) \<and>
     fst ` set (pushes tr) \<subseteq> {..<unat (P + C)} \<and> fst ` set (pops tr) \<subseteq> {..<unat (P + C)} \<and>
     (\<forall>i < unat (P + C). thread_ok P C N tr i (tk s ! i) (tacc s ! i) (tphase s ! i)) \<and>
     tsum s = (\<Sum>i | i < unat (P + C) \<and> \<not> is_producer P i \<and> tphase s ! i = TDone. tacc s ! i)"

lemma thread_ok_other:
  "push_of e = [] \<or> fst (hd (push_of e)) \<noteq> i \<Longrightarrow> pop_of e = [] \<or> fst (hd (pop_of e)) \<noteq> i \<Longrightarrow>
    thread_ok P C N (tr @ [e]) i k a ph = thread_ok P C N tr i k a ph"
  by (cases e) (auto simp: thread_ok_def)

text \<open>A step of thread \<open>i\<close> keeps the invariant when its own entry stays right.\<close>

lemma tput_inv_update:
  assumes "tput_inv P C N tr s" "i < unat (P + C)"
    and "\<And>j. j \<noteq> i \<Longrightarrow> thread_ok P C N (tr @ [e]) j = thread_ok P C N tr j"
    and "thread_ok P C N (tr @ [e]) i k a ph"
    and "fst ` set (push_of e) \<subseteq> {i}" "fst ` set (pop_of e) \<subseteq> {i}" "tphase s ! i \<noteq> TDone"
  shows "tput_inv P C N (tr @ [e]) \<lparr>tqueue = q, tk = (tk s)[i := k], tacc = (tacc s)[i := a],
    tphase = (tphase s)[i := ph], tsum = (if ph = TDone \<and> \<not> is_producer P i then tsum s + a else tsum s)\<rparr>"
proof -
  have "(\<Sum>j | j < unat (P + C) \<and> \<not> is_producer P j \<and> (tphase s)[i := ph] ! j = TDone. (tacc s)[i := a] ! j) =
    (if ph = TDone \<and> \<not> is_producer P i then tsum s + a else tsum s)"
  proof -
    let ?A = "{j. j < unat (P + C) \<and> \<not> is_producer P j \<and> tphase s ! j = TDone}"
    have "{j. j < unat (P + C) \<and> \<not> is_producer P j \<and> (tphase s)[i := ph] ! j = TDone} =
        (if ph = TDone \<and> \<not> is_producer P i then insert i ?A else ?A)"
      using assms(1,2,7) by (auto simp: tput_inv_def nth_list_update)
    moreover have "i \<notin> ?A" using assms(7) by simp
    moreover have "(\<Sum>j \<in> ?A. (tacc s)[i := a] ! j) = tsum s"
      using assms(1,7) by (auto simp: tput_inv_def intro!: sum.cong nth_list_update_neq)
    ultimately show ?thesis using assms(1,2) by (auto simp: tput_inv_def)
  qed
  moreover have "\<forall>j < unat (P + C). thread_ok P C N (tr @ [e]) j ((tk s)[i := k] ! j) ((tacc s)[i := a] ! j) ((tphase s)[i := ph] ! j)"
    using assms by (auto simp: tput_inv_def nth_list_update)
  ultimately show ?thesis
    using assms(1,2,5,6) by (auto simp: tput_inv_def)
qed

lemma tput_inv_start: "tput_inv P C N [] (throughput_start P C q)"
  by (auto simp: tput_inv_def throughput_start_def thread_ok_def)


lemma tput_inv_step:
  assumes inv: "tput_inv P C N tr s" and step: "throughput_step qstep P C N s e s'"
  shows "tput_inv P C N (tr @ [e]) s'"
proof -
  have ok: "thread_ok P C N tr i (tk s ! i) (tacc s ! i) (tphase s ! i)" if "i < length (tphase s)" for i
    using inv that by (simp add: tput_inv_def)
  have n: "i < length (tphase s) \<Longrightarrow> i < unat (P + C)" for i using inv by (simp add: tput_inv_def)
  have len: "length (tk s) = length (tphase s)" "length (tacc s) = length (tphase s)" using inv by (auto simp: tput_inv_def)
  note upd = tput_inv_update [OF inv n]
  show ?thesis using step
  proof cases
    case (tp_push i q)
    have "thread_ok P C N (tr @ [e]) i (tk s ! i) (tacc s ! i) TCall"
      using ok [OF tp_push(3)] tp_push by (auto simp: thread_ok_def)
    from upd [OF tp_push(3) _ this, of q] show ?thesis using tp_push len by (cases s) (auto simp: thread_ok_other fun_eq_iff)
  next
    case (tp_pushed i q)
    have "thread_ok P C N (tr @ [e]) i (tk s ! i + 1) (tacc s ! i) TLoop"
      using ok [OF tp_pushed(3)] tp_pushed word_less_Suc [of "tk s ! i"] by (auto simp: thread_ok_def)
    from upd [OF tp_pushed(3) _ this, of q] show ?thesis using tp_pushed len by (cases s) (auto simp: thread_ok_other fun_eq_iff)
  next
    case (tp_pop i q)
    have "thread_ok P C N (tr @ [e]) i (tk s ! i) (tacc s ! i) TCall"
      using ok [OF tp_pop(3)] tp_pop by (auto simp: thread_ok_def)
    from upd [OF tp_pop(3) _ this, of q] show ?thesis using tp_pop len by (cases s) (auto simp: thread_ok_other fun_eq_iff)
  next
    case (tp_popped i v q)
    have "thread_ok P C N (tr @ [e]) i (tk s ! i + 1) (tacc s ! i + v) TLoop"
      using ok [OF tp_popped(3)] tp_popped word_less_Suc [of "tk s ! i"] by (auto simp: thread_ok_def)
    from upd [OF tp_popped(3) _ this, of q] show ?thesis using tp_popped len by (cases s) (auto simp: thread_ok_other fun_eq_iff)
  next
    case (tp_inside q)
    then show ?thesis using inv by (auto simp: tput_inv_def thread_ok_other)
  next
    case (tp_producer_done i)
    have "thread_ok P C N (tr @ [e]) i (tk s ! i) (tacc s ! i) TDone"
      using ok [OF tp_producer_done(3)] tp_producer_done by (auto simp: thread_ok_def)
    from upd [OF tp_producer_done(3) _ this, of "tqueue s"] show ?thesis
      using tp_producer_done len by (cases s) (auto simp: thread_ok_other fun_eq_iff)
  next
    case (tp_consumer_done i)
    have "thread_ok P C N (tr @ [e]) i (tk s ! i) (tacc s ! i) TDone"
      using ok [OF tp_consumer_done(3)] tp_consumer_done by (auto simp: thread_ok_def)
    from upd [OF tp_consumer_done(3) _ this, of "tqueue s"] show ?thesis
      using tp_consumer_done len by (cases s) (auto simp: thread_ok_other fun_eq_iff)
  qed
qed

lemma mset_by_tid: "fst ` set xs \<subseteq> {..<n} \<Longrightarrow> mset (map snd xs) = (\<Sum>i<n. mset (vals_by i xs))"
proof (induction xs)
  case (Cons p xs)
  obtain j v where p: "p = (j, v)" by (cases p)
  have "(\<Sum>i<n. mset (vals_by i (p # xs))) = (\<Sum>i<n. (if i = j then {#v#} else {#}) + mset (vals_by i xs))"
    by (rule sum.cong) (auto simp: p)
  also have "\<dots> = {#v#} + (\<Sum>i<n. mset (vals_by i xs))"
    using Cons.prems by (simp add: sum.distrib p)
  finally show ?case using Cons p by simp
qed simp

lemma sum_by_tid:
  fixes xs :: "(tid \<times> u64) list"
  assumes "fst ` set xs \<subseteq> {..<n}"
  shows "sum_list (map snd xs) = (\<Sum>i<n. sum_list (vals_by i xs))" "length xs = (\<Sum>i<n. length (vals_by i xs))"
proof -
  note m = mset_by_tid [OF assms]
  have "sum_mset (\<Sum>i<n. mset (vals_by i xs)) = (\<Sum>i<n. sum_list (vals_by i xs))"
    by (induction n) (simp_all add: sum_mset_sum_list)
  then show "sum_list (map snd xs) = (\<Sum>i<n. sum_list (vals_by i xs))"
    using m by (metis sum_mset_sum_list)
  have "size (\<Sum>i<n. mset (vals_by i xs)) = (\<Sum>i<n. length (vals_by i xs))"
    by (induction n) simp_all
  then show "length xs = (\<Sum>i<n. length (vals_by i xs))" using m by (metis length_map size_mset)
qed

lemma push_value_nat:
  assumes "i < unat P"
  shows "push_value P i (of_nat j) = of_nat (j * unat P + i + 1)"
proof -
  have "unat P < 2 ^ 32" using unsigned_less [of P] by simp
  then have "unat (of_nat i + 1 :: u32) = i + 1" using assms by (simp add: unat_word_ariths(1) unat_of_nat)
  then have "(ucast (of_nat i + 1 :: u32) :: u64) = of_nat (i + 1)" by (metis of_nat_unat)
  moreover have "(ucast P :: u64) = of_nat (unat P)" by simp
  ultimately show ?thesis by (simp add: push_value_def algebra_simps)
qed

lemma sum_strided:
  fixes g :: "nat \<Rightarrow> 'a::comm_monoid_add"
  shows "(\<Sum>i<p. \<Sum>j<q. g (j * p + i)) = (\<Sum>m<q * p. g m)"
proof -
  have "(\<Sum>i<p. g (j * p + i)) = sum g {j * p..<j * p + p}" for j
    using sum.shift_bounds_nat_ivl [of g 0 "j * p" p] by (simp add: lessThan_atLeast0 add.commute)
  then show ?thesis by (simp add: sum.nat_group sum.swap [of _ "{..<q}"])
qed

lemma triangle: "(\<Sum>m<n. of_nat (m + 1)) = (of_nat (n * (n + 1) div 2) :: u64)"
proof -
  have "(\<Sum>m<n. m + 1) = n * (n + 1) div 2" by (induction n) auto
  then show ?thesis by (metis (no_types, lifting) of_nat_sum sum.cong)
qed


lemma unat_ucast_u64: "unat (ucast (P :: u32) :: u64) = unat P"
proof -
  have "unat P < 2 ^ 32" using unsigned_less [of P] by simp
  then show ?thesis by (simp add: unsigned_ucast_eq take_bit_nat_eq_self)
qed

lemma iterations_nat:
  "is_producer P i \<Longrightarrow> unat (iterations P C N i) = unat N div unat P"
  "\<not> is_producer P i \<Longrightarrow> unat (iterations P C N i) = unat N div unat C"
  by (simp_all add: iterations_def unat_div unat_ucast_u64)

lemma sum_producers_consumers:
  assumes "unat P + unat C < 2 ^ 32"
  shows "(\<Sum>i<unat (P + C). if is_producer P i then f i else g i) = (\<Sum>i<unat P. f i) + (\<Sum>i<unat C. g (unat P + i))"
proof -
  have "unat (P + C) = unat P + unat C" using assms by (simp add: unat_word_ariths(1))
  moreover have "(\<Sum>i<unat P + k. if is_producer P i then f i else g i) = (\<Sum>i<unat P. f i) + (\<Sum>i<k. g (unat P + i))" for k
    by (induction k) (simp_all add: is_producer_def add.assoc)
  ultimately show ?thesis by simp
qed

lemma tput_done:
  assumes "tput_inv P C N tr s" "set (tphase s) \<subseteq> {TDone}" "i < unat (P + C)"
  shows "tphase s ! i = TDone" "thread_ok P C N tr i (iterations P C N i) (tacc s ! i) TDone"
proof -
  show d: "tphase s ! i = TDone" using assms by (auto simp: tput_inv_def intro: nth_of_singleton)
  have "thread_ok P C N tr i (tk s ! i) (tacc s ! i) (tphase s ! i)" using assms(1,3) by (simp add: tput_inv_def)
  then have "thread_ok P C N tr i (tk s ! i) (tacc s ! i) TDone" by (simp add: d)
  moreover from this have "tk s ! i = iterations P C N i" by (simp add: thread_ok_def)
  ultimately show "thread_ok P C N tr i (iterations P C N i) (tacc s ! i) TDone" by simp
qed

lemma tput_pushed:
  assumes "tput_inv P C N tr s" "set (tphase s) \<subseteq> {TDone}" "unat P + unat C < 2 ^ 32" "unat P dvd unat N"
  shows "length (pushes tr) = unat N" "sum_list (map snd (pushes tr)) = of_nat (unat N * (unat N + 1) div 2)"
proof -
  let ?q = "unat N div unat P"
  have t: "fst ` set (pushes tr) \<subseteq> {..<unat (P + C)}" using assms(1) by (simp add: tput_inv_def)
  have v: "vals_by i (pushes tr) = (if is_producer P i then map (\<lambda>j. push_value P i (of_nat j)) [0..<?q] else [])"
    if "i < unat (P + C)" for i
    using tput_done(2) [OF assms(1,2) that] by (auto simp: thread_ok_def iterations_nat)
  have N: "?q * unat P = unat N" using assms(4) by simp
  have "length (pushes tr) = (\<Sum>i<unat (P + C). if is_producer P i then ?q else 0)"
    unfolding sum_by_tid(2) [OF t] by (rule sum.cong) (simp_all add: v)
  then show "length (pushes tr) = unat N" using N by (simp add: sum_producers_consumers [OF assms(3)] mult.commute)
  have "sum_list (map snd (pushes tr)) = (\<Sum>i<unat (P + C). if is_producer P i then (\<Sum>j<?q. push_value P i (of_nat j)) else 0)"
    unfolding sum_by_tid(1) [OF t] by (rule sum.cong) (simp_all add: v interv_sum_list_conv_sum_set_nat atLeast0LessThan)
  also have "\<dots> = (\<Sum>i<unat P. \<Sum>j<?q. of_nat (j * unat P + i + 1))"
    by (simp only: sum_producers_consumers [OF assms(3)]) (simp add: push_value_nat del: of_nat_add of_nat_mult of_nat_Suc)
  also have "\<dots> = (\<Sum>m<unat N. of_nat (m + 1))"
    using sum_strided [where g = "\<lambda>m. of_nat (m + 1)" and p = "unat P" and q = ?q] N by (simp only:)
  finally show "sum_list (map snd (pushes tr)) = of_nat (unat N * (unat N + 1) div 2)" by (simp only: triangle)
qed

lemma tput_popped:
  assumes "tput_inv P C N tr s" "set (tphase s) \<subseteq> {TDone}" "unat P + unat C < 2 ^ 32" "unat C dvd unat N"
  shows "length (pops tr) = unat N" "sum_list (map snd (pops tr)) = tsum s"
proof -
  have t: "fst ` set (pops tr) \<subseteq> {..<unat (P + C)}" using assms(1) by (simp add: tput_inv_def)
  note d = tput_done [OF assms(1,2)]
  have "length (pops tr) = (\<Sum>i<unat (P + C). if is_producer P i then 0 else unat N div unat C)"
    unfolding sum_by_tid(2) [OF t] using d(2) by (intro sum.cong) (auto simp: thread_ok_def iterations_nat)
  then show "length (pops tr) = unat N" using assms(4) by (simp add: sum_producers_consumers [OF assms(3)])
  have "sum_list (map snd (pops tr)) = (\<Sum>i<unat (P + C). if \<not> is_producer P i then tacc s ! i else 0)"
    unfolding sum_by_tid(1) [OF t] using d(2) by (intro sum.cong) (auto simp: thread_ok_def)
  also have "\<dots> = (\<Sum>i | i < unat (P + C) \<and> \<not> is_producer P i \<and> tphase s ! i = TDone. tacc s ! i)"
    using d(1) by (subst sum.inter_filter [symmetric]) (auto intro!: sum.cong)
  finally show "sum_list (map snd (pops tr)) = tsum s" using assms(1) by (simp add: tput_inv_def)
qed

text \<open>A queue for the benchmark: what has been popped is a part of what has been pushed.\<close>

locale bench_queue =
  fixes qstep :: "'q \<Rightarrow> qev \<Rightarrow> 'q \<Rightarrow> bool"
    and qstart :: "'q \<Rightarrow> bool"
  assumes popped_once:
    "qstart q0 \<Longrightarrow> lts_run qstep q0 tr q \<Longrightarrow> mset (map snd (pops tr)) \<subseteq># mset (map snd (pushes tr))"
begin

lemma queue_run:
  "lts_run (throughput_step qstep P C N) s0 tr s \<Longrightarrow>
    \<exists>qtr. lts_run qstep (tqueue s0) qtr (tqueue s) \<and> pushes qtr = pushes tr \<and> pops qtr = pops tr"
proof (induction rule: lts_run.induct)
  case run_nil
  then show ?case using lts_run.run_nil [of qstep "tqueue s0"] by blast
next
  case (run_snoc tr s e s')
  then obtain qtr where q: "lts_run qstep (tqueue s0) qtr (tqueue s)" "pushes qtr = pushes tr" "pops qtr = pops tr" by blast
  from run_snoc.hyps(2) have "qstep (tqueue s) e (tqueue s') \<or> tqueue s' = tqueue s \<and> e = QTau"
    by cases auto
  then show ?case
  proof
    assume "qstep (tqueue s) e (tqueue s')"
    from lts_run.run_snoc [OF q(1) this] q(2,3) show ?thesis by (intro exI [of _ "qtr @ [e]"]) simp
  next
    assume "tqueue s' = tqueue s \<and> e = QTau"
    with q show ?thesis by (intro exI [of _ qtr]) simp
  qed
qed

lemma accounting:
  assumes "qstart q0" "lts_run (throughput_step qstep P C N) (throughput_start P C q0) tr s"
    and "set (tphase s) \<subseteq> {TDone}" "unat P + unat C < 2 ^ 32" "unat P dvd unat N" "unat C dvd unat N"
  shows "tsum s = of_nat (unat N * (unat N + 1) div 2)"
proof -
  from assms(2) have inv: "tput_inv P C N tr s"
    by (induction rule: lts_run.induct) (auto intro: tput_inv_start tput_inv_step)
  from queue_run [OF assms(2)] obtain qtr where
    "lts_run qstep q0 qtr (tqueue s)" "pushes qtr = pushes tr" "pops qtr = pops tr"
    by (auto simp: throughput_start_def)
  then have "mset (map snd (pops tr)) \<subseteq># mset (map snd (pushes tr))"
    using popped_once [OF assms(1)] by metis
  moreover have "size (mset (map snd (pops tr))) = size (mset (map snd (pushes tr)))"
    using tput_pushed(1) [OF inv assms(3,4,5)] tput_popped(1) [OF inv assms(3,4,6)] by simp
  ultimately have "mset (map snd (pops tr)) = mset (map snd (pushes tr))"
    by (metis mset_subset_size nat_less_le subset_mset.le_imp_less_or_eq)
  then have "sum_list (map snd (pops tr)) = sum_list (map snd (pushes tr))" by (metis sum_mset_sum_list)
  then show ?thesis using tput_pushed(2) [OF inv assms(3,4,5)] tput_popped(2) [OF inv assms(3,4,6)] by simp
qed

end

section \<open>The queues of the repository\<close>

lemma AstraQ_ring_run:
  "lts_run AstraQ_step q0 tr q \<Longrightarrow>
    \<exists>rtr. lts_run (ring_step id id) q0 rtr q \<and> enq_vals rtr = map snd (pushes tr) \<and> deq_vals rtr = map snd (pops tr)"
proof (induction rule: lts_run.induct)
  case run_nil
  then show ?case by (intro exI [of _ "[]"]) (auto simp: enq_vals_def deq_vals_def intro: lts_run.run_nil)
next
  case (run_snoc tr q l q')
  then obtain rtr where r: "lts_run (ring_step id id) q0 rtr q"
    "enq_vals rtr = map snd (pushes tr)" "deq_vals rtr = map snd (pops tr)" by blast
  from run_snoc.hyps(2) obtain e where e: "ring_step id id q e q'" "AstraQ_event e = Some l" by cases
  have "enq_val e = map snd (push_of l)" "deq_val e = map snd (pop_of l)" using e(2) by (cases e; auto)+
  with r(2,3) lts_run.run_snoc [OF r(1) e(1)] show ?case
    by (intro exI [of _ "rtr @ [e]"]) (simp add: enq_vals_def deq_vals_def)
qed

interpretation astraq: bench_queue AstraQ_step "\<lambda>q. \<exists>n ds. ring_size_ok (length ds) \<and> n < 2 ^ 32 \<and> q = AstraQ_start n ds"
proof
  fix q0 tr q
  assume "\<exists>n ds. ring_size_ok (length ds) \<and> n < 2 ^ 32 \<and> q0 = AstraQ_start n ds" "lts_run AstraQ_step q0 tr q"
  then show "mset (map snd (pops tr)) \<subseteq># mset (map snd (pushes tr))"
    using AstraQ_ring_run concurrent_submultiset by (metis AstraQ_start_def)
qed

lemma AstraSPSC_run:
  "lts_run (AstraSPSC_step p c) q0 tr q \<Longrightarrow>
    \<exists>rtr. lts_run (spsc_step id id) q0 rtr q \<and> pvals rtr = map snd (pushes tr) \<and> cvals rtr = map snd (pops tr)"
proof (induction rule: lts_run.induct)
  case run_nil
  then show ?case by (intro exI [of _ "[]"]) (auto intro: lts_run.run_nil)
next
  case (run_snoc tr q l q')
  then obtain rtr where r: "lts_run (spsc_step id id) q0 rtr q"
    "pvals rtr = map snd (pushes tr)" "cvals rtr = map snd (pops tr)" by blast
  from run_snoc.hyps(2) obtain e where e: "spsc_step id id q e q'" "l = AstraSPSC_event p c e" by cases auto
  have "pval e = map snd (push_of l)" "cval e = map snd (pop_of l)" using e(2) by (cases e; auto)+
  with r(2,3) lts_run.run_snoc [OF r(1) e(1)] show ?case
    by (intro exI [of _ "rtr @ [e]"]) simp
qed

interpretation astraspsc: bench_queue "AstraSPSC_step p c" "\<lambda>q. \<exists>ds. spsc_size_ok (length ds) \<and> q = spsc_start ds"
  for p c
proof
  fix q0 tr q
  assume "\<exists>ds. spsc_size_ok (length ds) \<and> q0 = spsc_start ds" "lts_run (AstraSPSC_step p c) q0 tr q"
  then obtain ds rtr where "spsc_size_ok (length ds)" "lts_run (spsc_step id id) (spsc_start ds) rtr q"
    "pvals rtr = map snd (pushes tr)" "cvals rtr = map snd (pops tr)"
    using AstraSPSC_run by blast
  then show "mset (map snd (pops tr)) \<subseteq># mset (map snd (pushes tr))"
    using spsc_cvals_take(1) by (metis append_take_drop_id mset_append mset_subset_eq_add_left)
qed

fun mq_pending :: "mqpc \<Rightarrow> u64 multiset" where
  "mq_pending (MqPush v) = {#v#}"
| "mq_pending _ = {#}"

definition mq_inv :: "qev list \<Rightarrow> MutexDeque \<Rightarrow> bool" where
  "mq_inv tr q \<longleftrightarrow> length (mdeque q) \<le> CAP \<and>
     mset (map snd (pushes tr)) = mset (map snd (pops tr)) + mset (mdeque q) + sum_list (map mq_pending (mqpcs q))"

lemma mq_inv_step:
  assumes "mq_inv tr q" "MutexDeque_step q e q'"
  shows "mq_inv (tr @ [e]) q'"
  using assms(2)
proof cases
  case (md_push i v)
  then show ?thesis using assms(1) sum_list_map_update [OF md_push(3), of mq_pending "MqPush v"] by (simp add: mq_inv_def)
next
  case (md_push_back i v)
  then show ?thesis using assms(1) sum_list_map_update [OF md_push_back(3), of mq_pending MqIdle] by (auto simp: mq_inv_def)
next
  case (md_pop i)
  then show ?thesis using assms(1) sum_list_map_update [OF md_pop(3), of mq_pending MqPop] by (simp add: mq_inv_def)
next
  case (md_pop_front i v vs)
  then show ?thesis using assms(1) sum_list_map_update [OF md_pop_front(3), of mq_pending MqIdle] by (simp add: mq_inv_def)
qed (use assms(1) in \<open>simp_all add: mq_inv_def\<close>)

interpretation mqm: lts_invariant MutexDeque_step "\<lambda>q. \<exists>n. q = MutexDeque_start n" mq_inv
proof
  have "sum_list (replicate n {#}) = ({#} :: u64 multiset)" for n by (induction n) simp_all
  then show "\<exists>n. q = MutexDeque_start n \<Longrightarrow> mq_inv [] q" for q by (auto simp: mq_inv_def MutexDeque_start_def)
  show "mq_inv tr q \<Longrightarrow> MutexDeque_step q e q' \<Longrightarrow> mq_inv (tr @ [e]) q'" for tr q e q' by (rule mq_inv_step)
qed

interpretation mutexdeque: bench_queue MutexDeque_step "\<lambda>q. \<exists>n. q = MutexDeque_start n"
  using mqm.inv_run by unfold_locales (fastforce simp: mq_inv_def)


section \<open>Properties\<close>

lemma expect_exact:
  assumes "unat N * (unat N + 1) < 2 ^ 64"
  shows "expect N = of_nat (unat N * (unat N + 1) div 2)"
proof -
  have "unat (expect N) = unat N * (unat N + 1) div 2"
  proof (cases "unat N + 1 < 2 ^ 64")
    case True
    then have "unat (N + 1) = unat N + 1" by (simp add: unat_word_ariths(1))
    then have "unat (N * (N + 1)) = unat N * (unat N + 1)" using assms by (simp add: unat_word_ariths(2))
    then show ?thesis by (simp add: expect_def unat_div)
  next
    case False
    then have "(2 ^ 64 - 1) * 2 \<le> unat N * (unat N + 1)" by (intro mult_le_mono) auto
    with assms show ?thesis by simp
  qed
  then show ?thesis by (metis of_nat_unat ucast_id)
qed

lemma items_divisible:
  assumes "items_of_shape kn cpus P C base = Some N"
  shows "unat P dvd unat N" "unat C dvd unat N"
proof -
  obtain M where M: "N = M - M mod (ucast P * ucast C)" using assms by (auto simp: items_of_shape_def split: if_splits)
  have "unat P < 2 ^ 32" "unat C < 2 ^ 32" using unsigned_less [of P] unsigned_less [of C] by simp_all
  then have "unat P * unat C < 2 ^ 32 * 2 ^ 32" by (intro mult_strict_mono) auto
  then have pc: "unat (ucast P * ucast C :: u64) = unat P * unat C"
    by (simp add: unat_word_ariths(2) unat_ucast_u64)
  have le: "M mod (ucast P * ucast C) \<le> M" by (simp add: word_le_nat_alt unat_mod)
  have "unat N = unat M - unat M mod (unat P * unat C)"
    using M unat_sub [OF le] by (simp add: unat_mod pc)
  then have "unat P * unat C dvd unat N" by (simp add: dvd_minus_mod)
  then show "unat P dvd unat N" "unat C dvd unat N" by (auto dest: dvd_mult_left dvd_mult_right)
qed

text \<open>Throughput accounting. When all threads of a throughput run on an \<open>AtomicRingBuffer\<close> have finished, for any number of
  producers and consumers that divide the number of items (as \<open>main\<close> arranges, lemma \<open>items_divisible\<close>) and
  any interleaving, the check at the end of \<open>throughput\<close> succeeds, as long as \<open>N * (N + 1)\<close> fits 64 bits.\<close>

theorem throughput_accounting:
  assumes "ring_size_ok (length ds)" "unat P + unat C < 2 ^ 32" "unat P dvd unat N" "unat C dvd unat N"
    and "lts_run (throughput_step AstraQ_step P C N) (throughput_start P C (AstraQ_start (unat (P + C)) ds)) tr s"
    and "set (tphase s) \<subseteq> {TDone}" "unat N * (unat N + 1) < 2 ^ 64"
  shows "throughput_check N s \<and> bench_check (throughput_check N s) failures = failures"
proof -
  have "unat (P + C) < 2 ^ 32" using unsigned_less [of "P + C"] by simp
  then have "tsum s = of_nat (unat N * (unat N + 1) div 2)"
    using assms(1) by (intro astraq.accounting [OF _ assms(5,6,2,3,4)]) blast
  then show ?thesis using expect_exact [OF assms(7)] by (simp add: throughput_check_def bench_check_def)
qed

text \<open>The same for \<open>AstraSPSC\<close> and \<open>MutexDeque\<close>.\<close>

theorem throughput_accounting_others:
  assumes "unat P + unat C < 2 ^ 32" "unat P dvd unat N" "unat C dvd unat N" "unat N * (unat N + 1) < 2 ^ 64"
  shows "spsc_size_ok (length ds) \<Longrightarrow> lts_run (throughput_step (AstraSPSC_step 0 1) P C N) (throughput_start P C (spsc_start ds)) tr s \<Longrightarrow>
      set (tphase s) \<subseteq> {TDone} \<Longrightarrow> throughput_check N s"
    and "lts_run (throughput_step MutexDeque_step P C N) (throughput_start P C (MutexDeque_start n)) tr' s' \<Longrightarrow>
      set (tphase s') \<subseteq> {TDone} \<Longrightarrow> throughput_check N s'"
  unfolding throughput_check_def expect_exact [OF assms(4)]
  by (rule astraspsc.accounting [OF _ _ _ assms(1-3)]; blast) (rule mutexdeque.accounting [OF _ _ _ assms(1-3)]; blast)

text \<open>
  From \<open>N = 2 ^ 32\<close> on the product wraps round before the division, and the expected value is not the
  sum of the pushed values: a correct queue fails the check.
\<close>

theorem throughput_expect_wraps:
  "expect (2 ^ 32) \<noteq> of_nat (2 ^ 32 * (2 ^ 32 + 1) div 2)"
  by (simp add: expect_def)

text \<open>The next action of thread \<open>i\<close> of a throughput run on \<open>AstraQ\<close>, and a schedule of such actions.\<close>

definition tput_do :: "u32 \<Rightarrow> u32 \<Rightarrow> u64 \<Rightarrow> tid \<Rightarrow> u64 ring_sys tput \<Rightarrow> (qev \<times> u64 ring_sys tput) option" where
  "tput_do P C N i s =
     (if \<not> i < length (tphase s) then None
      else case tphase s ! i of
        TLoop \<Rightarrow>
          if tk s ! i < iterations P C N i then
            (if is_producer P i
             then map_option (\<lambda>(e, q). (Push i (push_value P i (tk s ! i)), s\<lparr>tqueue := q, tphase := (tphase s)[i := TCall]\<rparr>))
               (perform id id (ActEnq i (push_value P i (tk s ! i))) (tqueue s))
             else map_option (\<lambda>(e, q). (Pop i, s\<lparr>tqueue := q, tphase := (tphase s)[i := TCall]\<rparr>))
               (perform id id (ActDeq i) (tqueue s)))
          else Some (QTau, s\<lparr>tphase := (tphase s)[i := TDone], tsum := (if is_producer P i then tsum s else tsum s + tacc s ! i)\<rparr>)
      | TCall \<Rightarrow>
          (case perform id id (ActStep i) (tqueue s) of
             Some (Tau _, q) \<Rightarrow> Some (QTau, s\<lparr>tqueue := q\<rparr>)
           | Some (EnqRet j, q) \<Rightarrow> if j = i \<and> is_producer P i then
               Some (PushRet i, s\<lparr>tqueue := q, tphase := (tphase s)[i := TLoop], tk := (tk s)[i := tk s ! i + 1]\<rparr>) else None
           | Some (DeqRet j v, q) \<Rightarrow> if j = i \<and> \<not> is_producer P i then
               Some (PopRet i v, s\<lparr>tqueue := q, tphase := (tphase s)[i := TLoop], tk := (tk s)[i := tk s ! i + 1],
                 tacc := (tacc s)[i := tacc s ! i + v]\<rparr>) else None
           | _ \<Rightarrow> None)
      | TDone \<Rightarrow> None)"

fun tput_script :: "u32 \<Rightarrow> u32 \<Rightarrow> u64 \<Rightarrow> tid list \<Rightarrow> u64 ring_sys tput \<Rightarrow> (qev list \<times> u64 ring_sys tput) option" where
  "tput_script P C N [] s = Some ([], s)"
| "tput_script P C N (i # is) s =
     (case tput_do P C N i s of
        None \<Rightarrow> None
      | Some (e, s1) \<Rightarrow> map_option (\<lambda>(tr, s2). (e # tr, s2)) (tput_script P C N is s1))"

lemma perform_AstraQ:
  "perform id id (ActEnq i v) q = Some (e, q') \<Longrightarrow> AstraQ_step q (Push i v) q'"
  "perform id id (ActDeq i) q = Some (e, q') \<Longrightarrow> AstraQ_step q (Pop i) q'"
  "perform id id x q = Some (e, q') \<Longrightarrow> AstraQ_event e = Some l \<Longrightarrow> AstraQ_step q l q'"
proof -
  show "perform id id x q = Some (e, q') \<Longrightarrow> AstraQ_event e = Some l \<Longrightarrow> AstraQ_step q l q'" for x l
    by (rule astra_q [OF perform_step])
  from this [of "ActEnq i v"] show "perform id id (ActEnq i v) q = Some (e, q') \<Longrightarrow> AstraQ_step q (Push i v) q'"
    by (auto split: if_splits prod.splits)
  from \<open>perform id id (ActDeq i) q = Some (e, q') \<Longrightarrow> AstraQ_event e = Some (Pop i) \<Longrightarrow> AstraQ_step q (Pop i) q'\<close>
  show "perform id id (ActDeq i) q = Some (e, q') \<Longrightarrow> AstraQ_step q (Pop i) q'"
    by (auto split: if_splits prod.splits)
qed

lemma tput_do_step:
  assumes "tput_do P C N i s = Some (e, s')"
  shows "throughput_step AstraQ_step P C N s e s'"
proof -
  have i: "i < length (tphase s)" using assms by (auto simp: tput_do_def split: if_splits)
  show ?thesis
  proof (cases "tphase s ! i")
    case TLoop
    then show ?thesis
      using assms i
      by (auto simp: tput_do_def simp del: perform.simps split: if_splits
          intro: tp_push tp_pop tp_producer_done tp_consumer_done perform_AstraQ)
  next
    case TCall
    then show ?thesis
      using assms i
      by (auto simp: tput_do_def simp del: perform.simps split: option.splits ring_ev.splits if_splits
          intro: tp_inside tp_pushed tp_popped dest!: perform_AstraQ(3) [OF _ AstraQ_event.simps(2)]
            perform_AstraQ(3) [OF _ AstraQ_event.simps(4)] perform_AstraQ(3) [OF _ AstraQ_event.simps(5)])
  next
    case TDone
    then show ?thesis using assms i by (simp add: tput_do_def)
  qed
qed

lemma tput_script_run:
  "tput_script P C N is s = Some (tr, s') \<Longrightarrow> lts_run (throughput_step AstraQ_step P C N) s tr s'"
proof (induction "is" arbitrary: s tr)
  case Nil
  then show ?case by (auto intro: lts_run.run_nil)
next
  case (Cons i "is")
  then show ?case by (auto split: option.splits intro: lts_run_cons tput_do_step)
qed

theorem throughput_accounting_witness:
  "\<exists>tr s. lts_run (throughput_step AstraQ_step 1 1 2) (throughput_start 1 1 (AstraQ_start 2 [0, 0])) tr s \<and>
    tsum s = 3 \<and> throughput_check 2 s"
proof -
  let ?is = "[0, 1, 0, 0, 0, 0, 1, 1, 1, 1, 0, 0, 0, 0, 1, 1, 1, 1]"
  have "map_option (\<lambda>(tr, s). (tphase s, tsum s)) (tput_script 1 1 2 ?is (throughput_start 1 1 (AstraQ_start 2 [0, 0]))) =
      Some ([TDone, TDone], 3)"
    by code_simp
  then obtain tr s where r: "tput_script 1 1 2 ?is (throughput_start 1 1 (AstraQ_start 2 [0, 0])) = Some (tr, s)"
    "tphase s = [TDone, TDone]" "tsum s = 3" by (auto simp del: tput_script.simps)
  from tput_script_run [OF r(1)]
  have run: "lts_run (throughput_step AstraQ_step 1 1 2) (throughput_start 1 1 (AstraQ_start 2 [0, 0])) tr s" .
  have "throughput_check 2 s"
    using throughput_accounting [of "[0, 0]" 1 1 2 tr s 0] run r(2) by simp
  with run r(3) show ?thesis by blast
qed

end
