(* ===== verification/Bench_Lock.thy ===== *)
theory Bench_Lock
  imports Bench_Run Spinlock
begin

text \<open>
  The lock measurement of bench/SpinlockComparisonBench.cpp on the locks that the repository itself
  implements: \<open>Spinlock\<close> with its default and with a short back-off, and the test-and-test-and-set
  lock \<open>TTAS\<close>. They are the machine of theory \<open>Spinlock\<close> with different waiting strategies.
\<close>

section \<open>The locks\<close>

definition AstraDefault :: "bool \<Rightarrow> nat \<Rightarrow> nat option" where
  "AstraDefault = spin_wait (waitTime new_Spinlock)"

definition AstraShortWait :: "bool \<Rightarrow> nat \<Rightarrow> nat option" where
  "AstraShortWait = spin_wait (waitTime (new_Spinlock_wait 16))"

text \<open>After a failed exchange \<open>TTAS\<close> reads the flag until it looks free.\<close>

definition TTAS :: "bool \<Rightarrow> nat \<Rightarrow> nat option" where
  "TTAS flag k = (if flag then Some k else None)"

section \<open>The critical section\<close>

record Shared =
  counter :: u64
  handoffs :: u64
  owner :: u32

definition new_Shared :: Shared where
  "new_Shared = \<lparr>counter = 0, handoffs = 0, owner = - 1\<rparr>"

text \<open>
  The points of the critical section: the increments of the plain counters are a load and a store;
  \<open>work\<close> is a loop over a local variable.
\<close>

datatype cs_point = CsLoad | CsStore u64 | CsOwner | CsSetOwner | CsHandLoad | CsHandStore u64 | CsWork nat

fun runLock_cs :: "u32 \<Rightarrow> tid \<Rightarrow> cs_point \<Rightarrow> Shared \<Rightarrow> cs_point option \<times> Shared" where
  "runLock_cs csIters i CsLoad d = (Some (CsStore (counter d)), d)"
| "runLock_cs csIters i (CsStore x) d = (Some CsOwner, d\<lparr>counter := x + 1\<rparr>)"
| "runLock_cs csIters i CsOwner d = (Some (if owner d \<noteq> of_nat i then CsSetOwner else CsWork 0), d)"
| "runLock_cs csIters i CsSetOwner d = (Some CsHandLoad, d\<lparr>owner := of_nat i\<rparr>)"
| "runLock_cs csIters i CsHandLoad d = (Some (CsHandStore (handoffs d)), d)"
| "runLock_cs csIters i (CsHandStore h) d = (Some (CsWork 0), d\<lparr>handoffs := h + 1\<rparr>)"
| "runLock_cs csIters i (CsWork k) d = (if k < unat csIters then Some (CsWork (Suc k)) else None, d)"

section \<open>The measurement\<close>

text \<open>
  A thread of \<open>runLock\<close> reads the time-stamp counter, and while a later reading is below its end it
  goes through the lock and counts; then it stores its count. The readings are arbitrary.
\<close>

datatype lphase = LStart | LLoop | LIn | LDone

record lbench =
  lsys :: "(cs_point, Shared) lock_sys"
  lend :: "u64 list"
  lcount :: "u64 list"
  lphase :: "lphase list"
  per :: "u64 list"

definition runLock_start :: "u32 \<Rightarrow> lbench" where
  "runLock_start threads =
     \<lparr>lsys = lock_start (unat threads) new_Shared, lend = replicate (unat threads) 0, lcount = replicate (unat threads) 0,
      lphase = replicate (unat threads) LStart, per = replicate (unat threads) 0\<rparr>"

fun inner_event :: "lock_ev \<Rightarrow> bool" where
  "inner_event (Acquire i) = True"
| "inner_event (LTau i) = True"
| "inner_event _ = False"

inductive runLock_step :: "(bool \<Rightarrow> nat \<Rightarrow> nat option) \<Rightarrow> u32 \<Rightarrow> u64 \<Rightarrow> lbench \<Rightarrow> lock_ev \<Rightarrow> lbench \<Rightarrow> bool"
  for wait csIters durCycles where
  rl_begin: "i < length (lphase s) \<Longrightarrow> lphase s ! i = LStart \<Longrightarrow>
    runLock_step wait csIters durCycles s (LTau i)
      (s\<lparr>lend := (lend s)[i := tsc + durCycles], lphase := (lphase s)[i := LLoop]\<rparr>)"
| rl_lock: "i < length (lphase s) \<Longrightarrow> lphase s ! i = LLoop \<Longrightarrow> tsc < lend s ! i \<Longrightarrow>
    lock_step False wait (runLock_cs csIters) CsLoad (lsys s) (LockCall i) l \<Longrightarrow>
    runLock_step wait csIters durCycles s (LockCall i) (s\<lparr>lsys := l, lphase := (lphase s)[i := LIn]\<rparr>)"
| rl_inside: "lock_step False wait (runLock_cs csIters) CsLoad (lsys s) e l \<Longrightarrow> inner_event e \<Longrightarrow>
    runLock_step wait csIters durCycles s e (s\<lparr>lsys := l\<rparr>)"
| rl_unlocked: "i < length (lphase s) \<Longrightarrow> lphase s ! i = LIn \<Longrightarrow>
    lock_step False wait (runLock_cs csIters) CsLoad (lsys s) (Release i) l \<Longrightarrow>
    runLock_step wait csIters durCycles s (Release i)
      (s\<lparr>lsys := l, lphase := (lphase s)[i := LLoop], lcount := (lcount s)[i := lcount s ! i + 1]\<rparr>)"
| rl_done: "i < length (lphase s) \<Longrightarrow> lphase s ! i = LLoop \<Longrightarrow> \<not> tsc < lend s ! i \<Longrightarrow>
    runLock_step wait csIters durCycles s (LTau i)
      (s\<lparr>per := (per s)[i := lcount s ! i], lphase := (lphase s)[i := LDone]\<rparr>)"

text \<open>The loop over the counts after the run: total, least and greatest count; and the check.\<close>

definition lock_totals :: "u64 list \<Rightarrow> u64 \<times> u64 \<times> u64" where
  "lock_totals ps = foldl (\<lambda>(total, lo, hi) p. (total + p, min lo p, max hi p)) (0, - 1, 0) ps"

definition runLock_check :: "lbench \<Rightarrow> bool" where
  "runLock_check s \<longleftrightarrow> counter (ldata (lsys s)) = fst (lock_totals (per s))"

section \<open>Accounting\<close>

text \<open>The effect of one critical section, and of a sequence of them.\<close>

definition cs_effect :: "tid \<Rightarrow> Shared \<Rightarrow> Shared" where
  "cs_effect i d = \<lparr>counter = counter d + 1, handoffs = (if owner d \<noteq> of_nat i then handoffs d + 1 else handoffs d),
     owner = of_nat i\<rparr>"

fun cs_so_far :: "tid \<Rightarrow> Shared \<Rightarrow> cs_point \<Rightarrow> Shared \<Rightarrow> bool" where
  "cs_so_far i d CsLoad d1 = (d1 = d)"
| "cs_so_far i d (CsStore x) d1 = (d1 = d \<and> x = counter d)"
| "cs_so_far i d CsOwner d1 = (d1 = d\<lparr>counter := counter d + 1\<rparr>)"
| "cs_so_far i d CsSetOwner d1 = (d1 = d\<lparr>counter := counter d + 1\<rparr> \<and> owner d \<noteq> of_nat i)"
| "cs_so_far i d CsHandLoad d1 = (d1 = d\<lparr>counter := counter d + 1, owner := of_nat i\<rparr> \<and> owner d \<noteq> of_nat i)"
| "cs_so_far i d (CsHandStore h) d1 =
     (d1 = d\<lparr>counter := counter d + 1, owner := of_nat i\<rparr> \<and> owner d \<noteq> of_nat i \<and> h = handoffs d)"
| "cs_so_far i d (CsWork k) d1 = (d1 = cs_effect i d)"

lemma section_so_far: "section_at (runLock_cs it) CsLoad i d k d1 \<Longrightarrow> cs_so_far i d k d1"
proof (induction rule: section_at.induct)
  case (section_step i d k d1 k' d2)
  then show ?case by (cases k; cases d) (auto simp: cs_effect_def split: if_splits)
qed simp

lemma section_effect:
  "section_at (runLock_cs it) CsLoad i d k d1 \<Longrightarrow> runLock_cs it i k d1 = (None, d2) \<Longrightarrow> d2 = cs_effect i d"
  by (drule section_so_far) (cases k; auto split: if_splits)

lemma serial_effect: "serial (runLock_cs it) CsLoad d0 is d \<Longrightarrow> d = foldl (\<lambda>d i. cs_effect i d) d0 is"
  by (induction rule: serial.induct) (auto dest: section_effect)

lemma effect_counter: "counter (foldl (\<lambda>d i. cs_effect i d) d0 is) = counter d0 + of_nat (length is)"
  by (induction "is" arbitrary: d0) (auto simp: cs_effect_def)

text \<open>The number of times the lock passed to another thread.\<close>

fun owner_changes :: "u32 \<Rightarrow> tid list \<Rightarrow> nat" where
  "owner_changes w [] = 0"
| "owner_changes w (i # is) = (if w \<noteq> of_nat i then 1 else 0) + owner_changes (of_nat i) is"

lemma effect_handoffs:
  "handoffs (foldl (\<lambda>d i. cs_effect i d) d0 is) = handoffs d0 + of_nat (owner_changes (owner d0) is)"
  by (induction "is" arbitrary: d0) (auto simp: cs_effect_def)

text \<open>
  Thread \<open>i\<close> has counted its releases; while it holds the lock it has acquired it once more.
\<close>

definition lbench_inv :: "nat \<Rightarrow> lock_ev list \<Rightarrow> lbench \<Rightarrow> bool" where
  "lbench_inv n tr s \<longleftrightarrow>
     length (lpcs (lsys s)) = n \<and> length (lend s) = n \<and> length (lcount s) = n \<and> length (lphase s) = n \<and> length (per s) = n \<and>
     set (acquirers tr) \<subseteq> {..<n} \<and>
     (\<forall>i < n. (lphase s ! i = LIn \<longleftrightarrow> lpcs (lsys s) ! i \<noteq> LIdle) \<and> (lphase s ! i = LDone \<longrightarrow> per s ! i = lcount s ! i) \<and>
        lcount s ! i + (if holds (lpcs (lsys s) ! i) then 1 else 0) = of_nat (count_list (acquirers tr) i))"

lemma lbench_inv_lock:
  assumes "lbench_inv n tr s" "lock_step False wait cs k0 (lsys s) e l" "inner_event e"
  shows "lbench_inv n (tr @ [e]) (s\<lparr>lsys := l\<rparr>)"
  using assms(2)
proof cases
  case (exchange_won i)
  have "lpcs l ! j \<noteq> LIdle \<longleftrightarrow> lpcs (lsys s) ! j \<noteq> LIdle" for j using exchange_won by (cases "i = j") auto
  then show ?thesis using assms(1) exchange_won by (auto simp: lbench_inv_def nth_list_update)
qed (use assms(1,3) in \<open>auto simp: lbench_inv_def nth_list_update\<close>)

lemma lbench_inv_step:
  assumes "lbench_inv n tr s" "runLock_step wait it dur s e s'"
  shows "lbench_inv n (tr @ [e]) s'"
  using assms(2)
proof cases
  case (rl_begin i tsc)
  then show ?thesis using assms(1) by (auto simp: lbench_inv_def nth_list_update)
next
  case (rl_lock i tsc l)
  from rl_lock(6) show ?thesis using assms(1) rl_lock(1-5)
    by cases (auto simp: lbench_inv_def nth_list_update)
next
  case (rl_inside l)
  then show ?thesis using lbench_inv_lock [OF assms(1)] by simp
next
  case (rl_unlocked i l)
  from rl_unlocked(5) show ?thesis using assms(1) rl_unlocked(1-4)
    by cases (auto simp: lbench_inv_def nth_list_update)
next
  case (rl_done i tsc)
  then show ?thesis using assms(1) by (auto simp: lbench_inv_def nth_list_update)
qed

lemma lbench_inv_start: "lbench_inv (unat n) [] (runLock_start n)"
  by (simp add: lbench_inv_def runLock_start_def lock_start_def)

interpretation lbenchm: lts_invariant "runLock_step wait it dur" "\<lambda>s. s = runLock_start n" "lbench_inv (unat n)"
  by unfold_locales (auto intro: lbench_inv_start lbench_inv_step)

text \<open>The lock inside a run of the benchmark has a run of its own, without stray unlocks.\<close>

lemma runLock_lock_run:
  "lts_run (runLock_step wait it dur) s0 tr s \<Longrightarrow>
    \<exists>ltr. lts_run (lock_step False wait (runLock_cs it) CsLoad) (lsys s0) ltr (lsys s) \<and>
      acquirers ltr = acquirers tr \<and> \<not> list_ex is_stray ltr"
proof (induction rule: lts_run.induct)
  case run_nil
  then show ?case by (intro exI [of _ "[]"]) (auto intro: lts_run.run_nil)
next
  case (run_snoc tr s e s')
  then obtain ltr where l: "lts_run (lock_step False wait (runLock_cs it) CsLoad) (lsys s0) ltr (lsys s)"
    "acquirers ltr = acquirers tr" "\<not> list_ex is_stray ltr" by blast
  from run_snoc.hyps(2) have "lock_step False wait (runLock_cs it) CsLoad (lsys s) e (lsys s') \<and> \<not> is_stray e \<or>
      lsys s' = lsys s \<and> acquire_of e = []"
    by cases (auto elim: inner_event.elims)
  then show ?case
  proof
    assume e: "lock_step False wait (runLock_cs it) CsLoad (lsys s) e (lsys s') \<and> \<not> is_stray e"
    then have "lts_run (lock_step False wait (runLock_cs it) CsLoad) (lsys s0) (ltr @ [e]) (lsys s')"
      using lts_run.run_snoc [OF l(1)] by blast
    with e l(2,3) show ?thesis by (intro exI [of _ "ltr @ [e]"]) simp
  next
    assume "lsys s' = lsys s \<and> acquire_of e = []"
    with l show ?thesis by (intro exI [of _ ltr]) simp
  qed
qed

lemma lock_totals_sum: "fst (lock_totals ps) = sum_list ps"
proof -
  have "fst (foldl (\<lambda>(total, lo, hi) p. (total + p, min lo p, max hi p)) a ps) = fst a + sum_list ps" for a
    by (induction ps arbitrary: a) (auto simp: algebra_simps split: prod.splits)
  from this [of "(0, - 1, 0)"] show ?thesis by (simp add: lock_totals_def)
qed

lemma sum_count_list: "set xs \<subseteq> {..<n :: nat} \<Longrightarrow> (\<Sum>i<n. count_list xs i) = length xs"
proof (induction xs)
  case (Cons x xs)
  have "(\<Sum>i<n. count_list (x # xs) i) = (\<Sum>i<n. (if i = x then 1 else 0) + count_list xs i)"
    by (rule sum.cong) auto
  also have "\<dots> = 1 + (\<Sum>i<n. count_list xs i)" using Cons.prems by (simp add: sum.distrib)
  finally show ?case using Cons by simp
qed simp

text \<open>Lock accounting. When all threads of a \<open>runLock\<close> have finished, for any number of threads, any waiting strategy and
  any readings of the time-stamp counter, the check on the plain counter succeeds, and \<open>handoffs\<close> is
  the number of times the lock passed to another thread than before (modulo \<open>2 ^ 64\<close>, like the
  counters).\<close>

theorem runLock_accounting:
  assumes "lts_run (runLock_step wait csIters durCycles) (runLock_start threads) tr s"
    and "set (lphase s) \<subseteq> {LDone}"
  shows "runLock_check s \<and> handoffs (ldata (lsys s)) = of_nat (owner_changes (- 1) (acquirers tr))"
proof -
  let ?n = "unat threads"
  have inv: "lbench_inv ?n tr s" using lbenchm.inv_run [OF assms(1)] by blast
  have ph: "lphase s ! i = LDone" if "i < ?n" for i
    using inv that assms(2) by (auto simp: lbench_inv_def intro: nth_of_singleton)
  then have idle: "lpcs (lsys s) ! i = LIdle" if "i < ?n" for i using inv that by (force simp: lbench_inv_def)
  have cnt: "per s ! i = of_nat (count_list (acquirers tr) i)" if "i < ?n" for i
    using inv that ph [OF that] idle [OF that] by (auto simp: lbench_inv_def)
  from runLock_lock_run [OF assms(1)] obtain ltr where
    ltr: "lts_run (lock_step False wait (runLock_cs csIters) CsLoad) (lock_start ?n new_Shared) ltr (lsys s)"
      "acquirers ltr = acquirers tr" "\<not> list_ex is_stray ltr"
    by (auto simp: runLock_start_def)
  have "serial (runLock_cs csIters) CsLoad new_Shared (acquirers tr) (ldata (lsys s))"
  proof (cases rule: lock_reachable [OF ltr(1,3)])
    case (2 i)
    then show ?thesis using idle inv by (auto simp: held_ok_def lbench_inv_def)
  qed (simp add: free_ok_def ltr(2))
  then have d: "ldata (lsys s) = foldl (\<lambda>d i. cs_effect i d) new_Shared (acquirers tr)" by (rule serial_effect)
  have "per s = map (\<lambda>i. of_nat (count_list (acquirers tr) i)) [0..<?n]"
    using inv cnt by (intro nth_equalityI) (auto simp: lbench_inv_def)
  then have "sum_list (per s) = of_nat (\<Sum>i<?n. count_list (acquirers tr) i)"
    by (simp add: interv_sum_list_conv_sum_set_nat atLeast0LessThan)
  also have "\<dots> = of_nat (length (acquirers tr))" using inv by (simp add: sum_count_list lbench_inv_def del: of_nat_sum)
  finally show ?thesis
    by (simp add: runLock_check_def lock_totals_sum d effect_counter effect_handoffs) (simp add: new_Shared_def)
qed


text \<open>Runs of the benchmark by a schedule of the threads; \<open>tscs\<close> are the readings of the counter.\<close>

definition runLock_do :: "(bool \<Rightarrow> nat \<Rightarrow> nat option) \<Rightarrow> u32 \<Rightarrow> u64 \<Rightarrow> tid \<Rightarrow> u64 \<Rightarrow> lbench \<Rightarrow> (lock_ev \<times> lbench) option" where
  "runLock_do wait it dur i tsc s =
     (if \<not> (i < length (lphase s) \<and> i < length (lpcs (lsys s))) then None
      else case lphase s ! i of
        LStart \<Rightarrow> Some (LTau i, s\<lparr>lend := (lend s)[i := tsc + dur], lphase := (lphase s)[i := LLoop]\<rparr>)
      | LLoop \<Rightarrow>
          if tsc < lend s ! i then
            (case lock_do wait (runLock_cs it) CsLoad i (lsys s) of
               (LockCall j, l) \<Rightarrow> if j = i then Some (LockCall i, s\<lparr>lsys := l, lphase := (lphase s)[i := LIn]\<rparr>) else None
             | _ \<Rightarrow> None)
          else Some (LTau i, s\<lparr>per := (per s)[i := lcount s ! i], lphase := (lphase s)[i := LDone]\<rparr>)
      | LIn \<Rightarrow>
          (case lock_do wait (runLock_cs it) CsLoad i (lsys s) of
             (Release j, l) \<Rightarrow> if j = i then
               Some (Release i, s\<lparr>lsys := l, lphase := (lphase s)[i := LLoop], lcount := (lcount s)[i := lcount s ! i + 1]\<rparr>) else None
           | (Acquire j, l) \<Rightarrow> Some (Acquire j, s\<lparr>lsys := l\<rparr>)
           | (LTau j, l) \<Rightarrow> Some (LTau j, s\<lparr>lsys := l\<rparr>)
           | _ \<Rightarrow> None)
      | LDone \<Rightarrow> None)"

fun runLock_script :: "(bool \<Rightarrow> nat \<Rightarrow> nat option) \<Rightarrow> u32 \<Rightarrow> u64 \<Rightarrow> (tid \<times> u64) list \<Rightarrow> lbench \<Rightarrow> (lock_ev list \<times> lbench) option" where
  "runLock_script wait it dur [] s = Some ([], s)"
| "runLock_script wait it dur ((i, tsc) # xs) s =
     (case runLock_do wait it dur i tsc s of
        None \<Rightarrow> None
      | Some (e, s1) \<Rightarrow> map_option (\<lambda>(tr, s2). (e # tr, s2)) (runLock_script wait it dur xs s1))"

lemma runLock_do_step:
  assumes "runLock_do wait it dur i tsc s = Some (e, s')"
  shows "runLock_step wait it dur s e s'"
proof -
  have i: "i < length (lphase s)" "i < length (lpcs (lsys s))"
    using assms by (auto simp: runLock_do_def split: if_splits)
  obtain le l where ld: "lock_do wait (runLock_cs it) CsLoad i (lsys s) = (le, l)" by (cases "lock_do wait (runLock_cs it) CsLoad i (lsys s)")
  note st = lock_do_step [where weak = False, OF i(2) ld]
  show ?thesis
    using assms i st
    by (cases "lphase s ! i"; cases le)
      (auto simp: runLock_do_def ld split: if_splits intro: rl_begin rl_lock rl_inside rl_unlocked rl_done)
qed

lemma runLock_script_run:
  "runLock_script wait it dur xs s = Some (tr, s') \<Longrightarrow> lts_run (runLock_step wait it dur) s tr s'"
proof (induction xs arbitrary: s tr)
  case Nil
  then show ?case by (auto intro: lts_run.run_nil)
next
  case (Cons x xs)
  then show ?case by (cases x) (auto split: option.splits intro: lts_run_cons runLock_do_step)
qed

theorem runLock_accounting_witness:
  "\<exists>tr s. lts_run (runLock_step TTAS 0 10) (runLock_start 2) tr s \<and> runLock_check s \<and> handoffs (ldata (lsys s)) = 2"
proof -
  let ?xs = "[(0, 0), (1, 0), (0, 1), (1, 1), (0, 0), (1, 0), (1, 0), (0, 0), (0, 0), (0, 0), (0, 0), (0, 0), (0, 0), (0, 0),
    (0, 0), (0, 10), (1, 0), (1, 0), (1, 0), (1, 0), (1, 0), (1, 0), (1, 0), (1, 0), (1, 0), (1, 0), (1, 10)] :: (nat \<times> u64) list"
  have "map_option (\<lambda>(tr, s). (lphase s, acquirers tr)) (runLock_script TTAS 0 10 ?xs (runLock_start 2)) =
      Some ([LDone, LDone], [0, 1])"
    by code_simp
  then obtain tr s where r: "runLock_script TTAS 0 10 ?xs (runLock_start 2) = Some (tr, s)"
    "lphase s = [LDone, LDone]" "acquirers tr = [0, 1]" by (auto simp del: runLock_script.simps)
  note run = runLock_script_run [OF r(1)]
  show ?thesis using runLock_accounting [OF run] run r(2,3) by auto
qed

end
