(* ===== verification/Bench_Index.thy ===== *)
theory Bench_Index
  imports Bench_Run Index_Pool
begin

text \<open>
  The free-list measurement of bench/IndexPoolComparisonBench.cpp on the pools that the repository
  itself implements: \<open>ThreadSafeIndexPool\<close> and the vector under a mutex. A pool is a step relation
  whose events are the calls and returns of \<open>get\<close> and \<open>put\<close>; the body of \<open>run\<close> gets an index,
  increments the plain counter of that index and puts the index back.
\<close>

section \<open>Pools as the benchmark sees them\<close>

datatype ipev = Get tid | Got tid i32 | Put tid i32 | PutRet tid | ITau

text \<open>The indices handed out and not put back; \<open>None\<close> when an index is put back that nobody has.\<close>

fun out_event :: "i32 multiset \<Rightarrow> ipev \<Rightarrow> i32 multiset option" where
  "out_event h (Got i v) = Some (add_mset v h)"
| "out_event h (Put i v) = (if v \<in># h then Some (h - {#v#}) else None)"
| "out_event h _ = Some h"

definition outstanding :: "ipev list \<Rightarrow> i32 multiset option" where
  "outstanding tr = foldl (\<lambda>ho e. Option.bind ho (\<lambda>h. out_event h e)) (Some {#}) tr"

lemma outstanding_simps [simp]:
  "outstanding [] = Some {#}" "outstanding (tr @ [e]) = Option.bind (outstanding tr) (\<lambda>h. out_event h e)"
  by (simp_all add: outstanding_def)

text \<open>\<open>AstraPool\<close>: \<open>get\<close> is \<open>getIndex\<close>, a \<open>dequeue\<close>, and \<open>put\<close> is \<open>returnIndex\<close>, an \<open>enqueue\<close>.\<close>

fun AstraPool_event :: "i32 ring_ev \<Rightarrow> ipev option" where
  "AstraPool_event (DeqCall i) = Some (Get i)"
| "AstraPool_event (DeqRet i v) = Some (Got i v)"
| "AstraPool_event (EnqCall i v) = Some (Put i v)"
| "AstraPool_event (EnqRet i) = Some (PutRet i)"
| "AstraPool_event (Tau i) = Some ITau"
| "AstraPool_event _ = None"

inductive AstraPool_step :: "i32 ring_sys \<Rightarrow> ipev \<Rightarrow> i32 ring_sys \<Rightarrow> bool" where
  astra_pool: "ring_step id id q e q' \<Longrightarrow> AstraPool_event e = Some l \<Longrightarrow> AstraPool_step q l q'"

text \<open>A ring that its constructing thread has filled with the indices, as the constructor does.\<close>

definition AstraPool_filled :: "nat \<Rightarrow> i32 ring_sys \<Rightarrow> bool" where
  "AstraPool_filled sz q \<longleftrightarrow>
     (\<exists>m batch ds init. ring_size_ok (length ds) \<and> length ds = sz \<and> m < 2 ^ 32 \<and>
        lts_run (ring_step id id) (ring_start m batch ds) init q \<and>
        enq_vals init = index_list sz \<and> deq_vals init = [] \<and> set (pcs q) \<subseteq> {Idle})"

text \<open>\<open>MutexVecPool\<close>: a section under the \<open>std::lock_guard\<close> is one step.\<close>

datatype mvpc = MvIdle | MvGet | MvPut i32

record MutexVecPool =
  mfree :: "i32 list"
  mvpcs :: "mvpc list"

definition MutexVecPool_start :: "nat \<Rightarrow> nat \<Rightarrow> MutexVecPool" where
  "MutexVecPool_start sz n = \<lparr>mfree = index_list sz, mvpcs = replicate n MvIdle\<rparr>"

inductive MutexVecPool_step :: "MutexVecPool \<Rightarrow> ipev \<Rightarrow> MutexVecPool \<Rightarrow> bool" where
  mv_get: "i < length (mvpcs q) \<Longrightarrow> mvpcs q ! i = MvIdle \<Longrightarrow>
    MutexVecPool_step q (Get i) (q\<lparr>mvpcs := (mvpcs q)[i := MvGet]\<rparr>)"
| mv_pop_back: "i < length (mvpcs q) \<Longrightarrow> mvpcs q ! i = MvGet \<Longrightarrow> mfree q \<noteq> [] \<Longrightarrow>
    MutexVecPool_step q (Got i (last (mfree q))) (q\<lparr>mfree := butlast (mfree q), mvpcs := (mvpcs q)[i := MvIdle]\<rparr>)"
| mv_empty: "i < length (mvpcs q) \<Longrightarrow> mvpcs q ! i = MvGet \<Longrightarrow> mfree q = [] \<Longrightarrow> MutexVecPool_step q ITau q"
| mv_put: "i < length (mvpcs q) \<Longrightarrow> mvpcs q ! i = MvIdle \<Longrightarrow>
    MutexVecPool_step q (Put i v) (q\<lparr>mvpcs := (mvpcs q)[i := MvPut v]\<rparr>)"
| mv_push_back: "i < length (mvpcs q) \<Longrightarrow> mvpcs q ! i = MvPut v \<Longrightarrow>
    MutexVecPool_step q (PutRet i) (q\<lparr>mfree := mfree q @ [v], mvpcs := (mvpcs q)[i := MvIdle]\<rparr>)"

section \<open>The measurement\<close>

text \<open>
  The increment of \<open>data[idx].uses\<close> is a load and a store. An index outside the array is never used:
  the load has the range as its guard, and the invariant below shows that it always holds.
\<close>

datatype iphase = ILoop | IGet | ILoad i32 | IStore i32 u64 | IPut i32 | IPutting | IDone

record 'p ibench =
  ipool :: 'p
  idata :: "u64 list"
  ik :: "u64 list"
  iphase :: "iphase list"

definition index_run_start :: "u32 \<Rightarrow> nat \<Rightarrow> 'p \<Rightarrow> 'p ibench" where
  "index_run_start threads sz p =
     \<lparr>ipool = p, idata = replicate sz 0, ik = replicate (unat threads) 0, iphase = replicate (unat threads) ILoop\<rparr>"

definition perThread :: "u32 \<Rightarrow> u64 \<Rightarrow> u64" where
  "perThread threads tot = tot div ucast threads"

definition slot_of :: "i32 \<Rightarrow> nat" where
  "slot_of idx = nat (sint idx)"

inductive index_run_step :: "('p \<Rightarrow> ipev \<Rightarrow> 'p \<Rightarrow> bool) \<Rightarrow> u32 \<Rightarrow> u64 \<Rightarrow> 'p ibench \<Rightarrow> ipev \<Rightarrow> 'p ibench \<Rightarrow> bool"
  for pstep threads tot where
  ir_get: "i < length (iphase s) \<Longrightarrow> iphase s ! i = ILoop \<Longrightarrow> ik s ! i < perThread threads tot \<Longrightarrow>
    pstep (ipool s) (Get i) p \<Longrightarrow>
    index_run_step pstep threads tot s (Get i) (s\<lparr>ipool := p, iphase := (iphase s)[i := IGet]\<rparr>)"
| ir_got: "i < length (iphase s) \<Longrightarrow> iphase s ! i = IGet \<Longrightarrow> pstep (ipool s) (Got i idx) p \<Longrightarrow>
    index_run_step pstep threads tot s (Got i idx) (s\<lparr>ipool := p, iphase := (iphase s)[i := ILoad idx]\<rparr>)"
| ir_load: "i < length (iphase s) \<Longrightarrow> iphase s ! i = ILoad idx \<Longrightarrow> 0 \<le> sint idx \<Longrightarrow> slot_of idx < length (idata s) \<Longrightarrow>
    index_run_step pstep threads tot s ITau (s\<lparr>iphase := (iphase s)[i := IStore idx (idata s ! slot_of idx)]\<rparr>)"
| ir_store: "i < length (iphase s) \<Longrightarrow> iphase s ! i = IStore idx x \<Longrightarrow>
    index_run_step pstep threads tot s ITau
      (s\<lparr>idata := (idata s)[slot_of idx := x + 1], iphase := (iphase s)[i := IPut idx]\<rparr>)"
| ir_put: "i < length (iphase s) \<Longrightarrow> iphase s ! i = IPut idx \<Longrightarrow> pstep (ipool s) (Put i idx) p \<Longrightarrow>
    index_run_step pstep threads tot s (Put i idx) (s\<lparr>ipool := p, iphase := (iphase s)[i := IPutting]\<rparr>)"
| ir_put_ret: "i < length (iphase s) \<Longrightarrow> iphase s ! i = IPutting \<Longrightarrow> pstep (ipool s) (PutRet i) p \<Longrightarrow>
    index_run_step pstep threads tot s (PutRet i)
      (s\<lparr>ipool := p, iphase := (iphase s)[i := ILoop], ik := (ik s)[i := ik s ! i + 1]\<rparr>)"
| ir_inside: "pstep (ipool s) ITau p \<Longrightarrow> index_run_step pstep threads tot s ITau (s\<lparr>ipool := p\<rparr>)"
| ir_done: "i < length (iphase s) \<Longrightarrow> iphase s ! i = ILoop \<Longrightarrow> \<not> ik s ! i < perThread threads tot \<Longrightarrow>
    index_run_step pstep threads tot s ITau (s\<lparr>iphase := (iphase s)[i := IDone]\<rparr>)"

definition index_run_check :: "u32 \<Rightarrow> u64 \<Rightarrow> 'p ibench \<Rightarrow> bool" where
  "index_run_check threads tot s \<longleftrightarrow> foldl (+) 0 (idata s) = perThread threads tot * ucast threads"

section \<open>Invariant\<close>

fun holding :: "iphase \<Rightarrow> i32 multiset" where
  "holding (ILoad v) = {#v#}"
| "holding (IStore v x) = {#v#}"
| "holding (IPut v) = {#v#}"
| "holding _ = {#}"

fun counted :: "iphase \<Rightarrow> u64" where
  "counted (IPut v) = 1"
| "counted IPutting = 1"
| "counted _ = 0"

text \<open>
  The indices that are out are those the threads hold, each thread that is about to store has loaded the
  current value, and the counters add up to the completed increments.
\<close>

definition ibench_inv :: "u32 \<Rightarrow> u64 \<Rightarrow> ipev list \<Rightarrow> 'p ibench \<Rightarrow> bool" where
  "ibench_inv threads tot tr s \<longleftrightarrow>
     length (ik s) = unat threads \<and> length (iphase s) = unat threads \<and>
     outstanding tr = Some (sum_list (map holding (iphase s))) \<and>
     (\<forall>i v x. i < unat threads \<and> iphase s ! i = IStore v x \<longrightarrow> slot_of v < length (idata s) \<and> x = idata s ! slot_of v) \<and>
     sum_list (idata s) = sum_list (ik s) + sum_list (map counted (iphase s)) \<and>
     (\<forall>i < unat threads. ik s ! i \<le> perThread threads tot \<and>
        (iphase s ! i = IDone \<longrightarrow> ik s ! i = perThread threads tot) \<and>
        (iphase s ! i \<notin> {ILoop, IDone} \<longrightarrow> ik s ! i < perThread threads tot))"

lemma sum_list_update_word:
  fixes xs :: "u64 list"
  shows "k < length xs \<Longrightarrow> sum_list (xs[k := w]) + xs ! k = sum_list xs + w"
  using sum_list_map_update [of k xs "\<lambda>x. x" w] by simp

lemma balance:
  fixes D D' K K' C C' p k c q :: u64
  assumes "C' = C + p - c" "K' = K + k - q" "D = K + C" "D' + c + q = D + p + k"
  shows "D' = K' + C'"
proof -
  have "D' = D' + c + q - (c + q)" by simp
  also have "\<dots> = D + p + k - (c + q)" by (simp only: assms(4))
  finally have "D' = D + p + k - (c + q)" .
  then show ?thesis using assms(1-3) by simp
qed

lemma held_twice:
  assumes "i < length ps" "j < length ps" "i \<noteq> j" "v \<in># holding (ps ! i)" "v \<in># holding (ps ! j)"
  shows "1 < count (sum_list (map holding ps)) v"
proof -
  note i = sum_list_map_update [OF assms(1), of holding ILoop]
  have "j < length (ps[i := ILoop])" using assms(2) by simp
  note j = sum_list_map_update [OF this, of holding ILoop]
  have "count (sum_list (map holding (ps[i := ILoop]))) v \<ge> count (holding (ps ! j)) v"
    using arg_cong [OF j, of "\<lambda>M. count M v"] assms(3) by simp
  moreover have "count (sum_list (map holding (ps[i := ILoop]))) v + count (holding (ps ! i)) v = count (sum_list (map holding ps)) v"
    using arg_cong [OF i, of "\<lambda>M. count M v"] by simp
  moreover have "0 < count (holding (ps ! i)) v" "0 < count (holding (ps ! j)) v" using assms(4,5) by auto
  ultimately show ?thesis by linarith
qed

lemma slot_of_inj:
  assumes "0 \<le> sint v" "0 \<le> sint w" "slot_of v = slot_of w"
  shows "v = w"
  using assms by (intro signed_word_eqI) (simp add: slot_of_def eq_nat_nat_iff)

text \<open>A pool for the benchmark: as long as only held indices are put back, the indices that are out are different members of the pool.\<close>

locale index_provider =
  fixes pstep :: "'p \<Rightarrow> ipev \<Rightarrow> 'p \<Rightarrow> bool"
    and pstart :: "nat \<Rightarrow> 'p \<Rightarrow> bool"
  assumes handed_out:
    "pstart n p \<Longrightarrow> lts_run pstep p tr q \<Longrightarrow> outstanding tr = Some h \<Longrightarrow> h \<subseteq># mset (index_list n)"
begin

definition driven :: "nat \<Rightarrow> 'p \<Rightarrow> u32 \<Rightarrow> u64 \<Rightarrow> ipev list \<Rightarrow> 'p ibench \<Rightarrow> bool" where
  "driven n p0 threads tot tr s \<longleftrightarrow>
     ibench_inv threads tot tr s \<and> length (idata s) = n \<and>
     (\<exists>ptr. lts_run pstep p0 ptr (ipool s) \<and> outstanding ptr = outstanding tr)"

lemma driven_unique:
  assumes "driven n p0 threads tot tr s" "pstart n p0" "n < 2 ^ 31" "i < unat threads" "v \<in># holding (iphase s ! i)"
  shows "0 \<le> sint v" "slot_of v < n" "j < unat threads \<Longrightarrow> v \<in># holding (iphase s ! j) \<Longrightarrow> i = j"
proof -
  let ?h = "sum_list (map holding (iphase s))"
  have len: "length (iphase s) = unat threads" using assms(1) by (simp add: driven_def ibench_inv_def)
  have "?h \<subseteq># mset (index_list n)"
    using assms(1) handed_out [OF assms(2)] by (auto simp: driven_def ibench_inv_def)
  note part = index_list_part [OF assms(3) this]
  have "v \<in># ?h"
    using sum_list_map_update [of i "iphase s" holding ILoop] assms(4,5) len by (metis holding.simps(4) add.right_neutral union_iff)
  then have "0 \<le> sint v \<and> sint v < int n" by (rule part(2))
  then show "0 \<le> sint v" "slot_of v < n" by (auto simp: slot_of_def)
  show "i = j" if "j < unat threads" "v \<in># holding (iphase s ! j)"
    using held_twice [of i "iphase s" j v] part(1) [of v] assms(4,5) that len by (metis not_less)
qed

lemma driven_start:
  "driven n p threads tot [] (index_run_start threads n p)"
proof -
  have "sum_list (replicate m 0) = (0 :: u64)" "sum_list (replicate m {#}) = ({#} :: i32 multiset)" for m
    by (induction m) simp_all
  then show ?thesis
    by (auto simp: driven_def ibench_inv_def index_run_start_def intro: lts_run.run_nil exI [of _ "[]"])
qed

text \<open>What a step of thread \<open>i\<close> changes besides its own phase.\<close>

lemma ibench_inv_phase:
  assumes "ibench_inv threads tot tr s" "i < unat threads" "length (idata s') = length (idata s)"
    and "iphase s' = (iphase s)[i := ph]" "ik s' = (ik s)[i := k]"
    and "Option.bind (outstanding tr) (\<lambda>h. out_event h e) = Some (sum_list (map holding (iphase s')))"
    and "\<And>v x. ph = IStore v x \<Longrightarrow> slot_of v < length (idata s) \<and> x = idata s' ! slot_of v"
    and "\<And>j v x. j < unat threads \<Longrightarrow> j \<noteq> i \<Longrightarrow> iphase s ! j = IStore v x \<Longrightarrow> idata s' ! slot_of v = idata s ! slot_of v"
    and "sum_list (idata s') + counted (iphase s ! i) + ik s ! i = sum_list (idata s) + counted ph + k"
    and "k \<le> perThread threads tot" "ph = IDone \<longrightarrow> k = perThread threads tot"
    and "ph \<notin> {ILoop, IDone} \<longrightarrow> k < perThread threads tot"
  shows "ibench_inv threads tot (tr @ [e]) s'"
proof -
  have len: "length (ik s) = unat threads" "length (iphase s) = unat threads" using assms(1) by (auto simp: ibench_inv_def)
  have "sum_list (map counted (iphase s')) = sum_list (map counted (iphase s)) + counted ph - counted (iphase s ! i)"
    using sum_list_map_update [of i "iphase s" counted ph] assms(2,4) len by (simp add: eq_diff_eq)
  moreover have "sum_list (ik s') = sum_list (ik s) + k - ik s ! i"
    using sum_list_update_word [of i "ik s" k] assms(2,5) len by (simp add: eq_diff_eq)
  moreover have "sum_list (idata s) = sum_list (ik s) + sum_list (map counted (iphase s))"
    using assms(1) by (simp add: ibench_inv_def)
  ultimately have "sum_list (idata s') = sum_list (ik s') + sum_list (map counted (iphase s'))"
    using assms(9) by (rule balance)
  then show ?thesis
    using assms by (auto simp: ibench_inv_def nth_list_update)
qed

lemma driven_inv_step:
  assumes d: "driven n p0 threads tot tr s" and st: "pstart n p0" "n < 2 ^ 31"
    and step: "index_run_step pstep threads tot s e s'"
  shows "ibench_inv threads tot (tr @ [e]) s' \<and> length (idata s') = n"
proof -
  have inv: "ibench_inv threads tot tr s" "length (idata s) = n" using d by (auto simp: driven_def)
  have len: "length (ik s) = unat threads" "length (iphase s) = unat threads" using inv(1) by (auto simp: ibench_inv_def)
  have out: "outstanding tr = Some (sum_list (map holding (iphase s)))" using inv(1) by (simp add: ibench_inv_def)
  have k: "ik s ! i \<le> perThread threads tot" "iphase s ! i \<notin> {ILoop, IDone} \<longrightarrow> ik s ! i < perThread threads tot"
    if "i < length (iphase s)" for i using inv(1) that by (auto simp: ibench_inv_def)
  have upd: "sum_list (map holding ((iphase s)[i := ph])) + holding (iphase s ! i) = sum_list (map holding (iphase s)) + holding ph"
    if "i < length (iphase s)" for i ph using that by (rule sum_list_map_update)
  note goal = ibench_inv_phase [OF inv(1)]
  show ?thesis using step
  proof cases
    case (ir_get i p)
    show ?thesis by (intro conjI goal [of i]) (use ir_get len inv out upd [of i IGet] k [of i] in auto)
  next
    case (ir_got i idx p)
    show ?thesis by (intro conjI goal [of i]) (use ir_got len inv out upd [of i "ILoad idx"] k [of i] in auto)
  next
    case (ir_load i idx)
    show ?thesis
      by (intro conjI goal [of i]) (use ir_load len inv out upd [of i "IStore idx (idata s ! slot_of idx)"] k [of i] in auto)
  next
    case (ir_put i idx p)
    have "sum_list (map holding (iphase s)) = add_mset idx (sum_list (map holding ((iphase s)[i := IPutting])))"
      using upd [of i IPutting] ir_put by simp
    then have "out_event (sum_list (map holding (iphase s))) e = Some (sum_list (map holding ((iphase s)[i := IPutting])))"
      using ir_put(1) by (simp only: out_event.simps) simp
    then show ?thesis by (intro conjI goal [of i]) (use ir_put len inv out k [of i] in auto)
  next
    case (ir_put_ret i p)
    show ?thesis
      by (intro conjI goal [where i = i and k = "ik s ! i + 1"]) (use ir_put_ret len inv out upd [of i ILoop] k [of i] inc_le [of "ik s ! i"] in auto)
  next
    case (ir_inside p)
    then show ?thesis using inv out by (auto simp: ibench_inv_def)
  next
    case (ir_done i)
    have kk: "ik s ! i = perThread threads tot" using ir_done k [of i] by auto
    have "sum_list (map counted ((iphase s)[i := IDone])) = sum_list (map counted (iphase s))"
      using sum_list_map_update [of i "iphase s" counted IDone] ir_done by simp
    then show ?thesis using inv ir_done kk upd [of i IDone] len by (auto simp: ibench_inv_def nth_list_update)
  next
    case (ir_store i idx x)
    then have x: "slot_of idx < length (idata s)" "x = idata s ! slot_of idx" using inv(1) len by (auto simp: ibench_inv_def)
    have other: "slot_of v \<noteq> slot_of idx" if "j < unat threads" "j \<noteq> i" "iphase s ! j = IStore v y" for j v y
    proof
      assume eq: "slot_of v = slot_of idx"
      have i: "i < unat threads" "idx \<in># holding (iphase s ! i)" and j: "v \<in># holding (iphase s ! j)"
        using ir_store len that by auto
      have "v = idx" using driven_unique(1) [OF d st that(1) j] driven_unique(1) [OF d st i] eq by (rule slot_of_inj)
      then show False using driven_unique(3) [OF d st i that(1)] j that(2) by simp
    qed
    have same: "idata s' ! slot_of v = idata s ! slot_of v" if "j < unat threads" "j \<noteq> i" "iphase s ! j = IStore v y" for j v y
      using nth_list_update_neq [of "slot_of idx" "slot_of v" "idata s" "x + 1"] other [OF that] ir_store(2) by simp
    have "sum_list (idata s') + counted (iphase s ! i) + ik s ! i = sum_list (idata s) + counted (IPut idx) + ik s ! i"
      using ir_store sum_list_update_word [OF x(1), of "x + 1"] x(2) by (simp add: algebra_simps)
    then show ?thesis
      by (intro conjI goal [of i]) (use ir_store len inv out upd [of i "IPut idx"] k [of i] x same in auto)
  qed
qed

lemma driven_run:
  "lts_run (index_run_step pstep threads tot) (index_run_start threads n p0) tr s \<Longrightarrow> pstart n p0 \<Longrightarrow> n < 2 ^ 31 \<Longrightarrow>
    driven n p0 threads tot tr s"
proof (induction rule: lts_run.induct)
  case run_nil
  show ?case by (rule driven_start)
next
  case (run_snoc tr s e s')
  then have d: "driven n p0 threads tot tr s" by blast
  then obtain ptr where ptr: "lts_run pstep p0 ptr (ipool s)" "outstanding ptr = outstanding tr"
    by (auto simp: driven_def)
  obtain h where h: "outstanding tr = Some h" using d by (auto simp: driven_def ibench_inv_def)
  from run_snoc.hyps(2) have "pstep (ipool s) e (ipool s') \<or> ipool s' = ipool s \<and> e = ITau" by cases auto
  then have "\<exists>ptr'. lts_run pstep p0 ptr' (ipool s') \<and> outstanding ptr' = outstanding (tr @ [e])"
  proof
    assume "pstep (ipool s) e (ipool s')"
    from lts_run.run_snoc [OF ptr(1) this] ptr(2) show ?thesis by (intro exI [of _ "ptr @ [e]"]) simp
  next
    assume "ipool s' = ipool s \<and> e = ITau"
    with ptr h show ?thesis by (intro exI [of _ ptr]) simp
  qed
  with driven_inv_step [OF d run_snoc.prems run_snoc.hyps(2)] show ?case by (simp add: driven_def)
qed

lemma index_accounting:
  assumes "lts_run (index_run_step pstep threads tot) (index_run_start threads n p0) tr s" "pstart n p0" "n < 2 ^ 31"
    and "set (iphase s) \<subseteq> {IDone}"
  shows "index_run_check threads tot s"
proof -
  have inv: "ibench_inv threads tot tr s" using driven_run [OF assms(1-3)] by (simp add: driven_def)
  have len: "length (ik s) = unat threads" "length (iphase s) = unat threads" using inv by (auto simp: ibench_inv_def)
  have "iphase s ! i = IDone" if "i < unat threads" for i using assms(4) len that by (auto intro: nth_of_singleton)
  then have ph: "iphase s = replicate (unat threads) IDone" and ks: "ik s = replicate (unat threads) (perThread threads tot)"
    using len inv by (auto simp: list_eq_iff_nth_eq ibench_inv_def)
  have "sum_list (replicate m 0) = (0 :: u64)" for m by (induction m) simp_all
  then have "sum_list (map counted (iphase s)) = 0" by (simp add: ph)
  moreover have "sum_list (replicate m w) = of_nat m * w" for m and w :: u64 by (induction m) (simp_all add: algebra_simps)
  ultimately have "sum_list (idata s) = of_nat (unat threads) * perThread threads tot"
    using inv by (simp add: ibench_inv_def ks)
  moreover have "foldl (+) a xs = a + sum_list xs" for a and xs :: "u64 list" by (induction xs arbitrary: a) (simp_all add: add.assoc)
  moreover have "(of_nat (unat threads) :: u64) = ucast threads" by simp
  ultimately show ?thesis by (simp add: index_run_check_def mult.commute)
qed

end

section \<open>The pools of the repository\<close>

lemma in_use_snoc: "in_use h (tr @ [e]) = Option.bind (in_use h tr) (\<lambda>h'. in_use h' [e])"
  by (induction h tr rule: in_use.induct) simp_all

lemma AstraPool_ring_run:
  "lts_run AstraPool_step q0 tr q \<Longrightarrow> outstanding tr = Some h \<Longrightarrow>
    \<exists>rtr. lts_run (ring_step id id) q0 rtr q \<and> in_use {#} rtr = Some h"
proof (induction arbitrary: h rule: lts_run.induct)
  case run_nil
  then show ?case by (intro exI [of _ "[]"]) (auto intro: lts_run.run_nil)
next
  case (run_snoc tr q l q')
  then obtain h0 where h0: "outstanding tr = Some h0" "out_event h0 l = Some h" by (auto simp: bind_eq_Some_conv)
  with run_snoc.IH obtain rtr where r: "lts_run (ring_step id id) q0 rtr q" "in_use {#} rtr = Some h0" by blast
  from run_snoc.hyps(2) obtain e where e: "ring_step id id q e q'" "AstraPool_event e = Some l" by cases
  have "in_use h0 [e] = Some h" using e(2) h0(2) by (cases e) (auto split: if_splits)
  with r(2) lts_run.run_snoc [OF r(1) e(1)] show ?case by (intro exI [of _ "rtr @ [e]"]) (simp add: in_use_snoc)
qed

interpretation astrapool: index_provider AstraPool_step AstraPool_filled
proof
  fix n p tr q h
  assume filled: "AstraPool_filled n p" and run: "lts_run AstraPool_step p tr q" "outstanding tr = Some h"
  from AstraPool_ring_run [OF run] obtain rtr where r: "lts_run (ring_step id id) p rtr q" "in_use {#} rtr = Some h" by blast
  from filled obtain m batch ds init where f: "ring_size_ok (length ds)" "length ds = n" "m < 2 ^ 32"
    "lts_run (ring_step id id) (ring_start m batch ds) init p" "enq_vals init = index_list n" "deq_vals init = []"
    by (auto simp: AstraPool_filled_def)
  show "h \<subseteq># mset (index_list n)"
    using concurrent_in_use [OF f(1,3) lts_run_append [OF f(4) r(1)] _ f(6) r(2)] f(2,5) by simp
qed

fun mv_pending :: "mvpc \<Rightarrow> i32 multiset" where
  "mv_pending (MvPut v) = {#v#}"
| "mv_pending _ = {#}"

definition mv_inv :: "nat \<Rightarrow> ipev list \<Rightarrow> MutexVecPool \<Rightarrow> bool" where
  "mv_inv n tr q \<longleftrightarrow>
     (\<forall>h. outstanding tr = Some h \<longrightarrow> h + mset (mfree q) + sum_list (map mv_pending (mvpcs q)) = mset (index_list n))"

lemma mv_inv_step:
  assumes "mv_inv n tr q" "MutexVecPool_step q e q'"
  shows "mv_inv n (tr @ [e]) q'"
  using assms(2)
proof cases
  case (mv_get i)
  then show ?thesis using assms(1) sum_list_map_update [OF mv_get(3), of mv_pending MvGet]
    by (auto simp: mv_inv_def bind_eq_Some_conv)
next
  case (mv_pop_back i)
  then have "mset (mfree q) = add_mset (last (mfree q)) (mset (butlast (mfree q)))"
    by (metis append_butlast_last_id mset.simps(2) mset_rev rev_eq_Cons_iff rev_rev_ident)
  then show ?thesis using mv_pop_back assms(1) sum_list_map_update [OF mv_pop_back(3), of mv_pending MvIdle]
    by (auto simp: mv_inv_def bind_eq_Some_conv)
next
  case (mv_put i v)
  then show ?thesis using assms(1) sum_list_map_update [OF mv_put(3), of mv_pending "MvPut v"]
    by (auto simp: mv_inv_def bind_eq_Some_conv split: if_splits dest!: multi_member_split)
next
  case (mv_push_back i v)
  then have "sum_list (map mv_pending (mvpcs q)) = add_mset v (sum_list (map mv_pending ((mvpcs q)[i := MvIdle])))"
    using sum_list_map_update [OF mv_push_back(3), of mv_pending MvIdle] by simp
  then show ?thesis using mv_push_back assms(1) by (auto simp: mv_inv_def bind_eq_Some_conv)
qed (use assms(1) in \<open>auto simp: mv_inv_def bind_eq_Some_conv\<close>)

interpretation mvm: lts_invariant MutexVecPool_step "\<lambda>q. \<exists>m. q = MutexVecPool_start n m" "mv_inv n"
proof
  have "sum_list (replicate m {#}) = ({#} :: i32 multiset)" for m by (induction m) simp_all
  then show "\<exists>m. q = MutexVecPool_start n m \<Longrightarrow> mv_inv n [] q" for q
    by (auto simp: mv_inv_def MutexVecPool_start_def)
  show "mv_inv n tr q \<Longrightarrow> MutexVecPool_step q e q' \<Longrightarrow> mv_inv n (tr @ [e]) q'" for tr q e q' by (rule mv_inv_step)
qed

interpretation mutexvec: index_provider MutexVecPool_step "\<lambda>n q. \<exists>m. q = MutexVecPool_start n m"
proof
  fix n p tr q h
  assume "\<exists>m. p = MutexVecPool_start n m" "lts_run MutexVecPool_step p tr q" "outstanding tr = Some h"
  then have "h + (mset (mfree q) + sum_list (map mv_pending (mvpcs q))) = mset (index_list n)"
    using mvm.inv_run [of p tr q n] by (auto simp: mv_inv_def add.assoc)
  then show "h \<subseteq># mset (index_list n)" by (metis mset_subset_eq_add_left)
qed

section \<open>Properties\<close>

text \<open>Index accounting. When all threads of a \<open>run\<close> on a filled \<open>ThreadSafeIndexPool\<close> have finished, for any number of
  threads and any interleaving of their plain increments, the check on the sum of the counters
  succeeds: no index was ever handed out twice at the same time.\<close>

theorem index_run_accounting:
  assumes "AstraPool_filled n p" "n < 2 ^ 31"
    and "lts_run (index_run_step AstraPool_step threads tot) (index_run_start threads n p) tr s"
    and "set (iphase s) \<subseteq> {IDone}"
  shows "index_run_check threads tot s"
  by (rule astrapool.index_accounting [OF assms(3,1,2,4)])

text \<open>The same for the vector under a mutex.\<close>

theorem index_run_accounting_mutex:
  assumes "n < 2 ^ 31" "set (iphase s) \<subseteq> {IDone}"
    and "lts_run (index_run_step MutexVecPool_step threads tot) (index_run_start threads n (MutexVecPool_start n m)) tr s"
  shows "index_run_check threads tot s"
  by (rule mutexvec.index_accounting [OF assms(3) _ assms(1,2)]) blast


text \<open>The next action of thread \<open>i\<close> on \<open>AstraPool\<close>, and schedules.\<close>

definition index_do :: "u32 \<Rightarrow> u64 \<Rightarrow> tid \<Rightarrow> i32 ring_sys ibench \<Rightarrow> (ipev \<times> i32 ring_sys ibench) option" where
  "index_do threads tot i s =
     (if \<not> i < length (iphase s) then None
      else case iphase s ! i of
        ILoop \<Rightarrow>
          if ik s ! i < perThread threads tot then
            map_option (\<lambda>(e, p). (Get i, s\<lparr>ipool := p, iphase := (iphase s)[i := IGet]\<rparr>)) (perform id id (ActDeq i) (ipool s))
          else Some (ITau, s\<lparr>iphase := (iphase s)[i := IDone]\<rparr>)
      | IGet \<Rightarrow>
          (case perform id id (ActStep i) (ipool s) of
             Some (Tau _, p) \<Rightarrow> Some (ITau, s\<lparr>ipool := p\<rparr>)
           | Some (DeqRet j v, p) \<Rightarrow> if j = i then Some (Got i v, s\<lparr>ipool := p, iphase := (iphase s)[i := ILoad v]\<rparr>) else None
           | _ \<Rightarrow> None)
      | ILoad idx \<Rightarrow>
          if 0 \<le> sint idx \<and> slot_of idx < length (idata s)
          then Some (ITau, s\<lparr>iphase := (iphase s)[i := IStore idx (idata s ! slot_of idx)]\<rparr>) else None
      | IStore idx x \<Rightarrow>
          Some (ITau, s\<lparr>idata := (idata s)[slot_of idx := x + 1], iphase := (iphase s)[i := IPut idx]\<rparr>)
      | IPut idx \<Rightarrow>
          map_option (\<lambda>(e, p). (Put i idx, s\<lparr>ipool := p, iphase := (iphase s)[i := IPutting]\<rparr>)) (perform id id (ActEnq i idx) (ipool s))
      | IPutting \<Rightarrow>
          (case perform id id (ActStep i) (ipool s) of
             Some (Tau _, p) \<Rightarrow> Some (ITau, s\<lparr>ipool := p\<rparr>)
           | Some (EnqRet j, p) \<Rightarrow> if j = i then
               Some (PutRet i, s\<lparr>ipool := p, iphase := (iphase s)[i := ILoop], ik := (ik s)[i := ik s ! i + 1]\<rparr>) else None
           | _ \<Rightarrow> None)
      | IDone \<Rightarrow> None)"

fun index_script :: "u32 \<Rightarrow> u64 \<Rightarrow> tid list \<Rightarrow> i32 ring_sys ibench \<Rightarrow> (ipev list \<times> i32 ring_sys ibench) option" where
  "index_script threads tot [] s = Some ([], s)"
| "index_script threads tot (i # is) s =
     (case index_do threads tot i s of
        None \<Rightarrow> None
      | Some (e, s1) \<Rightarrow> map_option (\<lambda>(tr, s2). (e # tr, s2)) (index_script threads tot is s1))"

lemma perform_AstraPool:
  assumes "perform id id x q = Some (e, q')"
  shows "x = ActDeq i \<Longrightarrow> AstraPool_step q (Get i) q'" "x = ActEnq i v \<Longrightarrow> AstraPool_step q (Put i v) q'"
    "e = EnqRet i \<Longrightarrow> AstraPool_step q (PutRet i) q'" "e = DeqRet i v \<Longrightarrow> AstraPool_step q (Got i v) q'"
    "e = Tau i \<Longrightarrow> AstraPool_step q ITau q'"
proof -
  have any: "AstraPool_step q l q'" if "AstraPool_event e = Some l" for l
    using astra_pool [OF perform_step [OF assms] that] .
  show "x = ActDeq i \<Longrightarrow> AstraPool_step q (Get i) q'" "x = ActEnq i v \<Longrightarrow> AstraPool_step q (Put i v) q'"
    using assms by (auto intro!: any split: if_splits prod.splits)
  show "e = EnqRet i \<Longrightarrow> AstraPool_step q (PutRet i) q'" "e = DeqRet i v \<Longrightarrow> AstraPool_step q (Got i v) q'"
    "e = Tau i \<Longrightarrow> AstraPool_step q ITau q'" by (auto intro!: any)
qed

lemma index_do_step:
  assumes "index_do threads tot i s = Some (e, s')"
  shows "index_run_step AstraPool_step threads tot s e s'"
proof -
  have i: "i < length (iphase s)" using assms by (auto simp: index_do_def split: if_splits)
  note call = perform_AstraPool(1) [OF _ refl] perform_AstraPool(2) [OF _ refl]
  note ret = perform_AstraPool(3) [OF _ refl] perform_AstraPool(4) [OF _ refl] perform_AstraPool(5) [OF _ refl]
  show ?thesis
    using assms i
    by (cases "iphase s ! i")
      (auto simp: index_do_def simp del: perform.simps split: option.splits ring_ev.splits if_splits
        intro: index_run_step.intros dest!: call ret)
qed

lemma index_script_run:
  "index_script threads tot is s = Some (tr, s') \<Longrightarrow> lts_run (index_run_step AstraPool_step threads tot) s tr s'"
proof (induction "is" arbitrary: s tr)
  case Nil
  then show ?case by (auto intro: lts_run.run_nil)
next
  case (Cons i "is")
  then show ?case by (auto split: option.splits intro: lts_run_cons index_do_step)
qed


definition fill_two :: "i32 act list" where
  "fill_two = [ActEnq 0 0, ActStep 0, ActStep 0, ActStep 0, ActEnq 0 1, ActStep 0, ActStep 0, ActStep 0]"

theorem index_run_accounting_witness:
  "\<exists>p tr s. AstraPool_filled 2 p \<and>
    lts_run (index_run_step AstraPool_step 2 2) (index_run_start 2 2 p) tr s \<and> index_run_check 2 2 s"
proof -
  let ?is = "concat (replicate 11 [0, 1 :: nat])"
  let ?run = "Option.bind (performs id id fill_two (ring_start 2 [] [0, 0]))
    (\<lambda>(init, p). map_option (\<lambda>(tr, s). (enq_vals init, deq_vals init, map is_idle (pcs p), iphase s)) (index_script 2 2 ?is (index_run_start 2 2 p)))"
  have "?run = Some ([0, 1], [], [True, True], [IDone, IDone])" by code_simp
  then obtain init p tr s where r: "performs id id fill_two (ring_start 2 [] [0, 0]) = Some (init, p)"
    "enq_vals init = [0, 1]" "deq_vals init = []" "map is_idle (pcs p) = [True, True]"
    "index_script 2 2 ?is (index_run_start 2 2 p) = Some (tr, s)" "iphase s = [IDone, IDone]"
    by (auto simp: bind_eq_Some_conv simp del: performs.simps index_script.simps)
  have "index_list 2 = [0, 1]" by (simp add: index_list_def upt_rec)
  moreover have "set (pcs p) \<subseteq> {Idle}" using r(4) by (auto simp: map_eq_Cons_conv)
  ultimately have filled: "AstraPool_filled 2 p"
    unfolding AstraPool_filled_def
    using r(2,3) performs_run [OF r(1)]
    by (intro exI [of _ "2 :: nat"] exI [of _ "[]"] exI [of _ "[0, 0 :: i32]"] exI [of _ init]) (simp add: numeral_2_eq_2 [symmetric] del: One_nat_def)
  note run = index_script_run [OF r(5)]
  have "index_run_check 2 2 s" using index_run_accounting [OF filled _ run] r(6) by simp
  with filled run show ?thesis by blast
qed

end
