(* ===== verification/Bench_Pool.thy ===== *)
theory Bench_Pool
  imports Bench_Run Thread_Pool_Safety
begin

text \<open>
  The burst measurement of bench/ThreadPoolComparisonBench.cpp on the thread pools that the repository
  itself implements: \<open>ThreadPool\<close> and the textbook pool \<open>CondvarPool\<close>, which is modelled here. Both
  have the events of theory \<open>Thread_Pool\<close>: the submission and the execution of a task.
\<close>

section \<open>CondvarPool\<close>

text \<open>
  A section under the mutex is one step. \<open>cv.wait(lk, pred)\<close> evaluates \<open>pred\<close> under the mutex and either
  goes on or blocks (\<open>VBlocked\<close>), releasing the mutex in the same step; a blocked worker that is
  notified, or wakes spuriously, evaluates \<open>pred\<close> again. A submitter pushes and then notifies. The
  destructor sets \<open>stop\<close>, notifies all and joins the workers.
\<close>

datatype 'a vpc = VEnter | VBlocked | VRun 'a | VExited
datatype 'a spc = SIdle | SPush 'a | SNotify
datatype vdtor = VAlive | VNotifyAll | VJoin nat | VDone

record 'a CondvarPool =
  cvq :: "'a list"
  cvstop :: bool
  cvworkers :: "'a vpc list"
  cvclients :: "'a spc list"
  cvdtor :: vdtor

definition new_CondvarPool :: "nat \<Rightarrow> nat \<Rightarrow> 'a CondvarPool" where
  "new_CondvarPool n m =
     \<lparr>cvq = [], cvstop = False, cvworkers = replicate n VEnter, cvclients = replicate m SIdle, cvdtor = VAlive\<rparr>"

definition cv_worker_section :: "nat \<Rightarrow> 'a CondvarPool \<Rightarrow> 'a CondvarPool" where
  "cv_worker_section i s =
     (if cvstop s \<or> cvq s \<noteq> [] then
        (if cvstop s \<and> cvq s = [] then s\<lparr>cvworkers := (cvworkers s)[i := VExited]\<rparr>
         else s\<lparr>cvq := tl (cvq s), cvworkers := (cvworkers s)[i := VRun (hd (cvq s))]\<rparr>)
      else s\<lparr>cvworkers := (cvworkers s)[i := VBlocked]\<rparr>)"

inductive CondvarPool_step :: "'a CondvarPool \<Rightarrow> 'a pool_ev \<Rightarrow> 'a CondvarPool \<Rightarrow> bool" where
  cv_worker: "i < length (cvworkers s) \<Longrightarrow> cvworkers s ! i = VEnter \<Longrightarrow>
    CondvarPool_step s PTau (cv_worker_section i s)"
| cv_run: "i < length (cvworkers s) \<Longrightarrow> cvworkers s ! i = VRun v \<Longrightarrow>
    CondvarPool_step s (Exec i v) (s\<lparr>cvworkers := (cvworkers s)[i := VEnter]\<rparr>)"
| cv_spurious: "i < length (cvworkers s) \<Longrightarrow> cvworkers s ! i = VBlocked \<Longrightarrow>
    CondvarPool_step s PTau (s\<lparr>cvworkers := (cvworkers s)[i := VEnter]\<rparr>)"
| cv_submit: "c < length (cvclients s) \<Longrightarrow> cvclients s ! c = SIdle \<Longrightarrow> cvdtor s = VAlive \<Longrightarrow>
    CondvarPool_step s (Submit c (Some v)) (s\<lparr>cvclients := (cvclients s)[c := SPush v]\<rparr>)"
| cv_push: "c < length (cvclients s) \<Longrightarrow> cvclients s ! c = SPush v \<Longrightarrow>
    CondvarPool_step s PTau (s\<lparr>cvq := cvq s @ [v], cvclients := (cvclients s)[c := SNotify]\<rparr>)"
| cv_notify: "c < length (cvclients s) \<Longrightarrow> cvclients s ! c = SNotify \<Longrightarrow>
    i < length (cvworkers s) \<Longrightarrow> cvworkers s ! i = VBlocked \<Longrightarrow>
    CondvarPool_step s PTau (s\<lparr>cvworkers := (cvworkers s)[i := VEnter], cvclients := (cvclients s)[c := SIdle]\<rparr>)"
| cv_notify_none: "c < length (cvclients s) \<Longrightarrow> cvclients s ! c = SNotify \<Longrightarrow> VBlocked \<notin> set (cvworkers s) \<Longrightarrow>
    CondvarPool_step s PTau (s\<lparr>cvclients := (cvclients s)[c := SIdle]\<rparr>)"
| cv_stop: "cvdtor s = VAlive \<Longrightarrow> set (cvclients s) \<subseteq> {SIdle} \<Longrightarrow>
    CondvarPool_step s PTau (s\<lparr>cvstop := True, cvdtor := VNotifyAll\<rparr>)"
| cv_notify_all: "cvdtor s = VNotifyAll \<Longrightarrow>
    CondvarPool_step s PTau (s\<lparr>cvworkers := map (\<lambda>w. case w of VBlocked \<Rightarrow> VEnter | _ \<Rightarrow> w) (cvworkers s), cvdtor := VJoin 0\<rparr>)"
| cv_join: "cvdtor s = VJoin k \<Longrightarrow> k < length (cvworkers s) \<Longrightarrow> cvworkers s ! k = VExited \<Longrightarrow>
    CondvarPool_step s PTau (s\<lparr>cvdtor := VJoin (Suc k)\<rparr>)"
| cv_joined: "cvdtor s = VJoin k \<Longrightarrow> \<not> k < length (cvworkers s) \<Longrightarrow>
    CondvarPool_step s PTau (s\<lparr>cvdtor := VDone\<rparr>)"

section \<open>The burst\<close>

text \<open>
  \<open>burst\<close>: one thread submits \<open>N\<close> tasks, each of which increments \<open>done\<close>, spins until \<open>done\<close> has reached \<open>N\<close>
  and checks that it is \<open>N\<close>. \<open>returned\<close> says that the submitter is not inside a call of \<open>submit\<close>.
\<close>

datatype bphase = BSubmit | BSpin | BCheck | BChecked bool

record 'p burst =
  bpool :: 'p
  bdone :: u64
  bi :: u64
  bphase :: bphase

definition burst_start :: "'p \<Rightarrow> 'p burst" where
  "burst_start p = \<lparr>bpool = p, bdone = 0, bi = 0, bphase = BSubmit\<rparr>"

fun done_add :: "unit pool_ev \<Rightarrow> u64" where
  "done_add (Exec i v) = 1"
| "done_add _ = 0"

fun is_submit :: "'a pool_ev \<Rightarrow> bool" where
  "is_submit (Submit c v) = True"
| "is_submit _ = False"

inductive burst_step :: "('p \<Rightarrow> unit pool_ev \<Rightarrow> 'p \<Rightarrow> bool) \<Rightarrow> ('p \<Rightarrow> bool) \<Rightarrow> u64 \<Rightarrow> 'p burst \<Rightarrow> unit pool_ev \<Rightarrow> 'p burst \<Rightarrow> bool"
  for tstep returned N where
  bu_submit: "bphase s = BSubmit \<Longrightarrow> returned (bpool s) \<Longrightarrow> bi s < N \<Longrightarrow> tstep (bpool s) (Submit 0 (Some ())) p \<Longrightarrow>
    burst_step tstep returned N s (Submit 0 (Some ())) (s\<lparr>bpool := p, bi := bi s + 1\<rparr>)"
| bu_pool: "tstep (bpool s) e p \<Longrightarrow> \<not> is_submit e \<Longrightarrow>
    burst_step tstep returned N s e (s\<lparr>bpool := p, bdone := bdone s + done_add e\<rparr>)"
| bu_all_submitted: "bphase s = BSubmit \<Longrightarrow> returned (bpool s) \<Longrightarrow> \<not> bi s < N \<Longrightarrow>
    burst_step tstep returned N s PTau (s\<lparr>bphase := BSpin\<rparr>)"
| bu_spin: "bphase s = BSpin \<Longrightarrow> bdone s < N \<Longrightarrow> burst_step tstep returned N s PTau s"
| bu_spun: "bphase s = BSpin \<Longrightarrow> \<not> bdone s < N \<Longrightarrow> burst_step tstep returned N s PTau (s\<lparr>bphase := BCheck\<rparr>)"
| bu_check: "bphase s = BCheck \<Longrightarrow> burst_step tstep returned N s PTau (s\<lparr>bphase := BChecked (bdone s = N)\<rparr>)"

text \<open>The pools before their destruction; the submitter is client 0.\<close>

inductive AstraPool_alive :: "bool \<Rightarrow> (bool \<Rightarrow> bool) \<Rightarrow> 'a ThreadPool \<Rightarrow> 'a pool_ev \<Rightarrow> 'a ThreadPool \<Rightarrow> bool"
  for tso kblock where
  astra_alive: "pool_step tso kblock 1024 s e s' \<Longrightarrow> mpc s' = MAlive \<Longrightarrow> AstraPool_alive tso kblock s e s'"

definition AstraPool_returned :: "'a ThreadPool \<Rightarrow> bool" where
  "AstraPool_returned s \<longleftrightarrow> clients s ! 0 = CIdle"

inductive CVPool_alive :: "'a CondvarPool \<Rightarrow> 'a pool_ev \<Rightarrow> 'a CondvarPool \<Rightarrow> bool" where
  cv_alive: "CondvarPool_step s e s' \<Longrightarrow> cvdtor s' = VAlive \<Longrightarrow> CVPool_alive s e s'"

fun spc_idle :: "'a spc \<Rightarrow> bool" where
  "spc_idle SIdle = True"
| "spc_idle _ = False"

definition CVPool_returned :: "'a CondvarPool \<Rightarrow> bool" where
  "CVPool_returned s \<longleftrightarrow> spc_idle (cvclients s ! 0)"

section \<open>CondvarPool: invariants\<close>

fun vrun :: "'a vpc \<Rightarrow> 'a multiset" where
  "vrun (VRun v) = {#v#}"
| "vrun _ = {#}"

fun spush :: "'a spc \<Rightarrow> 'a multiset" where
  "spush (SPush v) = {#v#}"
| "spush _ = {#}"

fun is_enter :: "'a vpc \<Rightarrow> bool" where
  "is_enter VEnter = True"
| "is_enter _ = False"

fun is_notify :: "'a spc \<Rightarrow> bool" where
  "is_notify SNotify = True"
| "is_notify _ = False"

text \<open>Every submitted task is executed, running, queued or about to be pushed.\<close>

definition cv_account :: "'a pool_ev list \<Rightarrow> 'a CondvarPool \<Rightarrow> bool" where
  "cv_account tr s \<longleftrightarrow> tasks (submitted tr) =
     mset (executed tr) + sum_list (map vrun (cvworkers s)) + mset (cvq s) + sum_list (map spush (cvclients s))"

text \<open>While a worker is blocked, there are as many wake-ups under way as tasks in the queue.\<close>

definition cv_wake :: "'a CondvarPool \<Rightarrow> bool" where
  "cv_wake s \<longleftrightarrow> (VBlocked \<in> set (cvworkers s) \<longrightarrow>
     length (cvq s) \<le> length (filter is_enter (cvworkers s)) + length (filter is_notify (cvclients s)))"

fun joined :: "vdtor \<Rightarrow> 'a vpc list \<Rightarrow> bool" where
  "joined (VJoin k) ws = (VBlocked \<notin> set ws \<and> (\<forall>j < k. j < length ws \<longrightarrow> ws ! j = VExited))"
| "joined VDone ws = (set ws \<subseteq> {VExited})"
| "joined _ ws = True"

definition cv_exit :: "'a CondvarPool \<Rightarrow> bool" where
  "cv_exit s \<longleftrightarrow> (cvstop s \<longleftrightarrow> cvdtor s \<noteq> VAlive) \<and> (cvstop s \<longrightarrow> set (cvclients s) \<subseteq> {SIdle}) \<and>
     (VExited \<in> set (cvworkers s) \<longrightarrow> cvstop s \<and> cvq s = []) \<and> joined (cvdtor s) (cvworkers s)"

lemma cv_account_step:
  assumes "cv_account tr s" "CondvarPool_step s e s'"
  shows "cv_account (tr @ [e]) s'"
  using assms(2)
proof cases
  case (cv_worker i)
  then show ?thesis
    using assms(1) sum_list_map_update [OF cv_worker(3), of vrun "VRun (hd (cvq s))"]
      sum_list_map_update [OF cv_worker(3), of vrun VExited] sum_list_map_update [OF cv_worker(3), of vrun VBlocked]
    by (cases "cvq s") (auto simp: cv_account_def cv_worker_section_def)
next
  case (cv_run i v)
  then show ?thesis using assms(1) sum_list_map_update [OF cv_run(3), of vrun VEnter] by (simp add: cv_account_def)
next
  case (cv_spurious i)
  then show ?thesis using assms(1) sum_list_map_update [OF cv_spurious(3), of vrun VEnter] by (simp add: cv_account_def)
next
  case (cv_submit c v)
  then show ?thesis using assms(1) sum_list_map_update [OF cv_submit(3), of spush "SPush v"]
    by (simp add: cv_account_def tasks_append tasks_def)
next
  case (cv_push c v)
  then show ?thesis using assms(1) sum_list_map_update [OF cv_push(3), of spush SNotify] by (auto simp: cv_account_def)
next
  case (cv_notify c i)
  then show ?thesis using assms(1) sum_list_map_update [OF cv_notify(3), of spush SIdle]
      sum_list_map_update [OF cv_notify(5), of vrun VEnter] by (simp add: cv_account_def)
next
  case (cv_notify_none c)
  then show ?thesis using assms(1) sum_list_map_update [OF cv_notify_none(3), of spush SIdle] by (simp add: cv_account_def)
next
  case cv_notify_all
  have "vrun \<circ> (\<lambda>w. case w of VBlocked \<Rightarrow> VEnter | _ \<Rightarrow> w) = (vrun :: 'a vpc \<Rightarrow> _)"
    by (auto split: vpc.splits)
  then show ?thesis using cv_notify_all assms(1) by (simp add: cv_account_def)
qed (use assms(1) in \<open>simp_all add: cv_account_def\<close>)

lemma blocked_update: "VBlocked \<in> set (ws[i := w]) \<Longrightarrow> w \<noteq> VBlocked \<Longrightarrow> VBlocked \<in> set ws"
  using set_update_subset_insert [of ws i w] by auto

lemma cv_wake_step:
  assumes "cv_wake s" "CondvarPool_step s e s'"
  shows "cv_wake s'"
  using assms(2)
proof cases
  case (cv_worker i)
  then show ?thesis
    using assms(1) length_filter_update [OF cv_worker(3), of is_enter "VRun (hd (cvq s))"]
      length_filter_update [OF cv_worker(3), of is_enter VExited]
    by (auto simp: cv_wake_def cv_worker_section_def dest!: blocked_update)
next
  case (cv_run i v)
  then show ?thesis using assms(1) length_filter_update [OF cv_run(3), of is_enter VEnter]
    by (auto simp: cv_wake_def dest!: blocked_update)
next
  case (cv_spurious i)
  then show ?thesis using assms(1) length_filter_update [OF cv_spurious(3), of is_enter VEnter]
    by (auto simp: cv_wake_def dest!: blocked_update)
next
  case (cv_submit c v)
  then show ?thesis using assms(1) length_filter_update [OF cv_submit(3), of is_notify "SPush v"] by (simp add: cv_wake_def)
next
  case (cv_push c v)
  then show ?thesis using assms(1) length_filter_update [OF cv_push(3), of is_notify SNotify] by (auto simp: cv_wake_def)
next
  case (cv_notify c i)
  have "VBlocked \<in> set (cvworkers s)" using cv_notify nth_mem by metis
  then show ?thesis using cv_notify assms(1) length_filter_update [OF cv_notify(3), of is_notify SIdle]
      length_filter_update [OF cv_notify(5), of is_enter VEnter] by (auto simp: cv_wake_def)
next
  case cv_notify_all
  have "VBlocked \<notin> set (map (\<lambda>w. case w of VBlocked \<Rightarrow> VEnter | _ \<Rightarrow> w) ws)" for ws :: "'a vpc list"
    by (auto split: vpc.splits)
  then show ?thesis using cv_notify_all by (simp add: cv_wake_def)
qed (use assms(1) in \<open>simp_all add: cv_wake_def\<close>)


lemma exited_update: "VExited \<in> set (ws[i := w]) \<Longrightarrow> w \<noteq> VExited \<Longrightarrow> VExited \<in> set ws"
  using set_update_subset_insert [of ws i w] by auto

lemma joined_update:
  assumes "joined d ws" "ws ! i \<noteq> VExited" "i < length ws" "d = VAlive \<or> w \<noteq> VBlocked"
  shows "joined d (ws[i := w])"
proof (cases d)
  case (VJoin k)
  then show ?thesis using assms by (auto simp: nth_list_update dest!: blocked_update)
next
  case VDone
  then have "ws ! i = VExited" using assms(1,3) by (auto intro: nth_of_singleton)
  with assms(2) show ?thesis by simp
qed simp_all

lemma cv_exit_step:
  assumes "cv_exit s" "CondvarPool_step s e s'"
  shows "cv_exit s'"
  using assms(2)
proof cases
  case (cv_worker i)
  have "joined (cvdtor s) ((cvworkers s)[i := w])" if "cvdtor s = VAlive \<or> w \<noteq> VBlocked" for w
    using assms(1) cv_worker that by (intro joined_update) (auto simp: cv_exit_def)
  then show ?thesis
    using assms(1) cv_worker by (auto simp: cv_exit_def cv_worker_section_def dest!: exited_update)
next
  case (cv_run i v)
  then have "joined (cvdtor s) ((cvworkers s)[i := VEnter])"
    using assms(1) by (intro joined_update) (auto simp: cv_exit_def)
  then show ?thesis using cv_run assms(1) by (auto simp: cv_exit_def dest!: exited_update)
next
  case (cv_spurious i)
  then have "joined (cvdtor s) ((cvworkers s)[i := VEnter])"
    using assms(1) by (intro joined_update) (auto simp: cv_exit_def)
  then show ?thesis using cv_spurious assms(1) by (auto simp: cv_exit_def dest!: exited_update)
next
  case (cv_submit c v)
  then show ?thesis using assms(1) by (auto simp: cv_exit_def)
next
  case (cv_push c v)
  then have "\<not> cvstop s" using assms(1) nth_of_singleton [of "cvclients s" SIdle c] by (auto simp: cv_exit_def)
  then show ?thesis using cv_push assms(1) by (auto simp: cv_exit_def)
next
  case (cv_notify c i)
  then have "\<not> cvstop s" using assms(1) nth_of_singleton [of "cvclients s" SIdle c] by (auto simp: cv_exit_def)
  moreover have "joined (cvdtor s) ((cvworkers s)[i := VEnter])"
    using assms(1) cv_notify by (intro joined_update) (auto simp: cv_exit_def)
  ultimately show ?thesis using cv_notify assms(1) by (auto simp: cv_exit_def dest!: exited_update)
next
  case (cv_notify_none c)
  then have "\<not> cvstop s" using assms(1) nth_of_singleton [of "cvclients s" SIdle c] by (auto simp: cv_exit_def)
  then show ?thesis using cv_notify_none assms(1) by (auto simp: cv_exit_def)
next
  case cv_notify_all
  have "VBlocked \<notin> set (map (\<lambda>w. case w of VBlocked \<Rightarrow> VEnter | _ \<Rightarrow> w) ws)"
    "VExited \<in> set (map (\<lambda>w. case w of VBlocked \<Rightarrow> VEnter | _ \<Rightarrow> w) ws) \<Longrightarrow> VExited \<in> set ws" for ws :: "'a vpc list"
    by (auto split: vpc.splits)
  then show ?thesis using cv_notify_all assms(1) by (auto simp: cv_exit_def)
next
  case (cv_join k)
  then show ?thesis using assms(1) by (auto simp: cv_exit_def less_Suc_eq)
next
  case (cv_joined k)
  then show ?thesis using assms(1) by (auto simp: cv_exit_def in_set_conv_nth)
qed (use assms(1) in \<open>auto simp: cv_exit_def\<close>)

definition cv_inv :: "'a pool_ev list \<Rightarrow> 'a CondvarPool \<Rightarrow> bool" where
  "cv_inv tr s \<longleftrightarrow> cv_account tr s \<and> cv_wake s \<and> cv_exit s"

lemma cv_inv_start: "cv_inv [] (new_CondvarPool n m)"
proof -
  have "sum_list (replicate k {#}) = ({#} :: 'a multiset)" for k by (induction k) simp_all
  then show ?thesis
    by (auto simp: cv_inv_def cv_account_def cv_wake_def cv_exit_def new_CondvarPool_def tasks_def)
qed

interpretation cvm: lts_invariant CondvarPool_step "\<lambda>s. \<exists>n m. s = new_CondvarPool n m" cv_inv
  by unfold_locales (auto simp: cv_inv_def intro: cv_account_step cv_wake_step cv_exit_step
      cv_inv_start [unfolded cv_inv_def, THEN conjunct1] cv_inv_start [unfolded cv_inv_def, THEN conjunct2, THEN conjunct1]
      cv_inv_start [unfolded cv_inv_def, THEN conjunct2, THEN conjunct2])

lemma cv_run_size: "lts_run CondvarPool_step (new_CondvarPool n m) tr s \<Longrightarrow> length (cvworkers s) = n"
  by (induction rule: lts_run.induct)
    (auto simp: new_CondvarPool_def cv_worker_section_def elim!: CondvarPool_step.cases)

lemma sum_list_all_empty: "set xs \<subseteq> {a} \<Longrightarrow> f a = {#} \<Longrightarrow> sum_list (map f xs) = {#}"
  by (induction xs) auto

text \<open>The textbook pool loses nothing. When the destructor of a \<open>CondvarPool\<close> with at least one worker has
  returned, exactly the submitted tasks have been executed; so they have, too, whenever all workers are
  blocked on the condition variable and no submitter is inside \<open>submit\<close>: no notification is lost.\<close>

theorem condvar_pool_complete:
  assumes "lts_run CondvarPool_step (new_CondvarPool n m) tr s" "0 < n"
    and "cvdtor s = VDone \<or> set (cvworkers s) \<subseteq> {VBlocked} \<and> set (cvclients s) \<subseteq> {SIdle}"
  shows "mset (executed tr) = tasks (submitted tr)"
proof -
  have inv: "cv_inv tr s" using cvm.inv_run [OF assms(1)] by blast
  have ne: "cvworkers s \<noteq> []" using cv_run_size [OF assms(1)] assms(2) by auto
  have idle: "set (cvclients s) \<subseteq> {SIdle}" using assms(3) inv by (auto simp: cv_inv_def cv_exit_def)
  have "\<exists>w. set (cvworkers s) \<subseteq> {w} \<and> vrun w = {#} \<and> cvq s = []"
    using assms(3)
  proof
    assume "cvdtor s = VDone"
    then have "set (cvworkers s) \<subseteq> {VExited}" using inv by (auto simp: cv_inv_def cv_exit_def)
    moreover from this ne have "VExited \<in> set (cvworkers s)" by (cases "cvworkers s") auto
    ultimately show ?thesis using inv by (auto simp: cv_inv_def cv_exit_def)
  next
    assume b: "set (cvworkers s) \<subseteq> {VBlocked} \<and> set (cvclients s) \<subseteq> {SIdle}"
    then have "filter is_enter (cvworkers s) = []" "filter is_notify (cvclients s) = []"
      by (auto simp: filter_empty_conv)
    moreover from b ne have "VBlocked \<in> set (cvworkers s)" by (cases "cvworkers s") auto
    ultimately show ?thesis using inv b by (auto simp: cv_inv_def cv_wake_def)
  qed
  then obtain w where "set (cvworkers s) \<subseteq> {w}" "vrun w = {#}" "cvq s = []" by blast
  then have "sum_list (map vrun (cvworkers s)) = {#}" by (intro sum_list_all_empty)
  moreover have "sum_list (map spush (cvclients s)) = {#}" using idle by (intro sum_list_all_empty) auto
  ultimately show ?thesis using inv \<open>cvq s = []\<close> by (simp add: cv_inv_def cv_account_def)
qed

section \<open>Burst: accounting\<close>

text \<open>Once the submitter has left its spin loop, \<open>done\<close> is and stays \<open>N\<close>.\<close>

fun phase_ok :: "u64 \<Rightarrow> u64 \<Rightarrow> bphase \<Rightarrow> bool" where
  "phase_ok N d BCheck = (d = N)"
| "phase_ok N d (BChecked b) = (d = N \<and> b)"
| "phase_ok N d _ = True"

text \<open>A pool for the benchmark: what has been executed is a part of what has been submitted.\<close>

locale task_runner =
  fixes tstep :: "'p \<Rightarrow> 'a pool_ev \<Rightarrow> 'p \<Rightarrow> bool"
    and tstart :: "'p \<Rightarrow> bool"
  assumes at_most_once: "tstart p0 \<Longrightarrow> lts_run tstep p0 tr p \<Longrightarrow> mset (executed tr) \<subseteq># tasks (submitted tr)"

text \<open>The tasks of a burst are all the same.\<close>

locale task_pool = task_runner tstep tstart
  for tstep :: "'p \<Rightarrow> unit pool_ev \<Rightarrow> 'p \<Rightarrow> bool" and tstart
begin

lemma executed_bound:
  fixes b N :: u64
  assumes "tstart p0" "lts_run tstep p0 ptr p" "length (submitted ptr) = unat b" "b \<le> N"
  shows "length (executed ptr) \<le> unat N" "unat (of_nat (length (executed ptr)) :: u64) = length (executed ptr)"
proof -
  have "size (tasks vs) \<le> length vs" for vs :: "unit option list"
  proof (induction vs)
    case (Cons v vs)
    have "size (task_mset v) \<le> 1" by (cases v) simp_all
    then show ?case using Cons by (simp add: tasks_def)
  qed (simp add: tasks_def)
  moreover have "size (mset (executed ptr)) \<le> size (tasks (submitted ptr))"
    using at_most_once [OF assms(1,2)] by (rule size_mset_mono)
  ultimately show le: "length (executed ptr) \<le> unat N" using assms(3,4) by (metis le_trans size_mset word_le_nat_alt)
  have "unat N < 2 ^ 64" using unsigned_less [of N] by simp
  with le show "unat (of_nat (length (executed ptr)) :: u64) = length (executed ptr)" by (simp add: unat_of_nat)
qed

lemma burst_run:
  assumes "tstart p0" "lts_run (burst_step tstep returned N) (burst_start p0) tr s"
  shows "\<exists>ptr. lts_run tstep p0 ptr (bpool s) \<and> bdone s = of_nat (length (executed ptr)) \<and>
    length (submitted ptr) = unat (bi s) \<and> bi s \<le> N \<and> phase_ok N (bdone s) (bphase s)"
  using assms(2)
proof (induction rule: lts_run.induct)
  case run_nil
  then show ?case by (intro exI [of _ "[]"]) (auto simp: burst_start_def intro: lts_run.run_nil)
next
  case (run_snoc tr s e s')
  then obtain ptr where p: "lts_run tstep p0 ptr (bpool s)" "bdone s = of_nat (length (executed ptr))"
    "length (submitted ptr) = unat (bi s)" "bi s \<le> N" "phase_ok N (bdone s) (bphase s)" by blast
  note more = lts_run.run_snoc [OF p(1)]
  note bound = executed_bound [OF assms(1) p(1,3,4)]
  from run_snoc.hyps(2) show ?case
  proof cases
    case (bu_submit q)
    have "unat (bi s + 1) = Suc (unat (bi s)) \<and> bi s + 1 \<le> N" using bu_submit(5) by (rule word_less_Suc)
    then show ?thesis using more bu_submit p by (intro exI [of _ "ptr @ [e]"]) simp
  next
    case (bu_pool q)
    have run: "lts_run tstep p0 (ptr @ [e]) q" using more bu_pool by blast
    have sub: "length (submitted (ptr @ [e])) = unat (bi s)" using p(3) bu_pool by (cases e) auto
    have "length (executed ptr) + length (exec_of e) \<le> unat N" using executed_bound(1) [OF assms(1) run sub p(4)] by simp
    then have "phase_ok N (bdone s + done_add e) (bphase s)"
      using p(2,5) bound(2) by (cases e; cases "bphase s") auto
    moreover have "bdone s + done_add e = of_nat (length (executed (ptr @ [e])))" using p(2) by (cases e) simp_all
    ultimately show ?thesis using run sub bu_pool p(4) by (intro exI [of _ "ptr @ [e]"]) simp
  next
    case bu_spun
    then have "bdone s = N" using p(2) bound by (simp add: word_less_nat_alt not_less word_unat_eq_iff)
    then show ?thesis using bu_spun p by auto
  qed (use p in auto)
qed

lemma accounting:
  "tstart p0 \<Longrightarrow> lts_run (burst_step tstep returned N) (burst_start p0) tr s \<Longrightarrow> bphase s = BChecked b \<Longrightarrow> b"
  using burst_run [of p0 returned N tr s] by auto

end


lemma alive_pool_run:
  "lts_run (AstraPool_alive tso kblock) s tr s' \<Longrightarrow> lts_run (pool_step tso kblock 1024) s tr s'"
  by (induction rule: lts_run.induct) (auto elim!: AstraPool_alive.cases intro: lts_run.intros)

interpretation astrarun: task_runner "AstraPool_alive tso kblock" "\<lambda>p. \<exists>n m. 0 < n \<and> p = new_ThreadPool n m"
  for tso kblock
proof
  fix p0 p :: "'a ThreadPool" and tr
  assume "\<exists>n m. 0 < n \<and> p0 = new_ThreadPool n m" "lts_run (AstraPool_alive tso kblock) p0 tr p"
  then show "mset (executed tr) \<subseteq># tasks (submitted tr)"
    using pool_at_most_once [of _ tso kblock 1024 _ tr p] alive_pool_run by blast
qed

interpretation astratp: task_pool "AstraPool_alive tso kblock" "\<lambda>p. \<exists>n m. 0 < n \<and> p = new_ThreadPool n m"
  for tso kblock
  by unfold_locales

lemma alive_cv_run: "lts_run CVPool_alive s tr s' \<Longrightarrow> lts_run CondvarPool_step s tr s'"
  by (induction rule: lts_run.induct) (auto elim!: CVPool_alive.cases intro: lts_run.intros)

interpretation cvrun: task_runner CVPool_alive "\<lambda>p. \<exists>n m. p = new_CondvarPool n m"
proof
  fix p0 p :: "'a CondvarPool" and tr
  assume "\<exists>n m. p0 = new_CondvarPool n m" "lts_run CVPool_alive p0 tr p"
  then have "cv_inv tr p" using cvm.inv_run alive_cv_run by blast
  then show "mset (executed tr) \<subseteq># tasks (submitted tr)" by (simp add: cv_inv_def cv_account_def add.assoc)
qed

interpretation cvtp: task_pool CVPool_alive "\<lambda>p. \<exists>n m. p = new_CondvarPool n m"
  by unfold_locales

section \<open>Properties\<close>

text \<open>C33: Burst accounting. Whenever a burst of \<open>N\<close> tasks on a \<open>ThreadPool\<close> with any number of workers reaches its
  check, the check succeeds: \<open>done\<close> is \<open>N\<close>, not more. It holds for every kernel and with or without a
  store buffer.\<close>

theorem burst_accounting:
  assumes "0 < W" "lts_run (burst_step (AstraPool_alive tso kblock) AstraPool_returned N) (burst_start (new_ThreadPool W 1)) tr s"
    and "bphase s = BChecked ok"
  shows "ok \<and> bench_check ok failures = failures"
  using astratp.accounting [OF _ assms(2,3)] assms(1) by (auto simp: bench_check_def)

text \<open>The same for \<open>CondvarPool\<close>.\<close>

theorem burst_accounting_condvar:
  assumes "lts_run (burst_step CVPool_alive CVPool_returned N) (burst_start (new_CondvarPool W 1)) tr s" "bphase s = BChecked ok"
  shows ok
  using cvtp.accounting [OF _ assms] by blast


text \<open>Scripted bursts: an action of the pool, or the next action of the submitter.\<close>

definition submitter_do :: "u64 \<Rightarrow> unit ThreadPool burst \<Rightarrow> (unit pool_ev \<times> unit ThreadPool burst) option" where
  "submitter_do N s =
     (case bphase s of
        BSubmit \<Rightarrow>
          if clients (bpool s) ! 0 \<noteq> CIdle then None
          else if bi s < N then
            (if 0 < length (clients (bpool s)) \<and> mpc (bpool s) = MAlive
             then Some (Submit 0 (Some ()), s\<lparr>bpool := pool_submit 0 (Some ()) (bpool s), bi := bi s + 1\<rparr>) else None)
          else Some (PTau, s\<lparr>bphase := BSpin\<rparr>)
      | BSpin \<Rightarrow> Some (PTau, if bdone s < N then s else s\<lparr>bphase := BCheck\<rparr>)
      | BCheck \<Rightarrow> Some (PTau, s\<lparr>bphase := BChecked (bdone s = N)\<rparr>)
      | BChecked b \<Rightarrow> None)"

definition burst_do :: "u64 \<Rightarrow> unit pool_act option \<Rightarrow> unit ThreadPool burst \<Rightarrow> (unit pool_ev \<times> unit ThreadPool burst) option" where
  "burst_do N a s =
     (case a of
        None \<Rightarrow> submitter_do N s
      | Some x \<Rightarrow> Option.bind (pool_do False Not 1024 x (bpool s))
          (\<lambda>(e, p). if is_submit e \<or> mpc p \<noteq> MAlive then None
            else Some (e, s\<lparr>bpool := p, bdone := bdone s + done_add e\<rparr>)))"

fun burst_script :: "u64 \<Rightarrow> unit pool_act option list \<Rightarrow> unit ThreadPool burst \<Rightarrow> (unit pool_ev list \<times> unit ThreadPool burst) option" where
  "burst_script N [] s = Some ([], s)"
| "burst_script N (a # as) s =
     (case burst_do N a s of
        None \<Rightarrow> None
      | Some (e, s1) \<Rightarrow> map_option (\<lambda>(tr, s2). (e # tr, s2)) (burst_script N as s1))"

lemma submitter_do_step:
  assumes "submitter_do N s = Some (e, s')"
  shows "burst_step (AstraPool_alive False Not) AstraPool_returned N s e s'"
proof -
  have alive: "AstraPool_alive False Not (bpool s) (Submit 0 (Some ())) (pool_submit 0 (Some ()) (bpool s))"
    if "0 < length (clients (bpool s))" "clients (bpool s) ! 0 = CIdle" "mpc (bpool s) = MAlive"
    using pool_do_step [of False Not 1024 "PSubmit 0 (Some ())" "bpool s"] that
    by (intro astra_alive) (auto simp: pool_submit_def)
  show ?thesis
    using assms alive
    by (auto simp: submitter_do_def AstraPool_returned_def split: bphase.splits if_splits
        intro: bu_submit bu_all_submitted bu_spin bu_spun bu_check)
qed

lemma burst_script_run:
  "burst_script N as s = Some (tr, s') \<Longrightarrow> lts_run (burst_step (AstraPool_alive False Not) AstraPool_returned N) s tr s'"
proof (induction "as" arbitrary: s tr)
  case Nil
  then show ?case by (auto intro: lts_run.run_nil)
next
  case (Cons a "as")
  have "burst_step (AstraPool_alive False Not) AstraPool_returned N s e s1" if "burst_do N a s = Some (e, s1)" for e s1
    using that submitter_do_step [of N s e s1]
    by (auto simp: burst_do_def bind_eq_Some_conv split: option.splits if_splits
        intro!: bu_pool astra_alive dest: pool_do_step)
  then show ?case using Cons by (auto split: option.splits intro: lts_run_cons)
qed

definition one_burst :: "unit pool_act option list" where
  "one_burst = [None] @ replicate 4 (Some (PClient 0)) @ [None] @ replicate 8 (Some PDisp) @ replicate 3 (Some (PWork 0)) @
     replicate 3 (Some PDisp) @ replicate 9 (Some (PWork 0)) @ [None, None]"

theorem burst_accounting_witness:
  "\<exists>tr s. lts_run (burst_step (AstraPool_alive False Not) AstraPool_returned 1) (burst_start (new_ThreadPool 1 1)) tr s \<and>
    bphase s = BChecked True \<and> bench_check True 0 = 0"
proof -
  have "map_option (\<lambda>(tr, s). bphase s) (burst_script 1 one_burst (burst_start (new_ThreadPool 1 1))) = Some (BChecked True)"
    by code_simp
  then obtain tr s where r: "burst_script 1 one_burst (burst_start (new_ThreadPool 1 1)) = Some (tr, s)" "bphase s = BChecked True"
    by (auto simp del: burst_script.simps)
  note run = burst_script_run [OF r(1)]
  show ?thesis using burst_accounting [OF _ run r(2), of 0] run r(2) by auto
qed

text \<open>The pool of one worker executes a task that its client submitted, and is destroyed.\<close>

theorem condvar_pool_complete_witness:
  "\<exists>tr s. lts_run CondvarPool_step (new_CondvarPool 1 1 :: int CondvarPool) tr s \<and> cvdtor s = VDone \<and>
    mset (executed tr) = tasks (submitted tr) \<and> submitted tr = [Some 7]"
proof -
  let ?s = "\<lambda>q st w c d. \<lparr>cvq = q, cvstop = st, cvworkers = [w], cvclients = [c], cvdtor = d\<rparr> :: int CondvarPool"
  have s0: "new_CondvarPool 1 1 = ?s [] False VEnter SIdle VAlive" by (simp add: new_CondvarPool_def)
  have a: "CondvarPool_step (?s [] False VEnter SIdle VAlive) (Submit 0 (Some 7)) (?s [] False VEnter (SPush 7) VAlive)"
    using cv_submit [of 0 "?s [] False VEnter SIdle VAlive" 7] by simp
  have b: "CondvarPool_step (?s [] False VEnter (SPush 7) VAlive) PTau (?s [7] False VEnter SNotify VAlive)"
    using cv_push [of 0 "?s [] False VEnter (SPush 7) VAlive" 7] by simp
  have c: "CondvarPool_step (?s [7] False VEnter SNotify VAlive) PTau (?s [7] False VEnter SIdle VAlive)"
    using cv_notify_none [of 0 "?s [7] False VEnter SNotify VAlive"] by simp
  have d: "CondvarPool_step (?s [7] False VEnter SIdle VAlive) PTau (?s [] False (VRun 7) SIdle VAlive)"
    using cv_worker [of 0 "?s [7] False VEnter SIdle VAlive"] by (simp add: cv_worker_section_def)
  have e: "CondvarPool_step (?s [] False (VRun 7) SIdle VAlive) (Exec 0 7) (?s [] False VEnter SIdle VAlive)"
    using cv_run [of 0 "?s [] False (VRun 7) SIdle VAlive" 7] by simp
  have f: "CondvarPool_step (?s [] False VEnter SIdle VAlive) PTau (?s [] True VEnter SIdle VNotifyAll)"
    using cv_stop [of "?s [] False VEnter SIdle VAlive"] by simp
  have g: "CondvarPool_step (?s [] True VEnter SIdle VNotifyAll) PTau (?s [] True VEnter SIdle (VJoin 0))"
    using cv_notify_all [of "?s [] True VEnter SIdle VNotifyAll"] by simp
  have h: "CondvarPool_step (?s [] True VEnter SIdle (VJoin 0)) PTau (?s [] True VExited SIdle (VJoin 0))"
    using cv_worker [of 0 "?s [] True VEnter SIdle (VJoin 0)"] by (simp add: cv_worker_section_def)
  have i: "CondvarPool_step (?s [] True VExited SIdle (VJoin 0)) PTau (?s [] True VExited SIdle (VJoin 1))"
    using cv_join [of "?s [] True VExited SIdle (VJoin 0)" 0] by simp
  have j: "CondvarPool_step (?s [] True VExited SIdle (VJoin 1)) PTau (?s [] True VExited SIdle VDone)"
    using cv_joined [of "?s [] True VExited SIdle (VJoin 1)" 1] by simp
  let ?tr = "[Submit 0 (Some 7), PTau, PTau, PTau, Exec 0 7, PTau, PTau, PTau, PTau, PTau] :: int pool_ev list"
  have run: "lts_run CondvarPool_step (new_CondvarPool 1 1) ?tr (?s [] True VExited SIdle VDone)"
    unfolding s0 by (rule lts_run_cons, rule a b c d e f g h i j)+ (rule lts_run.run_nil)
  then show ?thesis using condvar_pool_complete [OF run] by (force simp: submitted_def)
qed

end
