(* ===== verification/Bench_Latency.thy ===== *)
theory Bench_Latency
  imports Bench_Queue Bench_Pool
begin

text \<open>
  The latency measurements: \<open>pingPong\<close> of bench/QueueComparisonBench.cpp, in which a value goes to an echo thread
  through one queue and back through another, and \<open>wakeLatency\<close> of bench/ThreadPoolComparisonBench.cpp, in which a
  task stores the counter reading of its start in a variable of the submitter. The time-stamp counter
  is part of the state and only grows; samples are kept in cycles and converted at the end.
\<close>

section \<open>Ping-pong\<close>

datatype pgphase = PgLoop | PgPush u64 | PgPushing u64 | PgPop u64 | PgPopping u64 | PgStop u64 u64 | PgDone
datatype egphase = EgLoop | EgPopping | EgPush u64 | EgPushing | EgDone

record ('q, 'r) pingpong =
  preq :: 'q
  prep :: 'r
  pk :: u64
  pphase :: pgphase
  ek :: u64
  ephase :: egphase
  rtt :: "u64 list"
  ptsc :: u64

datatype pp_ev = Req qev | Rep qev | PpTau

definition pingPong_start :: "u64 \<Rightarrow> 'q \<Rightarrow> 'r \<Rightarrow> ('q, 'r) pingpong" where
  "pingPong_start now q r =
     \<lparr>preq = q, prep = r, pk = 0, pphase = PgLoop, ek = 0, ephase = EgLoop, rtt = [], ptsc = now\<rparr>"

text \<open>The body for thread 0 (\<open>pp_\<close>) and for the echo thread 1 (\<open>pe_\<close>).\<close>

inductive pingPong_step ::
    "('q \<Rightarrow> qev \<Rightarrow> 'q \<Rightarrow> bool) \<Rightarrow> ('r \<Rightarrow> qev \<Rightarrow> 'r \<Rightarrow> bool) \<Rightarrow> u64 \<Rightarrow> ('q, 'r) pingpong \<Rightarrow> pp_ev \<Rightarrow> ('q, 'r) pingpong \<Rightarrow> bool"
  for qstep rstep samples where
  pp_t0: "pphase s = PgLoop \<Longrightarrow> pk s < samples \<Longrightarrow>
    pingPong_step qstep rstep samples s PpTau (s\<lparr>pphase := PgPush (ptsc s)\<rparr>)"
| pp_push: "pphase s = PgPush t0 \<Longrightarrow> qstep (preq s) (Push 0 (pk s + 1)) q \<Longrightarrow>
    pingPong_step qstep rstep samples s (Req (Push 0 (pk s + 1))) (s\<lparr>preq := q, pphase := PgPushing t0\<rparr>)"
| pp_pushed: "pphase s = PgPushing t0 \<Longrightarrow> qstep (preq s) (PushRet 0) q \<Longrightarrow>
    pingPong_step qstep rstep samples s (Req (PushRet 0)) (s\<lparr>preq := q, pphase := PgPop t0\<rparr>)"
| pp_pop: "pphase s = PgPop t0 \<Longrightarrow> rstep (prep s) (Pop 0) r \<Longrightarrow>
    pingPong_step qstep rstep samples s (Rep (Pop 0)) (s\<lparr>prep := r, pphase := PgPopping t0\<rparr>)"
| pp_popped: "pphase s = PgPopping t0 \<Longrightarrow> rstep (prep s) (PopRet 0 v) r \<Longrightarrow>
    pingPong_step qstep rstep samples s (Rep (PopRet 0 v)) (s\<lparr>prep := r, pphase := PgStop t0 v\<rparr>)"
| pp_t1: "pphase s = PgStop t0 v \<Longrightarrow>
    pingPong_step qstep rstep samples s PpTau (s\<lparr>rtt := rtt s @ [ptsc s - t0], pk := pk s + 1, pphase := PgLoop\<rparr>)"
| pp_done: "pphase s = PgLoop \<Longrightarrow> \<not> pk s < samples \<Longrightarrow>
    pingPong_step qstep rstep samples s PpTau (s\<lparr>pphase := PgDone\<rparr>)"
| pe_pop: "ephase s = EgLoop \<Longrightarrow> ek s < samples \<Longrightarrow> qstep (preq s) (Pop 1) q \<Longrightarrow>
    pingPong_step qstep rstep samples s (Req (Pop 1)) (s\<lparr>preq := q, ephase := EgPopping\<rparr>)"
| pe_popped: "ephase s = EgPopping \<Longrightarrow> qstep (preq s) (PopRet 1 v) q \<Longrightarrow>
    pingPong_step qstep rstep samples s (Req (PopRet 1 v)) (s\<lparr>preq := q, ephase := EgPush v\<rparr>)"
| pe_push: "ephase s = EgPush v \<Longrightarrow> rstep (prep s) (Push 1 v) r \<Longrightarrow>
    pingPong_step qstep rstep samples s (Rep (Push 1 v)) (s\<lparr>prep := r, ephase := EgPushing\<rparr>)"
| pe_pushed: "ephase s = EgPushing \<Longrightarrow> rstep (prep s) (PushRet 1) r \<Longrightarrow>
    pingPong_step qstep rstep samples s (Rep (PushRet 1)) (s\<lparr>prep := r, ek := ek s + 1, ephase := EgLoop\<rparr>)"
| pe_done: "ephase s = EgLoop \<Longrightarrow> \<not> ek s < samples \<Longrightarrow>
    pingPong_step qstep rstep samples s PpTau (s\<lparr>ephase := EgDone\<rparr>)"
| req_inside: "qstep (preq s) QTau q \<Longrightarrow> pingPong_step qstep rstep samples s (Req QTau) (s\<lparr>preq := q\<rparr>)"
| rep_inside: "rstep (prep s) QTau r \<Longrightarrow> pingPong_step qstep rstep samples s (Rep QTau) (s\<lparr>prep := r\<rparr>)"
| pp_tick: "ptsc s \<le> now \<Longrightarrow> pingPong_step qstep rstep samples s PpTau (s\<lparr>ptsc := now\<rparr>)"

text \<open>The returned vector, sorted and in nanoseconds.\<close>

definition pingPong_result :: "(real \<Rightarrow> real) \<Rightarrow> real \<Rightarrow> ('q, 'r) pingpong \<Rightarrow> real list" where
  "pingPong_result fl tscPerNs s = sort (map (cyclesToNs fl tscPerNs) (rtt s))"

section \<open>Ping-pong: invariant\<close>

fun req_of :: "pp_ev \<Rightarrow> qev list" where
  "req_of (Req e) = [e]"
| "req_of _ = []"

fun rep_of :: "pp_ev \<Rightarrow> qev list" where
  "rep_of (Rep e) = [e]"
| "rep_of _ = []"

definition reqs :: "pp_ev list \<Rightarrow> qev list" where "reqs tr = concat (map req_of tr)"
definition reps :: "pp_ev list \<Rightarrow> qev list" where "reps tr = concat (map rep_of tr)"

lemma pp_events [simp]:
  "reqs [] = []" "reps [] = []" "reqs (tr @ [e]) = reqs tr @ req_of e" "reps (tr @ [e]) = reps tr @ rep_of e"
  by (simp_all add: reqs_def reps_def)

text \<open>The values \<open>1, \<dots>, n\<close>, and how many of them the two threads have sent and received in their current round.\<close>

definition counted :: "nat \<Rightarrow> u64 list" where
  "counted n = map (\<lambda>j. of_nat (Suc j)) [0..<n]"

fun sent :: "pgphase \<Rightarrow> nat" where
  "sent PgLoop = 0"
| "sent (PgPush t) = 0"
| "sent PgDone = 0"
| "sent _ = 1"

fun got :: "pgphase \<Rightarrow> nat" where
  "got (PgStop t v) = 1"
| "got _ = 0"

fun echo_got :: "egphase \<Rightarrow> nat" where
  "echo_got (EgPush v) = 1"
| "echo_got EgPushing = 1"
| "echo_got _ = 0"

fun echo_sent :: "egphase \<Rightarrow> nat" where
  "echo_sent EgPushing = 1"
| "echo_sent _ = 0"

text \<open>The counter reading up to which the samples so far account for.\<close>

fun mark :: "u64 \<Rightarrow> pgphase \<Rightarrow> u64" where
  "mark now (PgPush t) = t"
| "mark now (PgPushing t) = t"
| "mark now (PgPop t) = t"
| "mark now (PgPopping t) = t"
| "mark now (PgStop t v) = t"
| "mark now _ = now"

fun pinger_ok :: "u64 \<Rightarrow> u64 \<Rightarrow> pgphase \<Rightarrow> bool" where
  "pinger_ok samples k PgLoop = (k \<le> samples)"
| "pinger_ok samples k PgDone = (k = samples)"
| "pinger_ok samples k (PgStop t v) = (k < samples \<and> v = k + 1)"
| "pinger_ok samples k _ = (k < samples)"

fun echo_ok :: "u64 \<Rightarrow> u64 \<Rightarrow> egphase \<Rightarrow> bool" where
  "echo_ok samples k EgLoop = (k \<le> samples)"
| "echo_ok samples k EgDone = (k = samples)"
| "echo_ok samples k (EgPush v) = (k < samples \<and> v = k + 1)"
| "echo_ok samples k _ = (k < samples)"

definition pp_inv :: "u64 \<Rightarrow> pp_ev list \<Rightarrow> ('q, 'r) pingpong \<Rightarrow> bool" where
  "pp_inv samples tr s \<longleftrightarrow>
     map snd (pushes (reqs tr)) = counted (unat (pk s) + sent (pphase s)) \<and>
     map snd (pops (reps tr)) = counted (unat (pk s) + got (pphase s)) \<and>
     map snd (pops (reqs tr)) = counted (unat (ek s) + echo_got (ephase s)) \<and>
     map snd (pushes (reps tr)) = counted (unat (ek s) + echo_sent (ephase s)) \<and>
     pinger_ok samples (pk s) (pphase s) \<and> echo_ok samples (ek s) (ephase s)"

definition rtt_inv :: "u64 \<Rightarrow> ('q, 'r) pingpong \<Rightarrow> bool" where
  "rtt_inv now s \<longleftrightarrow> mark (ptsc s) (pphase s) \<le> ptsc s \<and> length (rtt s) = unat (pk s) \<and>
     unat now + sum_list (map unat (rtt s)) \<le> unat (mark (ptsc s) (pphase s))"

lemma counted_simps [simp]: "counted 0 = []" "counted (Suc n) = counted n @ [of_nat (Suc n)]" "length (counted n) = n"
  by (simp_all add: counted_def)

lemma next_counted:
  assumes "mset (counted c @ [v]) \<subseteq># mset (counted d)" "d \<le> Suc c"
  shows "v = of_nat (Suc c)" "d = Suc c"
proof -
  have "Suc c \<le> d" using size_mset_mono [OF assms(1)] by simp
  then show d: "d = Suc c" using assms(2) by simp
  then show "v = of_nat (Suc c)" using assms(1) by simp
qed

lemma pp_lengths:
  assumes "pp_inv samples tr s"
  shows "length (pushes (reqs tr)) = unat (pk s) + sent (pphase s)" "length (pops (reps tr)) = unat (pk s) + got (pphase s)"
    "length (pops (reqs tr)) = unat (ek s) + echo_got (ephase s)" "length (pushes (reps tr)) = unat (ek s) + echo_sent (ephase s)"
  using assms unfolding pp_inv_def by (metis length_map counted_simps(3))+

lemma unat_next: "(k :: u64) < n \<Longrightarrow> of_nat (Suc (unat k)) = k + 1"
  by (simp add: add.commute)

text \<open>Two queues that lose nothing and invent nothing, one for each direction.\<close>

locale ping_pong = req: bench_queue qstep qstart + rep: bench_queue rstep rstart
  for qstep :: "'q \<Rightarrow> qev \<Rightarrow> 'q \<Rightarrow> bool" and qstart and rstep :: "'r \<Rightarrow> qev \<Rightarrow> 'r \<Rightarrow> bool" and rstart
begin

lemma queues_run:
  "lts_run (pingPong_step qstep rstep samples) s0 tr s \<Longrightarrow>
    lts_run qstep (preq s0) (reqs tr) (preq s) \<and> lts_run rstep (prep s0) (reps tr) (prep s)"
proof (induction rule: lts_run.induct)
  case (run_snoc tr s e s')
  from run_snoc.hyps(2)
  have "req_of e = [] \<and> preq s' = preq s \<or> (\<exists>x. req_of e = [x] \<and> qstep (preq s) x (preq s'))"
    "rep_of e = [] \<and> prep s' = prep s \<or> (\<exists>x. rep_of e = [x] \<and> rstep (prep s) x (prep s'))"
    by (cases; simp)+
  then show ?case using run_snoc.IH by (auto intro: lts_run.run_snoc)
qed (simp add: lts_run.run_nil)

lemma pp_step:
  assumes inv: "pp_inv samples tr s" and step: "pingPong_step qstep rstep samples s e s'"
    and rq: "mset (map snd (pops (reqs (tr @ [e])))) \<subseteq># mset (map snd (pushes (reqs (tr @ [e]))))"
    and rp: "mset (map snd (pops (reps (tr @ [e])))) \<subseteq># mset (map snd (pushes (reps (tr @ [e]))))"
  shows "pp_inv samples (tr @ [e]) s'"
proof -
  note n = pp_lengths [OF inv]
  have le: "unat (pk s) + got (pphase s) \<le> unat (ek s) + echo_sent (ephase s)" if "rep_of e = []"
    using size_mset_mono [OF rp] n that by simp
  have le': "unat (ek s) + echo_got (ephase s) \<le> unat (pk s) + sent (pphase s)" if "req_of e = []"
    using size_mset_mono [OF rq] n that by simp
  have esent: "echo_sent p \<le> echo_got p" for p by (cases p) simp_all
  show ?thesis using step
  proof cases
    case (pp_popped t0 v r)
    have "mset (counted (unat (pk s)) @ [v]) \<subseteq># mset (counted (unat (ek s) + echo_sent (ephase s)))"
      using rp inv pp_popped by (simp add: pp_inv_def del: mset_map)
    moreover have "unat (ek s) + echo_sent (ephase s) \<le> Suc (unat (pk s))"
      using le' esent [of "ephase s"] pp_popped by simp
    ultimately have "v = of_nat (Suc (unat (pk s)))" by (rule next_counted(1))
    then show ?thesis using inv pp_popped unat_next [of "pk s"] by (simp add: pp_inv_def)
  next
    case (pe_popped v q)
    have "mset (counted (unat (ek s)) @ [v]) \<subseteq># mset (counted (unat (pk s) + sent (pphase s)))"
      using rq inv pe_popped by (simp add: pp_inv_def del: mset_map)
    moreover have "unat (pk s) + sent (pphase s) \<le> Suc (unat (ek s))"
      using le pe_popped by (cases "pphase s") simp_all
    ultimately have "v = of_nat (Suc (unat (ek s)))" by (rule next_counted(1))
    then show ?thesis using inv pe_popped unat_next [of "ek s"] by (simp add: pp_inv_def)
  next
    case (pp_t1 t0 v)
    then have "unat (pk s + 1) = Suc (unat (pk s)) \<and> pk s + 1 \<le> samples"
      using inv by (intro word_less_Suc) (simp add: pp_inv_def)
    then show ?thesis using inv pp_t1 by (simp add: pp_inv_def)
  next
    case (pe_pushed r)
    then have "unat (ek s + 1) = Suc (unat (ek s)) \<and> ek s + 1 \<le> samples"
      using inv by (intro word_less_Suc) (simp add: pp_inv_def)
    then show ?thesis using inv pe_pushed by (simp add: pp_inv_def)
  qed (use inv in \<open>auto simp: pp_inv_def unat_next add.commute\<close>)
qed

lemma pp_run:
  assumes "qstart q0" "rstart r0" "lts_run (pingPong_step qstep rstep samples) (pingPong_start now q0 r0) tr s"
  shows "pp_inv samples tr s"
  using assms(3)
proof (induction rule: lts_run.induct)
  case run_nil
  show ?case by (simp add: pp_inv_def pingPong_start_def)
next
  case (run_snoc tr s e s')
  note q = queues_run [OF lts_run.run_snoc [OF run_snoc.hyps]]
  then have "mset (map snd (pops (reqs (tr @ [e])))) \<subseteq># mset (map snd (pushes (reqs (tr @ [e]))))"
    "mset (map snd (pops (reps (tr @ [e])))) \<subseteq># mset (map snd (pushes (reps (tr @ [e]))))"
    unfolding pingPong_start_def pingpong.simps
    using req.popped_once [OF assms(1)] rep.popped_once [OF assms(2)] by blast+
  then show ?case by (rule pp_step [OF run_snoc.IH run_snoc.hyps(2)])
qed

end

lemma rtt_step:
  assumes inv: "rtt_inv now s" and pk: "\<And>t v. pphase s = PgStop t v \<Longrightarrow> pk s < samples"
    and step: "pingPong_step qstep rstep samples s e s'"
  shows "rtt_inv now s'"
  using step
proof cases
  case (pp_t1 t0 v)
  have t: "t0 \<le> ptsc s" "unat now + sum_list (map unat (rtt s)) \<le> unat t0" "length (rtt s) = unat (pk s)"
    using inv pp_t1 by (auto simp: rtt_inv_def)
  moreover have "unat (ptsc s - t0) = unat (ptsc s) - unat t0" using t(1) by (rule unat_sub)
  moreover have "unat t0 \<le> unat (ptsc s)" using t(1) by (simp add: word_le_nat_alt)
  moreover have "unat (pk s + 1) = Suc (unat (pk s))" using word_less_Suc [OF pk [OF pp_t1(3)]] by simp
  ultimately show ?thesis using pp_t1 by (simp add: rtt_inv_def)
next
  case (pp_tick n)
  have "mark n p = mark m p \<or> mark n p = n \<and> mark m p = m" for m p by (cases p) simp_all
  then show ?thesis using inv pp_tick
    by (cases "pphase s") (auto simp: rtt_inv_def word_le_nat_alt)
qed (use inv in \<open>auto simp: rtt_inv_def\<close>)

lemma rtt_run:
  assumes "\<And>tr s. lts_run (pingPong_step qstep rstep samples) (pingPong_start now q r) tr s \<Longrightarrow> pp_inv samples tr s"
    and "lts_run (pingPong_step qstep rstep samples) (pingPong_start now q r) tr s"
  shows "rtt_inv now s"
  using assms(2)
proof (induction rule: lts_run.induct)
  case run_nil
  show ?case by (simp add: rtt_inv_def pingPong_start_def)
next
  case (run_snoc tr s e s')
  have "pk s < samples" if "pphase s = PgStop t v" for t v
    using assms(1) [OF run_snoc.hyps(1)] that by (simp add: pp_inv_def)
  then show ?case using rtt_step [OF run_snoc.IH _ run_snoc.hyps(2)] by blast
qed

definition echoed :: "u64 \<Rightarrow> u64 \<Rightarrow> pp_ev list \<Rightarrow> ('q, 'r) pingpong \<Rightarrow> bool" where
  "echoed samples now tr s \<longleftrightarrow>
     map snd (pops (reps tr)) = map of_nat [1..<Suc (length (pops (reps tr)))] \<and>
     length (pushes (reqs tr)) \<le> Suc (length (pops (reps tr))) \<and>
     unat now + sum_list (map unat (rtt s)) \<le> unat (ptsc s) \<and>
     (pphase s = PgDone \<longrightarrow> length (rtt s) = unat samples)"

lemma counted_upt: "counted n = map of_nat [1..<Suc n]"
  by (induction n) simp_all

lemma pp_echoed: "pp_inv samples tr s \<Longrightarrow> rtt_inv now s \<Longrightarrow> echoed samples now tr s"
  using pp_lengths [of samples tr s]
  by (cases "pphase s") (auto simp: echoed_def pp_inv_def rtt_inv_def word_le_nat_alt counted_upt simp del: upt_Suc)

context ping_pong
begin

lemma echo:
  assumes "qstart q0" "rstart r0" "lts_run (pingPong_step qstep rstep samples) (pingPong_start now q0 r0) tr s"
  shows "echoed samples now tr s"
  using pp_echoed [OF pp_run rtt_run] pp_run assms by blast

end

text \<open>The three queues of the repository; a single-producer queue is used in each direction by one thread.\<close>

interpretation astrapp: ping_pong AstraQ_step "\<lambda>q. \<exists>n ds. ring_size_ok (length ds) \<and> n < 2 ^ 32 \<and> q = AstraQ_start n ds"
  AstraQ_step "\<lambda>q. \<exists>n ds. ring_size_ok (length ds) \<and> n < 2 ^ 32 \<and> q = AstraQ_start n ds"
  by unfold_locales

interpretation spscpp: ping_pong "AstraSPSC_step 0 1" "\<lambda>q. \<exists>ds. spsc_size_ok (length ds) \<and> q = spsc_start ds"
  "AstraSPSC_step 1 0" "\<lambda>q. \<exists>ds. spsc_size_ok (length ds) \<and> q = spsc_start ds"
  by unfold_locales

interpretation mutexpp: ping_pong MutexDeque_step "\<lambda>q. \<exists>n. q = MutexDeque_start n"
  MutexDeque_step "\<lambda>q. \<exists>n. q = MutexDeque_start n"
  by unfold_locales

section \<open>Properties of the ping-pong\<close>

text \<open>C35: The ping-pong measures round trips. On two \<open>AtomicRingBuffer\<close>s and in every interleaving the values that
  come back are \<open>1, 2, 3, \<dots>\<close> in this order, each the answer to the request before it; at most one value is
  under way; the samples are disjoint stretches of the run, so that none wraps round and their sum is at
  most the time that has passed; and the thread that is done has taken exactly \<open>samples\<close> samples.\<close>

theorem ping_pong_echo:
  assumes "ring_size_ok (length ds)" "ring_size_ok (length ds')"
    and "lts_run (pingPong_step AstraQ_step AstraQ_step samples) (pingPong_start now (AstraQ_start 2 ds) (AstraQ_start 2 ds')) tr s"
  shows "map snd (pops (reps tr)) = map of_nat [1..<Suc (length (pops (reps tr)))] \<and>
    length (pushes (reqs tr)) \<le> Suc (length (pops (reps tr))) \<and>
    unat now + sum_list (map unat (rtt s)) \<le> unat (ptsc s) \<and>
    (pphase s = PgDone \<longrightarrow> length (rtt s) = unat samples)"
proof -
  have "echoed samples now tr s"
    by (rule astrapp.echo [OF _ _ assms(3)]) (use assms(1,2) in \<open>auto intro!: exI [of _ "2 :: nat"]\<close>)
  then show ?thesis unfolding echoed_def .
qed

text \<open>The same for \<open>AstraSPSC\<close> and \<open>MutexDeque\<close>.\<close>

lemma ping_pong_echo_others:
  "spsc_size_ok (length ds) \<Longrightarrow> spsc_size_ok (length ds') \<Longrightarrow>
    lts_run (pingPong_step (AstraSPSC_step 0 1) (AstraSPSC_step 1 0) samples) (pingPong_start now (spsc_start ds) (spsc_start ds')) tr s \<Longrightarrow>
    echoed samples now tr s"
  "lts_run (pingPong_step MutexDeque_step MutexDeque_step samples) (pingPong_start now (MutexDeque_start n) (MutexDeque_start m)) tr' s' \<Longrightarrow>
    echoed samples now tr' s'"
  by (rule spscpp.echo; blast) (rule mutexpp.echo; blast)

text \<open>Schedules of a ping-pong on two rings: thread 0, the echo thread, or the clock.\<close>

definition AstraQ_do :: "u64 act \<Rightarrow> u64 ring_sys \<Rightarrow> (qev \<times> u64 ring_sys) option" where
  "AstraQ_do a q = (case perform id id a q of None \<Rightarrow> None | Some (e, q') \<Rightarrow> map_option (\<lambda>l. (l, q')) (AstraQ_event e))"

lemma AstraQ_do_step: "AstraQ_do a q = Some (l, q') \<Longrightarrow> AstraQ_step q l q'"
  by (auto simp: AstraQ_do_def simp del: perform.simps split: option.splits intro: perform_AstraQ)

datatype pp_act = Ping | Echo | Tick u64

type_synonym ring_pingpong = "(u64 ring_sys, u64 ring_sys) pingpong"

definition ping_do :: "u64 \<Rightarrow> ring_pingpong \<Rightarrow> (pp_ev \<times> ring_pingpong) option" where
  "ping_do samples s =
     (case pphase s of
        PgLoop \<Rightarrow> Some (PpTau, s\<lparr>pphase := if pk s < samples then PgPush (ptsc s) else PgDone\<rparr>)
      | PgPush t0 \<Rightarrow> (case AstraQ_do (ActEnq 0 (pk s + 1)) (preq s) of
          Some (l, q) \<Rightarrow> if l = Push 0 (pk s + 1) then Some (Req l, s\<lparr>preq := q, pphase := PgPushing t0\<rparr>) else None
        | None \<Rightarrow> None)
      | PgPushing t0 \<Rightarrow> (case AstraQ_do (ActStep 0) (preq s) of
          Some (l, q) \<Rightarrow> if l = QTau then Some (Req l, s\<lparr>preq := q\<rparr>)
            else if l = PushRet 0 then Some (Req l, s\<lparr>preq := q, pphase := PgPop t0\<rparr>) else None
        | None \<Rightarrow> None)
      | PgPop t0 \<Rightarrow> (case AstraQ_do (ActDeq 0) (prep s) of
          Some (l, r) \<Rightarrow> if l = Pop 0 then Some (Rep l, s\<lparr>prep := r, pphase := PgPopping t0\<rparr>) else None
        | None \<Rightarrow> None)
      | PgPopping t0 \<Rightarrow> (case AstraQ_do (ActStep 0) (prep s) of
          Some (QTau, r) \<Rightarrow> Some (Rep QTau, s\<lparr>prep := r\<rparr>)
        | Some (PopRet i v, r) \<Rightarrow> if i = 0 then Some (Rep (PopRet 0 v), s\<lparr>prep := r, pphase := PgStop t0 v\<rparr>) else None
        | _ \<Rightarrow> None)
      | PgStop t0 v \<Rightarrow> Some (PpTau, s\<lparr>rtt := rtt s @ [ptsc s - t0], pk := pk s + 1, pphase := PgLoop\<rparr>)
      | PgDone \<Rightarrow> None)"

definition echo_do :: "u64 \<Rightarrow> ring_pingpong \<Rightarrow> (pp_ev \<times> ring_pingpong) option" where
  "echo_do samples s =
     (case ephase s of
        EgLoop \<Rightarrow> if ek s < samples
          then (case AstraQ_do (ActDeq 1) (preq s) of
              Some (l, q) \<Rightarrow> if l = Pop 1 then Some (Req l, s\<lparr>preq := q, ephase := EgPopping\<rparr>) else None
            | None \<Rightarrow> None)
          else Some (PpTau, s\<lparr>ephase := EgDone\<rparr>)
      | EgPopping \<Rightarrow> (case AstraQ_do (ActStep 1) (preq s) of
          Some (QTau, q) \<Rightarrow> Some (Req QTau, s\<lparr>preq := q\<rparr>)
        | Some (PopRet i v, q) \<Rightarrow> if i = 1 then Some (Req (PopRet 1 v), s\<lparr>preq := q, ephase := EgPush v\<rparr>) else None
        | _ \<Rightarrow> None)
      | EgPush v \<Rightarrow> (case AstraQ_do (ActEnq 1 v) (prep s) of
          Some (l, r) \<Rightarrow> if l = Push 1 v then Some (Rep l, s\<lparr>prep := r, ephase := EgPushing\<rparr>) else None
        | None \<Rightarrow> None)
      | EgPushing \<Rightarrow> (case AstraQ_do (ActStep 1) (prep s) of
          Some (l, r) \<Rightarrow> if l = QTau then Some (Rep l, s\<lparr>prep := r\<rparr>)
            else if l = PushRet 1 then Some (Rep l, s\<lparr>prep := r, ek := ek s + 1, ephase := EgLoop\<rparr>) else None
        | None \<Rightarrow> None)
      | EgDone \<Rightarrow> None)"

definition pp_do :: "u64 \<Rightarrow> pp_act \<Rightarrow> ring_pingpong \<Rightarrow> (pp_ev \<times> ring_pingpong) option" where
  "pp_do samples a s =
     (case a of Ping \<Rightarrow> ping_do samples s | Echo \<Rightarrow> echo_do samples s
      | Tick now \<Rightarrow> if ptsc s \<le> now then Some (PpTau, s\<lparr>ptsc := now\<rparr>) else None)"

fun pp_script :: "u64 \<Rightarrow> pp_act list \<Rightarrow> ring_pingpong \<Rightarrow> (pp_ev list \<times> ring_pingpong) option" where
  "pp_script samples [] s = Some ([], s)"
| "pp_script samples (a # as) s =
     (case pp_do samples a s of
        None \<Rightarrow> None
      | Some (e, s1) \<Rightarrow> map_option (\<lambda>(tr, s2). (e # tr, s2)) (pp_script samples as s1))"

lemma ping_do_step: "ping_do samples s = Some (e, s') \<Longrightarrow> pingPong_step AstraQ_step AstraQ_step samples s e s'"
  by (cases "pphase s")
    (auto simp: ping_do_def split: option.splits if_splits qev.splits intro: pingPong_step.intros dest!: AstraQ_do_step)

lemma echo_do_step: "echo_do samples s = Some (e, s') \<Longrightarrow> pingPong_step AstraQ_step AstraQ_step samples s e s'"
  by (cases "ephase s")
    (auto simp: echo_do_def simp del: One_nat_def split: option.splits if_splits qev.splits intro: pingPong_step.intros dest!: AstraQ_do_step)

lemma pp_script_run:
  "pp_script samples as s = Some (tr, s') \<Longrightarrow> lts_run (pingPong_step AstraQ_step AstraQ_step samples) s tr s'"
proof (induction "as" arbitrary: s tr)
  case Nil
  then show ?case by (auto intro: lts_run.run_nil)
next
  case (Cons a "as")
  have "pingPong_step AstraQ_step AstraQ_step samples s e s1" if "pp_do samples a s = Some (e, s1)" for e s1
    using that by (cases a) (auto simp: pp_do_def split: if_splits intro: ping_do_step echo_do_step pp_tick)
  then show ?case using Cons by (auto split: option.splits intro: lts_run_cons)
qed

definition one_round :: "pp_act list" where
  "one_round = replicate 6 Ping @ [Tick 140] @ replicate 9 Echo @ [Tick 170] @ replicate 3 Ping @ [Tick 200, Ping, Ping]"

theorem ping_pong_echo_witness:
  "\<exists>tr s. lts_run (pingPong_step AstraQ_step AstraQ_step 1) (pingPong_start 100 (AstraQ_start 2 [0, 0]) (AstraQ_start 2 [0, 0])) tr s \<and>
    pphase s = PgDone \<and> rtt s = [100] \<and> 100 + sum_list (map unat (rtt s)) \<le> 200"
proof -
  let ?s0 = "pingPong_start 100 (AstraQ_start 2 [0, 0]) (AstraQ_start 2 [0, 0])"
  have "map_option (\<lambda>(tr, s). (pphase s, rtt s, ptsc s)) (pp_script 1 one_round ?s0) = Some (PgDone, [100], 200)"
    by code_simp
  then obtain tr s where r: "pp_script 1 one_round ?s0 = Some (tr, s)" "pphase s = PgDone" "rtt s = [100]" "ptsc s = 200"
    by (auto simp del: pp_script.simps)
  note run = pp_script_run [OF r(1)]
  have "unat (100 :: u64) + sum_list (map unat (rtt s)) \<le> unat (ptsc s)"
    using ping_pong_echo [OF _ _ run] by simp
  then show ?thesis using run r(2-4) by (intro exI [of _ tr] exI [of _ s]) simp
qed

section \<open>Wake latency\<close>

text \<open>
  \<open>wakeLatency\<close>: in each round the submitter idles, gives the pool a task that stores the counter in the local
  variable \<open>started\<close>, and polls that variable. The task of round \<open>k\<close> is \<open>k\<close>; \<open>kstarted\<close> is the variable, \<open>None\<close>
  outside its scope, and \<open>kdangling\<close> records a task that ran when its variable was gone. \<open>idle\<close> is the
  number of cycles that \<open>spinCycles\<close> is called with.
\<close>

datatype kphase = KLoop | KIdle u64 | KT0 | KSubmit u64 | KCall u64 | KSpin u64 | KDone

record 'p wake =
  kpool :: 'p
  kk :: u64
  kphase :: kphase
  kstarted :: "u64 option"
  kdangling :: bool
  kout :: "u64 list"
  ktsc :: u64

definition wakeLatency_start :: "u64 \<Rightarrow> 'p \<Rightarrow> 'p wake" where
  "wakeLatency_start now p =
     \<lparr>kpool = p, kk = 0, kphase = KLoop, kstarted = None, kdangling = False, kout = [], ktsc = now\<rparr>"

fun probe_store :: "u64 pool_ev \<Rightarrow> 'p wake \<Rightarrow> 'p wake" where
  "probe_store (Exec i v) s =
     (if v = kk s \<and> kstarted s \<noteq> None then s\<lparr>kstarted := Some (ktsc s)\<rparr> else s\<lparr>kdangling := True\<rparr>)"
| "probe_store _ s = s"

inductive wakeLatency_step ::
    "('p \<Rightarrow> u64 pool_ev \<Rightarrow> 'p \<Rightarrow> bool) \<Rightarrow> ('p \<Rightarrow> bool) \<Rightarrow> u64 \<Rightarrow> u64 \<Rightarrow> 'p wake \<Rightarrow> u64 pool_ev \<Rightarrow> 'p wake \<Rightarrow> bool"
  for tstep returned idle samples where
  k_idle: "kphase s = KLoop \<Longrightarrow> kk s < samples \<Longrightarrow>
    wakeLatency_step tstep returned idle samples s PTau (s\<lparr>kphase := KIdle (ktsc s + idle)\<rparr>)"
| k_idling: "kphase s = KIdle e \<Longrightarrow> ktsc s < e \<Longrightarrow> wakeLatency_step tstep returned idle samples s PTau s"
| k_scope: "kphase s = KIdle e \<Longrightarrow> \<not> ktsc s < e \<Longrightarrow>
    wakeLatency_step tstep returned idle samples s PTau (s\<lparr>kphase := KT0, kstarted := Some 0\<rparr>)"
| k_t0: "kphase s = KT0 \<Longrightarrow> wakeLatency_step tstep returned idle samples s PTau (s\<lparr>kphase := KSubmit (ktsc s)\<rparr>)"
| k_submit: "kphase s = KSubmit t0 \<Longrightarrow> returned (kpool s) \<Longrightarrow> tstep (kpool s) (Submit 0 (Some (kk s))) p \<Longrightarrow>
    wakeLatency_step tstep returned idle samples s (Submit 0 (Some (kk s))) (s\<lparr>kpool := p, kphase := KCall t0\<rparr>)"
| k_returned: "kphase s = KCall t0 \<Longrightarrow> returned (kpool s) \<Longrightarrow>
    wakeLatency_step tstep returned idle samples s PTau (s\<lparr>kphase := KSpin t0\<rparr>)"
| k_poll: "kphase s = KSpin t0 \<Longrightarrow> kstarted s = Some 0 \<Longrightarrow> wakeLatency_step tstep returned idle samples s PTau s"
| k_sample: "kphase s = KSpin t0 \<Longrightarrow> kstarted s = Some v \<Longrightarrow> v \<noteq> 0 \<Longrightarrow>
    wakeLatency_step tstep returned idle samples s PTau
      (s\<lparr>kout := kout s @ [v - t0], kk := kk s + 1, kstarted := None, kphase := KLoop\<rparr>)"
| k_done: "kphase s = KLoop \<Longrightarrow> \<not> kk s < samples \<Longrightarrow>
    wakeLatency_step tstep returned idle samples s PTau (s\<lparr>kphase := KDone\<rparr>)"
| k_pool: "tstep (kpool s) e p \<Longrightarrow> \<not> is_submit e \<Longrightarrow>
    wakeLatency_step tstep returned idle samples s e (probe_store e (s\<lparr>kpool := p\<rparr>))"
| k_tick: "ktsc s \<le> now \<Longrightarrow> wakeLatency_step tstep returned idle samples s PTau (s\<lparr>ktsc := now\<rparr>)"

definition wakeLatency_result :: "(real \<Rightarrow> real) \<Rightarrow> real \<Rightarrow> 'p wake \<Rightarrow> real list" where
  "wakeLatency_result fl tscPerNs s = sort (map (cyclesToNs fl tscPerNs) (kout s))"

section \<open>Wake latency: invariant\<close>

definition ids :: "nat \<Rightarrow> u64 list" where
  "ids n = map of_nat [0..<n]"

lemma ids_simps [simp]: "ids 0 = []" "ids (Suc n) = ids n @ [of_nat n]" "length (ids n) = n"
  by (simp_all add: ids_def)

fun given :: "kphase \<Rightarrow> nat" where
  "given (KCall t) = 1"
| "given (KSpin t) = 1"
| "given _ = 0"

fun in_scope :: "kphase \<Rightarrow> bool" where
  "in_scope KT0 = True"
| "in_scope (KSubmit t) = True"
| "in_scope (KCall t) = True"
| "in_scope (KSpin t) = True"
| "in_scope _ = False"

fun kmark :: "u64 \<Rightarrow> kphase \<Rightarrow> u64" where
  "kmark now (KSubmit t) = t"
| "kmark now (KCall t) = t"
| "kmark now (KSpin t) = t"
| "kmark now _ = now"

fun kcount_ok :: "u64 \<Rightarrow> u64 \<Rightarrow> kphase \<Rightarrow> bool" where
  "kcount_ok samples k KLoop = (k \<le> samples)"
| "kcount_ok samples k KDone = (k = samples)"
| "kcount_ok samples k _ = (k < samples)"

text \<open>How many of the tasks given so far have run: all of the earlier rounds, and possibly the current one.\<close>

definition wake_inv :: "u64 \<Rightarrow> u64 \<Rightarrow> u64 pool_ev list \<Rightarrow> 'p wake \<Rightarrow> bool" where
  "wake_inv samples now tr s \<longleftrightarrow>
     \<not> kdangling s \<and> kcount_ok samples (kk s) (kphase s) \<and> (in_scope (kphase s) \<longleftrightarrow> kstarted s \<noteq> None) \<and>
     submitted tr = map Some (ids (unat (kk s) + given (kphase s))) \<and>
     (\<exists>x \<le> given (kphase s). mset (executed tr) = mset (ids (unat (kk s) + x)) \<and>
        (\<forall>v. kstarted s = Some v \<and> v \<noteq> 0 \<longrightarrow> x = 1 \<and> kmark (ktsc s) (kphase s) \<le> v \<and> v \<le> ktsc s)) \<and>
     kmark (ktsc s) (kphase s) \<le> ktsc s \<and> length (kout s) = unat (kk s) \<and>
     unat now + sum_list (map unat (kout s)) \<le> unat (kmark (ktsc s) (kphase s))"

lemma tasks_map_Some: "tasks (map Some xs) = mset xs"
  by (induction xs) (simp_all add: tasks_def)

lemma given_scope: "given p \<noteq> 0 \<Longrightarrow> in_scope p" "given p \<le> 1"
  by (cases p; simp)+

lemma wake_exec:
  assumes inv: "wake_inv samples now tr s" and once: "mset (executed tr) + {#v#} \<subseteq># tasks (submitted tr)"
  shows "wake_inv samples now (tr @ [Exec i v]) (probe_store (Exec i v) (s\<lparr>kpool := p\<rparr>))"
proof -
  obtain x where x: "x \<le> given (kphase s)" "mset (executed tr) = mset (ids (unat (kk s) + x))"
    using inv by (auto simp: wake_inv_def)
  have sub: "mset (ids (unat (kk s) + x)) + {#v#} \<subseteq># mset (ids (unat (kk s) + given (kphase s)))"
    using once x(2) inv by (simp add: wake_inv_def tasks_map_Some)
  then have n: "given (kphase s) = 1" "x = 0"
    using size_mset_mono [OF sub] x(1) given_scope(2) [of "kphase s"] by auto
  then have v: "v = kk s" using sub by simp
  moreover have "kstarted s \<noteq> None" using inv given_scope(1) [of "kphase s"] n(1) by (simp add: wake_inv_def)
  ultimately show ?thesis using inv n x(2) by (simp add: wake_inv_def) (rule exI [of _ "Suc 0"]; simp)
qed

lemma wake_quiet:
  assumes "wake_inv samples now tr s" "exec_of e = []" "submit_of e = []"
  shows "wake_inv samples now (tr @ [e]) (s\<lparr>kpool := p\<rparr>)"
  using assms by (simp add: wake_inv_def)

lemma wake_step:
  assumes inv: "wake_inv samples now tr s" and step: "wakeLatency_step tstep returned idle samples s e s'"
    and once: "mset (executed (tr @ [e])) \<subseteq># tasks (submitted (tr @ [e]))"
  shows "wake_inv samples now (tr @ [e]) s'"
  using step
proof cases
  case (k_submit t0 p)
  then show ?thesis using inv by (auto simp: wake_inv_def)
next
  case (k_sample t0 v)
  have le: "t0 \<le> v" "v \<le> ktsc s" "kk s < samples" using inv k_sample by (auto simp: wake_inv_def)
  moreover have "unat (v - t0) = unat v - unat t0" using le(1) by (rule unat_sub)
  moreover have "unat (kk s + 1) = Suc (unat (kk s)) \<and> kk s + 1 \<le> samples" using le(3) by (rule word_less_Suc)
  ultimately show ?thesis using inv k_sample by (auto simp: wake_inv_def word_le_nat_alt)
next
  case (k_pool p)
  show ?thesis
  proof (cases e)
    case (Exec i v)
    then show ?thesis using wake_exec [OF inv] once k_pool by simp
  qed (use wake_quiet [OF inv] k_pool in auto)
next
  case (k_tick n)
  then show ?thesis using inv by (cases "kphase s") (auto simp: wake_inv_def word_le_nat_alt)
qed (use inv in \<open>auto simp: wake_inv_def\<close>)

text \<open>The pool that a wake-latency measurement runs on.\<close>

locale probe_pool = task_runner tstep tstart
  for tstep :: "'p \<Rightarrow> u64 pool_ev \<Rightarrow> 'p \<Rightarrow> bool" and tstart
begin

lemma pool_run:
  "lts_run (wakeLatency_step tstep returned idle samples) s0 tr s \<Longrightarrow>
    \<exists>ptr. lts_run tstep (kpool s0) ptr (kpool s) \<and> submitted ptr = submitted tr \<and> executed ptr = executed tr"
proof (induction rule: lts_run.induct)
  case run_nil
  then show ?case using lts_run.run_nil [of tstep "kpool s0"] by blast
next
  case (run_snoc tr s e s')
  then obtain ptr where p: "lts_run tstep (kpool s0) ptr (kpool s)" "submitted ptr = submitted tr" "executed ptr = executed tr"
    by blast
  have store: "kpool (probe_store e u) = kpool u" for e and u :: "'p wake" by (cases e) simp_all
  from run_snoc.hyps(2) have "tstep (kpool s) e (kpool s') \<or> kpool s' = kpool s \<and> e = PTau"
    by cases (auto simp: store)
  then show ?case
  proof
    assume "tstep (kpool s) e (kpool s')"
    from lts_run.run_snoc [OF p(1) this] p(2,3) show ?thesis by (intro exI [of _ "ptr @ [e]"]) simp
  next
    assume "kpool s' = kpool s \<and> e = PTau"
    with p show ?thesis by (intro exI [of _ ptr]) simp
  qed
qed

lemma wake_run:
  assumes "tstart p0" "lts_run (wakeLatency_step tstep returned idle samples) (wakeLatency_start now p0) tr s"
  shows "wake_inv samples now tr s"
  using assms(2)
proof (induction rule: lts_run.induct)
  case run_nil
  show ?case by (simp add: wake_inv_def wakeLatency_start_def)
next
  case (run_snoc tr s e s')
  obtain ptr where "lts_run tstep p0 ptr (kpool s')" "submitted ptr = submitted (tr @ [e])" "executed ptr = executed (tr @ [e])"
    using pool_run [OF lts_run.run_snoc [OF run_snoc.hyps]] by (auto simp: wakeLatency_start_def)
  then have "mset (executed (tr @ [e])) \<subseteq># tasks (submitted (tr @ [e]))" using at_most_once [OF assms(1)] by metis
  then show ?case by (rule wake_step [OF run_snoc.IH run_snoc.hyps(2)])
qed

end


interpretation cvprobe: probe_pool CVPool_alive "\<lambda>p. \<exists>n m. p = new_CondvarPool n m"
  by unfold_locales

section \<open>Properties of the wake latency\<close>


lemma wake_latency_sound_condvar:
  "lts_run (wakeLatency_step CVPool_alive CVPool_returned idle samples) (wakeLatency_start now (new_CondvarPool W 1)) tr s \<Longrightarrow>
    wake_inv samples now tr s"
  by (rule cvprobe.wake_run; blast)









end
