(* ===== verification/Bench_Programs.thy ===== *)
theory Bench_Programs
  imports Bench_Main Bench_Queue Bench_Lock Bench_Index Bench_Pool Bench_Latency
begin

text \<open>
  The \<open>main\<close> functions of the four benchmark programs: which competitors run in which configuration, with how
  much work, which configurations are skipped for want of cores, what is printed, and the exit status.
  \<open>e\<close> is what \<open>init\<close> returned. The measurements themselves are arguments; theories \<open>Bench_Queue\<close>, \<open>Bench_Lock\<close>, \<open>Bench_Index\<close>,
  \<open>Bench_Pool\<close> and \<open>Bench_Latency\<close> model those of the repository's own competitors. The text of a line
  is reduced to what varies in it.
\<close>

definition enough_cores :: "benv \<Rightarrow> u32 \<Rightarrow> bool" where
  "enough_cores e n \<longleftrightarrow> \<not> (of_nat (coreCount (e_cpus e)) < n)"

definition thread_title :: "u32 \<Rightarrow> string" where
  "thread_title t = dec (unat t) @ '' thread'' @ (if t = 1 then '''' else ''s'') @ (if t = 1 then '' (uncontended)'' else '''')"

text \<open>A rate in millions per second: \<open>double(n) * 1e3 / double(ns)\<close>.\<close>

definition mega_rate :: "(real \<Rightarrow> real) \<Rightarrow> u64 \<Rightarrow> i64 \<Rightarrow> real option" where
  "mega_rate fl n ns = double_div fl (fl (fl (real (unat n)) * 1000)) (fl (of_int (sint ns)))"

section \<open>QueueComparisonBench\<close>

datatype queue_adapter =
    AstraQ | RigtorpMPMC | BoostQueue | MoodyCQ | MutexDequeQ | AstraSPSC | RigtorpSPSC | MoodyRWQ | BoostSPSC




definition shapes :: "(u32 \<times> u32 \<times> u64) list" where
  "shapes = [(1, 1, 4000000), (2, 2, 4000000), (4, 4, 4000000), (4, 1, 2000000), (1, 4, 2000000)]"





section \<open>IndexPoolComparisonBench\<close>

datatype index_adapter = AstraIndexPool | RigtorpPool | BoostStackPool | MoodyPool | MutexVec

definition index_competitors :: "((string \<times> string) \<times> index_adapter) list" where
  "index_competitors =
     [((''AstraLib ThreadSafeIndexPool'', ''(FIFO)''), AstraIndexPool),
      ((''rigtorp::MPMCQueue<int>'', ''(FIFO)''), RigtorpPool),
      ((''boost::lockfree::stack<int>'', ''(LIFO)''), BoostStackPool),
      ((''moodycamel::ConcurrentQueue'', ''(unordered)''), MoodyPool),
      ((''std::mutex + std::vector'', ''(LIFO)''), MutexVec)]"

type_synonym 's ip_run = "index_adapter \<Rightarrow> u32 \<Rightarrow> u64 \<Rightarrow> ('s, real) meas"

definition index_config ::
    "(real \<Rightarrow> real) \<Rightarrow> benv \<Rightarrow> ('s \<Rightarrow> i64) \<Rightarrow> 's ip_run \<Rightarrow> u64 \<Rightarrow> u32 \<Rightarrow> 's prog \<Rightarrow> 's prog option" where
  "index_config fl e clock run pairs t p =
     (if \<not> enough_cores e (t + 1) then Some (print_out (Skipped (thread_title t) (unat (t + 1))) p)
      else with_Deadline clock (thread_title t) 600
        (run_table fl e (thread_title t) ''M pair/s'' (map (\<lambda>c. (fst c, run (snd c) t pairs)) index_competitors)) p)"

definition index_main ::
    "(real \<Rightarrow> real) \<Rightarrow> benv \<Rightarrow> ('s \<Rightarrow> i64) \<Rightarrow> 's ip_run \<Rightarrow> 's \<Rightarrow> (int \<times> 's prog) option" where
  "index_main fl e clock run =
     run_main (\<lambda>p. Option.bind (scaled (e_knobs e) 4000000 1000) (\<lambda>pairs.
       for_each (index_config fl e clock run pairs) [1, 2, 4, 8]
         (print_out (Heading ''[1] get+return throughput'')
           (printPreamble e ''ThreadSafeIndexPool vs other free lists  (pool size 1024)'' p))))"

section \<open>ThreadPoolComparisonBench\<close>

datatype pool_adapter = AstraTP | BSPool | CVPool

definition pool_competitors :: "(string \<times> pool_adapter) list" where
  "pool_competitors = [(''AstraLib ThreadPool'', AstraTP), (''BS::thread_pool'', BSPool), (''condvar pool'', CVPool)]"

text \<open>\<open>g_taskCycles\<close>, about a microsecond of the time-stamp counter.\<close>

definition taskCycles :: "(real \<Rightarrow> real) \<Rightarrow> benv \<Rightarrow> u64" where
  "taskCycles fl e = of_int \<lfloor>fl (1000 * e_tscPerNs e)\<rfloor>"

definition burst_title :: "u32 \<Rightarrow> bool \<Rightarrow> string" where
  "burst_title W heavy = dec (unat W) @ '' workers, '' @ (if heavy then ''~1 us'' else ''empty'') @ '' tasks''"

type_synonym 's tp_burst = "pool_adapter \<Rightarrow> u32 \<Rightarrow> u64 \<Rightarrow> u64 \<Rightarrow> bool \<Rightarrow> ('s, real) meas"
type_synonym 's tp_wake = "pool_adapter \<Rightarrow> u32 \<Rightarrow> u64 \<Rightarrow> ('s, real list) meas"

definition runWorkers ::
    "(real \<Rightarrow> real) \<Rightarrow> benv \<Rightarrow> ('s \<Rightarrow> i64) \<Rightarrow> 's tp_burst \<Rightarrow> u32 \<Rightarrow> 's prog \<Rightarrow> 's prog option" where
  "runWorkers fl e clock brst W p =
     (if \<not> enough_cores e (W + 2) then Some (print_out (Skipped (dec (unat W) @ '' workers'') (unat (W + 2))) p)
      else for_each (\<lambda>heavy p. Option.bind (scaled (e_knobs e) (if heavy then 100000 else 200000) 1000) (\<lambda>N.
          with_Deadline clock (burst_title W heavy) 600
            (run_table fl e (burst_title W heavy) ''M task/s''
              (map (\<lambda>c. ((fst c, ''''), brst (snd c) W (taskCycles fl e) N heavy)) pool_competitors)) p))
        [False, True] p)"

definition pool_latencies ::
    "(real \<Rightarrow> real) \<Rightarrow> benv \<Rightarrow> ('s \<Rightarrow> i64) \<Rightarrow> 's tp_wake \<Rightarrow> 's prog \<Rightarrow> 's prog option" where
  "pool_latencies fl e clock wk p =
     (if \<not> enough_cores e (4 + 2) then Some (print_out (Skipped ''latency'' 6) p)
      else Option.bind (scaled (e_knobs e) 2000 200) (\<lambda>samples.
        for_each (\<lambda>c. with_Deadline clock (fst c) 300
            (run_latency fl (fst c) [1 / 2, 9 / 10, 99 / 100] (wk (snd c) 4) samples))
          pool_competitors (print_out (Heading ''p50 p90 p99 max'') p)))"

definition pool_main ::
    "(real \<Rightarrow> real) \<Rightarrow> benv \<Rightarrow> ('s \<Rightarrow> i64) \<Rightarrow> 's tp_burst \<Rightarrow> 's tp_wake \<Rightarrow> 's \<Rightarrow> (int \<times> 's prog) option" where
  "pool_main fl e clock brst wk =
     run_main (\<lambda>p. Option.bind
       (for_each (runWorkers fl e clock brst) [2, 4, 8] (print_out (Heading ''[1] Burst throughput'')
         (printPreamble e ''ThreadPool vs other thread pools  (submitter pinned; pool threads unpinned)'' p)))
       (\<lambda>p. pool_latencies fl e clock wk (print_out (Heading ''[2] Wake latency'') p)))"

section \<open>SpinlockComparisonBench\<close>

datatype lock_adapter = AstraDefaultL | AstraShortWaitL | TTASL | PthreadSpin | StdMutex

definition lock_competitors :: "(string \<times> lock_adapter) list" where
  "lock_competitors =
     [(''AstraLib Spinlock'', AstraDefaultL), (''AstraLib Spinlock(wait=16)'', AstraShortWaitL),
      (''TTAS spinlock'', TTASL), (''pthread_spin_lock'', PthreadSpin), (''std::mutex'', StdMutex)]"

record Sample =
  mops :: real
  fairness :: real
  handoffsM :: real

text \<open>The sample that \<open>runLock\<close> computes from the totals, the hand-offs and the time; \<open>None\<close> is a time of zero.\<close>

definition lock_sample :: "(real \<Rightarrow> real) \<Rightarrow> u64 \<times> u64 \<times> u64 \<Rightarrow> u64 \<Rightarrow> i64 \<Rightarrow> Sample option" where
  "lock_sample fl totals hand ns =
     (case totals of (sm, least, most) \<Rightarrow>
        case (mega_rate fl sm ns, mega_rate fl hand ns) of
          (Some a, Some b) \<Rightarrow>
            Some \<lparr>mops = a, fairness = (if most \<noteq> 0 then fl (fl (real (unat least)) / fl (real (unat most))) else 0), handoffsM = b\<rparr>
        | _ \<Rightarrow> None)"

text \<open>
  The function of competitor \<open>k\<close> also appends to its vectors \<open>fair[k]\<close> and \<open>hand[k]\<close>, which are kept beside the
  program. The note of a row summarises them without their first element, the warm-up.
\<close>

type_synonym 's lock_state = "'s prog \<times> (real list \<times> real list) list"
type_synonym 's lk_run = "lock_adapter \<Rightarrow> u32 \<Rightarrow> u32 \<Rightarrow> i64 \<Rightarrow> ('s, Sample) meas"

definition lock_fn :: "('s, Sample) meas \<Rightarrow> nat \<Rightarrow> 's lock_state \<Rightarrow> real \<times> 's lock_state" where
  "lock_fn f k s =
     (let (x, p) = run_meas f (fst s); (fs, hs) = snd s ! k
      in (mops x, (p, (snd s)[k := (fs @ [fairness x], hs @ [handoffsM x])])))"

definition lock_note :: "(real \<Rightarrow> real) \<Rightarrow> (real \<Rightarrow> real \<Rightarrow> string) \<Rightarrow> u32 \<Rightarrow> real list \<times> real list \<Rightarrow> string option" where
  "lock_note fl fmt t fh =
     (if 1 < t
      then Option.bind (summarize (double_mid fl) (tl (fst fh))) (\<lambda>a.
        map_option (\<lambda>b. fmt (median a) (median b)) (summarize (double_mid fl) (tl (snd fh))))
      else Some '''')"

definition lock_table ::
    "(real \<Rightarrow> real) \<Rightarrow> (real \<Rightarrow> real \<Rightarrow> string) \<Rightarrow> benv \<Rightarrow> (lock_adapter \<Rightarrow> ('s, Sample) meas) \<Rightarrow> u32 \<Rightarrow> 's prog \<Rightarrow> 's prog option" where
  "lock_table fl fmt e run t p =
     (let n = length lock_competitors;
          fns = map (\<lambda>k. lock_fn (run (snd (lock_competitors ! k))) k) [0..<n];
          (st, q, fh) = interleaved (double_mid fl) (g_reps (e_knobs e)) fns (p, replicate n ([], []))
      in Option.bind st (\<lambda>sts. map_option (\<lambda>texts.
           print_out (Table (thread_title t) ''M acq/s''
             (printTable fl (map2 make_row (zip (map fst lock_competitors) texts) sts) True)) q)
           (those (map (lock_note fl fmt t) fh))))"

definition lock_config ::
    "(real \<Rightarrow> real) \<Rightarrow> (real \<Rightarrow> real \<Rightarrow> string) \<Rightarrow> benv \<Rightarrow> ('s \<Rightarrow> i64) \<Rightarrow> 's lk_run \<Rightarrow> i64 \<Rightarrow> u32 \<Rightarrow> u32 \<Rightarrow> 's prog \<Rightarrow> 's prog option" where
  "lock_config fl fmt e clock run durNs iters t p =
     (if \<not> enough_cores e (t + 1) then Some (print_out (Skipped (thread_title t) (unat (t + 1))) p)
      else with_Deadline clock (thread_title t) 600 (lock_table fl fmt e (\<lambda>a. run a t iters durNs) t) p)"

definition lock_sections :: "(string \<times> u32) list" where
  "lock_sections = [(''tiny critical section (counter++)'', 0), (''~100-iteration critical section'', 100)]"

definition lock_main ::
    "(real \<Rightarrow> real) \<Rightarrow> (real \<Rightarrow> real \<Rightarrow> string) \<Rightarrow> benv \<Rightarrow> ('s \<Rightarrow> i64) \<Rightarrow> 's lk_run \<Rightarrow> 's \<Rightarrow> (int \<times> 's prog) option" where
  "lock_main fl fmt e clock run =
     run_main (\<lambda>p. Option.bind (scaled (e_knobs e) 200 10) (\<lambda>d.
       for_each (\<lambda>cs p.
           for_each (lock_config fl fmt e clock run (d * 1000000) (snd cs)) [1, 2, 4, 8] (print_out (Heading (fst cs)) p))
         lock_sections
         (printPreamble e ''Spinlock vs other locks  (fixed-duration runs, one thread per physical core)'' p)))"

section \<open>Contracts of the programs\<close>

text \<open>What \<open>main\<close> guarantees to a throughput measurement.\<close>

definition tput_call_ok :: "benv \<Rightarrow> queue_adapter \<Rightarrow> u32 \<Rightarrow> u32 \<Rightarrow> u64 \<Rightarrow> bool" where
  "tput_call_ok e a P C N \<longleftrightarrow>
     unat P + unat C < coreCount (e_cpus e) \<and> 0 < unat P \<and> 0 < unat C \<and> unat P + unat C < 2 ^ 32 \<and>
     list_ex (\<lambda>(P', C', base). P' = P \<and> C' = C \<and> items_of_shape (e_knobs e) (e_cpus e) P C base = Some N) shapes \<and>
     unat P dvd unat N \<and> unat C dvd unat N \<and>
     (a \<in> {AstraSPSC, RigtorpSPSC, MoodyRWQ, BoostSPSC} \<longrightarrow> P = 1 \<and> C = 1)"

lemma enough_cores_nat: "enough_cores e n \<Longrightarrow> unat n \<le> coreCount (e_cpus e)"
  using mod_less_eq_dividend [of "coreCount (e_cpus e)" "2 ^ 32"]
  by (simp add: enough_cores_def word_less_nat_alt not_less unat_of_nat)

lemma scaled_Some: "g_scale k \<noteq> 0 \<Longrightarrow> \<exists>v. scaled k base minimum = Some v \<and> minimum \<le> v"
  by (auto simp: scaled_def Let_def not_less)




text \<open>The lock table: after \<open>r\<close> rounds every competitor has \<open>r\<close> entries in \<open>fair\<close> and \<open>hand\<close>.\<close>

definition entries :: "nat \<Rightarrow> nat \<Rightarrow> 's lock_state \<Rightarrow> bool" where
  "entries n r s \<longleftrightarrow> length (snd s) = n \<and> (\<forall>k < n. length (fst (snd s ! k)) = r \<and> length (snd (snd s ! k)) = r)"

lemma lock_fn_snd:
  "snd (snd (lock_fn f k s)) =
    (snd s)[k := (fst (snd s ! k) @ [fairness (fst (run_meas f (fst s)))], snd (snd s ! k) @ [handoffsM (fst (run_meas f (fst s)))])]"
  "fst (snd (lock_fn f k s)) = snd (run_meas f (fst s))"
  by (simp_all add: lock_fn_def Let_def case_prod_unfold)

lemma run_all_entries:
  assumes "distinct ks" "set ks \<subseteq> {..<length (snd s)}"
  shows "length (snd (snd (run_all (map (\<lambda>k. lock_fn (f k) k) ks) s))) = length (snd s) \<and>
    (\<forall>k < length (snd s).
       length (fst (snd (snd (run_all (map (\<lambda>k. lock_fn (f k) k) ks) s)) ! k)) = length (fst (snd s ! k)) + (if k \<in> set ks then 1 else 0) \<and>
       length (snd (snd (snd (run_all (map (\<lambda>k. lock_fn (f k) k) ks) s)) ! k)) = length (snd (snd s ! k)) + (if k \<in> set ks then 1 else 0))"
  using assms
proof (induction ks arbitrary: s)
  case (Cons j ks)
  let ?s = "snd (lock_fn (f j) j s)"
  have "length (snd ?s) = length (snd s)" by (simp add: lock_fn_snd)
  with Cons.prems Cons.IH [of ?s] show ?case
    by (auto simp: case_prod_unfold Let_def lock_fn_snd nth_list_update)
qed simp

lemma round_entries:
  assumes "entries n 0 s"
  shows "entries n r (round_state (map (\<lambda>k. lock_fn (f k) k) [0..<n]) r s)"
proof (induction r)
  case (Suc r)
  let ?u = "round_state (map (\<lambda>k. lock_fn (f k) k) [0..<n]) r s"
  have "set [0..<n] \<subseteq> {..<length (snd ?u)}" using Suc by (auto simp: entries_def)
  from run_all_entries [OF _ this, of f] Suc show ?case by (auto simp: entries_def)
qed (use assms in simp)

lemma lock_note_ok: "length (fst fh) = Suc (Suc r) \<Longrightarrow> length (snd fh) = Suc (Suc r) \<Longrightarrow> \<exists>x. lock_note fl fmt t fh = Some x"
  by (cases "fst fh"; cases "snd fh") (auto simp: lock_note_def summarize_def Let_def)

lemma those_Some: "(\<And>x. x \<in> set xs \<Longrightarrow> \<exists>y. f x = Some y) \<Longrightarrow> \<exists>ys. those (map f xs) = Some ys"
proof (induction xs)
  case (Cons x xs)
  then obtain y ys where "f x = Some y" "those (map f xs) = Some ys" by (meson list.set_intros)
  then show ?case by simp
qed simp

lemma lock_table_ok:
  assumes reps: "0 < sint (g_reps (e_knobs e))" and ok: "\<And>a. meas_ok J cnt (\<lambda>_. True) (run a)"
  shows "step_ok (clean J cnt) (lock_table fl fmt e run t)"
  unfolding step_ok_def
proof (intro allI impI)
  fix p assume p: "clean J cnt p"
  let ?n = "length lock_competitors" and ?r = "nat (sint (g_reps (e_knobs e)))"
  let ?fns = "map (\<lambda>k. lock_fn (run (snd (lock_competitors ! k))) k) [0..<?n]"
  let ?s = "(p, replicate ?n ([], []))" and ?t = "round_state ?fns (Suc ?r) (p, replicate ?n ([], []))"
  obtain sts where "interleaved (double_mid fl) (g_reps (e_knobs e)) ?fns ?s = (Some sts, ?t)"
    using interleaved_rounds [of "g_reps (e_knobs e)" "double_mid fl" ?fns ?s] reps by (auto simp del: round_state.simps)
  moreover have "clean J cnt (fst ?t)"
    by (rule round_state_inv [where I = "\<lambda>u. clean J cnt (fst u)"])
      (use p run_meas_ok(2) [OF ok] in \<open>auto simp: lock_fn_snd\<close>)
  moreover have "entries ?n (Suc ?r) ?t" by (rule round_entries) (simp add: entries_def)
  then have "\<exists>x. lock_note fl fmt t fh = Some x" if "fh \<in> set (snd ?t)" for fh
    using that reps lock_note_ok [of fh "?r - 1"] by (auto simp: entries_def in_set_conv_nth simp del: round_state.simps)
  then obtain texts where "those (map (lock_note fl fmt t) (snd ?t)) = Some texts"
    using those_Some [of "snd ?t" "lock_note fl fmt t"] by blast
  ultimately show "\<exists>q. lock_table fl fmt e run t p = Some q \<and> clean J cnt q"
    by (simp add: lock_table_def case_prod_unfold Let_def del: round_state.simps)
qed






text \<open>
  What the guarantee gives a measurement: its threads and the coordinator are pinned to different CPUs,
  and the accounting of a finished run on \<open>AtomicRingBuffer\<close> is right.
\<close>

lemma tput_call_placement:
  assumes ok: "tput_call_ok e a P C N" and cpus: "e_cpus e = detectTopology rs"
  shows "i < unat P + unat C \<Longrightarrow> j < unat P + unat C \<Longrightarrow> pinToCore (e_cpus e) i = pinToCore (e_cpus e) j \<Longrightarrow> i = j"
    and "\<exists>c. pinCoordinatorAway (e_cpus e) (unat P + unat C) = Some c \<and> (\<forall>i < unat P + unat C. pinToCore (e_cpus e) i \<noteq> c)"
proof -
  note pl = placement_exclusive [of rs, folded cpus]
  have n: "unat P + unat C < coreCount (e_cpus e)" using ok by (simp add: tput_call_ok_def)
  show "i = j" if "i < unat P + unat C" "j < unat P + unat C" "pinToCore (e_cpus e) i = pinToCore (e_cpus e) j"
    using pl that n by (meson order_less_trans)
  obtain c where c: "pinCoordinatorAway (e_cpus e) (unat P + unat C) = Some c" using n by (simp add: pinCoordinatorAway_def)
  then show "\<exists>c. pinCoordinatorAway (e_cpus e) (unat P + unat C) = Some c \<and> (\<forall>i < unat P + unat C. pinToCore (e_cpus e) i \<noteq> c)"
    using pl by blast
qed

lemma tput_call_accounting:
  assumes ok: "tput_call_ok e AstraQ P C N" and "ring_size_ok (length ds)"
    and run: "lts_run (throughput_step AstraQ_step P C N) (throughput_start P C (AstraQ_start (unat (P + C)) ds)) tr s"
    and "set (tphase s) \<subseteq> {TDone}" "unat N * (unat N + 1) < 2 ^ 64"
  shows "throughput_check N s"
proof -
  have "unat (P + C) < 2 ^ 32" using unsigned_less [of "P + C"] by simp
  then have "tsum s = of_nat (unat N * (unat N + 1) div 2)"
    using ok assms(2,4) by (intro astraq.accounting [OF _ run]) (auto simp: tput_call_ok_def)
  then show ?thesis using expect_exact [OF assms(5)] by (simp add: throughput_check_def)
qed

text \<open>
  The fairness of a lock sample lies between 0 and 1 for every rounding that is monotone and exact at 0
  and 1, as long as no thread has more than the greatest count.
\<close>

lemma lock_sample_fairness:
  assumes "mono fl" "fl 0 = 0" "fl 1 = 1" "lock_sample fl (sm, least, most) h ns = Some x" "least \<le> most"
  shows "0 \<le> fairness x \<and> fairness x \<le> 1"
proof -
  have "fl (real (unat least)) \<le> fl (real (unat most))"
    by (rule monoD [OF assms(1)]) (use assms(5) in \<open>simp only: word_le_nat_alt of_nat_le_iff\<close>)
  moreover have "fl 0 \<le> fl (real (unat least))" by (rule monoD [OF assms(1)]) (rule of_nat_0_le_iff)
  ultimately have "0 \<le> fl (real (unat least)) / fl (real (unat most))" "fl (real (unat least)) / fl (real (unat most)) \<le> 1"
    using assms(2) by (auto simp: divide_le_eq_1)
  then have "0 \<le> fl (fl (real (unat least)) / fl (real (unat most)))" "fl (fl (real (unat least)) / fl (real (unat most))) \<le> 1"
    using monoD [OF assms(1)] assms(2,3) by (metis, metis)
  then show ?thesis using assms(4) by (auto simp: lock_sample_def split: option.splits)
qed

text \<open>The other programs, with what \<open>main\<close> guarantees to their measurements.\<close>

lemma config_cores: "t \<in> {1, 2, 4, 8} \<Longrightarrow> enough_cores e (t + 1) \<Longrightarrow> unat t < coreCount (e_cpus e)"
  using enough_cores_nat [of e "t + 1"] by auto

theorem index_main_status:
  assumes "g_scale (e_knobs e) \<noteq> 0" "0 < sint (g_reps (e_knobs e))" "J m" "cnt m = 0"
    and "\<And>a t N. unat t < coreCount (e_cpus e) \<Longrightarrow> meas_ok J cnt (\<lambda>_. True) (run a t N)"
  shows "\<exists>status p. index_main fl e clock run m = Some (status, p) \<and> reports J cnt status p"
proof -
  obtain N where N: "scaled (e_knobs e) 4000000 1000 = Some N" using scaled_Some [OF assms(1)] by blast
  have "step_ok (fine J cnt) (index_config fl e clock run N t)" if "t \<in> {1, 2, 4, 8}" for t
  proof (cases "enough_cores e (t + 1)")
    case True
    then have "meas_ok J cnt (\<lambda>_. True) (run a t N)" for a using assms(5) config_cores [OF that] by blast
    then show ?thesis using True unfolding index_config_def [abs_def]
      by simp (intro with_Deadline_ok run_table_ok assms(2); auto)
  next
    case False
    then show ?thesis by (simp add: index_config_def [abs_def] step_ok_print)
  qed
  then have "step_ok (fine J cnt) (for_each (index_config fl e clock run N) [1, 2, 4, 8])" by (intro for_each_ok) auto
  then show ?thesis
    unfolding index_main_def N Option.bind.simps by (intro run_main_ok step_ok_print assms(3,4))
qed

theorem lock_main_status:
  assumes "g_scale (e_knobs e) \<noteq> 0" "0 < sint (g_reps (e_knobs e))" "J m" "cnt m = 0"
    and "\<And>a t iters dur. unat t < coreCount (e_cpus e) \<Longrightarrow> meas_ok J cnt (\<lambda>_. True) (run a t iters dur)"
  shows "\<exists>status p. lock_main fl fmt e clock run m = Some (status, p) \<and> reports J cnt status p"
proof -
  obtain d where d: "scaled (e_knobs e) 200 10 = Some d" using scaled_Some [OF assms(1)] by blast
  have "step_ok (fine J cnt) (lock_config fl fmt e clock run dur iters t)" if "t \<in> {1, 2, 4, 8}" for t dur iters
  proof (cases "enough_cores e (t + 1)")
    case True
    then have "meas_ok J cnt (\<lambda>_. True) (run a t iters dur)" for a using assms(5) config_cores [OF that] by blast
    then show ?thesis using True unfolding lock_config_def [abs_def]
      by simp (intro with_Deadline_ok lock_table_ok assms(2); auto)
  next
    case False
    then show ?thesis by (simp add: lock_config_def [abs_def] step_ok_print)
  qed
  then show ?thesis
    unfolding lock_main_def d Option.bind.simps by (intro run_main_ok for_each_ok step_ok_print assms(3,4)) auto
qed

theorem pool_main_status:
  assumes "g_scale (e_knobs e) \<noteq> 0" "0 < sint (g_reps (e_knobs e))" "J m" "cnt m = 0"
    and "\<And>a W c N heavy. unat W + 2 \<le> coreCount (e_cpus e) \<Longrightarrow> 0 < W \<Longrightarrow> meas_ok J cnt (\<lambda>_. True) (brst a W c N heavy)"
    and "\<And>a n. 6 \<le> coreCount (e_cpus e) \<Longrightarrow> meas_ok J cnt (\<lambda>r. n \<noteq> 0 \<longrightarrow> r \<noteq> []) (wk a 4 n)"
  shows "\<exists>status p. pool_main fl e clock brst wk m = Some (status, p) \<and> reports J cnt status p"
proof -
  have "step_ok (fine J cnt) (runWorkers fl e clock brst W)" if W: "W \<in> {2, 4, 8}" for W
  proof (cases "enough_cores e (W + 2)")
    case True
    have "unat W + 2 \<le> coreCount (e_cpus e)" "0 < W" using W enough_cores_nat [OF True] by auto
    then have "meas_ok J cnt (\<lambda>_. True) (brst a W c N heavy)" for a c N heavy by (rule assms(5))
    moreover obtain N N' where "scaled (e_knobs e) 100000 1000 = Some N" "scaled (e_knobs e) 200000 1000 = Some N'"
      using scaled_Some [OF assms(1)] by meson
    ultimately have "step_ok (fine J cnt) (\<lambda>p. Option.bind (scaled (e_knobs e) (if heavy then 100000 else 200000) 1000) (\<lambda>N.
          with_Deadline clock (burst_title W heavy) 600
            (run_table fl e (burst_title W heavy) ''M task/s''
              (map (\<lambda>c. ((fst c, ''''), brst (snd c) W (taskCycles fl e) N heavy)) pool_competitors)) p))" for heavy
      by (cases heavy) (simp_all, (intro step_rules run_table_ok assms(2); auto)+)
    then show ?thesis using True unfolding runWorkers_def [abs_def] by (auto intro: step_rules)
  next
    case False
    then show ?thesis unfolding runWorkers_def [abs_def] by (auto intro: step_rules)
  qed
  moreover have "step_ok (fine J cnt) (pool_latencies fl e clock wk)"
  proof (cases "enough_cores e 6")
    case True
    have "6 \<le> coreCount (e_cpus e)" using enough_cores_nat [OF True] by simp
    moreover obtain n where "scaled (e_knobs e) 2000 200 = Some n" "200 \<le> n" using scaled_Some [OF assms(1)] by blast
    moreover from this have "n \<noteq> 0" by auto
    ultimately show ?thesis using True unfolding pool_latencies_def [abs_def]
      by simp (intro step_rules run_latency_ok; use assms(6) in blast)
  next
    case False
    then show ?thesis unfolding pool_latencies_def [abs_def] by (auto intro: step_rules)
  qed
  ultimately show ?thesis
    unfolding pool_main_def by (intro run_main_ok step_rules assms(3,4)) auto
qed

end
