(* ===== verification/Bench_Adapters.thy ===== *)
theory Bench_Adapters
  imports Bench_Queue Bench_Index Bench_Lock Bench_Pool
begin

text \<open>
  The adapters that the benchmarks put around the containers, locks and pools of other libraries. The
  adapters are code of the repository: retry loops, \<open>front\<close> followed by \<open>pop\<close>, ignored results, and the
  constructors that fill a pool of indices. The container itself is an argument \<open>lib\<close>, a relation of the state before a call, the call
  with its result, and the state after it; what is documented of such containers is the locale \<open>container\<close>.
\<close>

section \<open>Containers\<close>

text \<open>A call of a container that returns: a push with its success, a pop with the value it found, \<open>front\<close> with what it points to, and
  the removal of the front. A blocking call returns only when it succeeds.\<close>

datatype 'a lib_ev = LibPush tid 'a bool | LibPop tid "'a option" | LibFront tid "'a option" | LibErase tid

text \<open>
  Every value that a successful push puts in comes out at most once; \<open>front\<close> does not remove, and the value it
  points to stays the front until it is removed. \<open>pushers\<close> and \<open>poppers\<close> are the threads that are allowed to push
  and to pop: all threads for most containers, one each for those with a single producer and consumer.
\<close>

locale container =
  fixes lib :: "'l \<Rightarrow> 'a lib_ev \<Rightarrow> 'l \<Rightarrow> bool"
    and items :: "'l \<Rightarrow> 'a multiset"
    and front :: "'l \<Rightarrow> 'a option"
    and pushers poppers :: "tid set"
  assumes lib_push: "i \<in> pushers \<Longrightarrow> lib l (LibPush i v b) l' \<Longrightarrow> items l' = (if b then add_mset v (items l) else items l)"
    and lib_pop: "i \<in> poppers \<Longrightarrow> lib l (LibPop i (Some v)) l' \<Longrightarrow> items l = add_mset v (items l')"
    and lib_pop_none: "i \<in> poppers \<Longrightarrow> lib l (LibPop i None) l' \<Longrightarrow> items l' = items l"
    and lib_front: "i \<in> poppers \<Longrightarrow> lib l (LibFront i r) l' \<Longrightarrow> items l' = items l \<and> front l' = r"
    and lib_front_kept: "i \<in> pushers \<Longrightarrow> lib l (LibPush i x b) l' \<Longrightarrow> front l = Some v \<Longrightarrow> front l' = Some v"
    and lib_erase: "i \<in> poppers \<Longrightarrow> lib l (LibErase i) l' \<Longrightarrow> front l = Some v \<Longrightarrow> items l = add_mset v (items l')"

section \<open>Adapters\<close>

text \<open>
  How an adapter pushes: by a blocking call, by a loop \<open>while (!q.push(v)) _mm_pause()\<close>, or by one call whose
  result it ignores. How it pops: by a blocking call, by a loop until the call succeeds, or by a loop until \<open>front\<close> is
  not null, a copy of the value and a call that removes it.
\<close>

datatype push_mode = PushBlocking | PushRetry | PushOnce
datatype pop_mode = PopBlocking | PopRetry | PopFront

datatype 'a apc = AIdle | APushing 'a | APopping | ATaken 'a

record ('l, 'a) adapter =
  alib :: 'l
  apcs :: "'a apc list"

datatype 'a aev = ACallPush tid 'a | ARetPush tid | ACallPop tid | ARetPop tid 'a | ATau

definition adapter_start :: "nat \<Rightarrow> 'l \<Rightarrow> ('l, 'a) adapter" where
  "adapter_start n l = \<lparr>alib = l, apcs = replicate n AIdle\<rparr>"

inductive adapter_step ::
    "('l \<Rightarrow> 'a lib_ev \<Rightarrow> 'l \<Rightarrow> bool) \<Rightarrow> push_mode \<Rightarrow> pop_mode \<Rightarrow> tid set \<Rightarrow> tid set \<Rightarrow> ('l, 'a) adapter \<Rightarrow> 'a aev \<Rightarrow> ('l, 'a) adapter \<Rightarrow> bool"
  for lib pm qm pushers poppers where
  ad_push: "i < length (apcs q) \<Longrightarrow> apcs q ! i = AIdle \<Longrightarrow> i \<in> pushers \<Longrightarrow>
    adapter_step lib pm qm pushers poppers q (ACallPush i v) (q\<lparr>apcs := (apcs q)[i := APushing v]\<rparr>)"
| ad_pushed: "i < length (apcs q) \<Longrightarrow> apcs q ! i = APushing v \<Longrightarrow> lib (alib q) (LibPush i v b) l \<Longrightarrow> b \<or> pm = PushOnce \<Longrightarrow>
    adapter_step lib pm qm pushers poppers q (ARetPush i) (q\<lparr>alib := l, apcs := (apcs q)[i := AIdle]\<rparr>)"
| ad_push_again: "i < length (apcs q) \<Longrightarrow> apcs q ! i = APushing v \<Longrightarrow> lib (alib q) (LibPush i v False) l \<Longrightarrow> pm = PushRetry \<Longrightarrow>
    adapter_step lib pm qm pushers poppers q ATau (q\<lparr>alib := l\<rparr>)"
| ad_pop: "i < length (apcs q) \<Longrightarrow> apcs q ! i = AIdle \<Longrightarrow> i \<in> poppers \<Longrightarrow>
    adapter_step lib pm qm pushers poppers q (ACallPop i) (q\<lparr>apcs := (apcs q)[i := APopping]\<rparr>)"
| ad_popped: "i < length (apcs q) \<Longrightarrow> apcs q ! i = APopping \<Longrightarrow> qm \<noteq> PopFront \<Longrightarrow> lib (alib q) (LibPop i (Some v)) l \<Longrightarrow>
    adapter_step lib pm qm pushers poppers q (ARetPop i v) (q\<lparr>alib := l, apcs := (apcs q)[i := AIdle]\<rparr>)"
| ad_pop_again: "i < length (apcs q) \<Longrightarrow> apcs q ! i = APopping \<Longrightarrow> qm = PopRetry \<Longrightarrow> lib (alib q) (LibPop i None) l \<Longrightarrow>
    adapter_step lib pm qm pushers poppers q ATau (q\<lparr>alib := l\<rparr>)"
| ad_front: "i < length (apcs q) \<Longrightarrow> apcs q ! i = APopping \<Longrightarrow> qm = PopFront \<Longrightarrow> lib (alib q) (LibFront i (Some v)) l \<Longrightarrow>
    adapter_step lib pm qm pushers poppers q ATau (q\<lparr>alib := l, apcs := (apcs q)[i := ATaken v]\<rparr>)"
| ad_front_again: "i < length (apcs q) \<Longrightarrow> apcs q ! i = APopping \<Longrightarrow> qm = PopFront \<Longrightarrow> lib (alib q) (LibFront i None) l \<Longrightarrow>
    adapter_step lib pm qm pushers poppers q ATau (q\<lparr>alib := l\<rparr>)"
| ad_erase: "i < length (apcs q) \<Longrightarrow> apcs q ! i = ATaken v \<Longrightarrow> lib (alib q) (LibErase i) l \<Longrightarrow>
    adapter_step lib pm qm pushers poppers q (ARetPop i v) (q\<lparr>alib := l, apcs := (apcs q)[i := AIdle]\<rparr>)"

text \<open>As queues of the throughput and latency measurements, with the events of \<open>Bench_Queue\<close>.\<close>

fun queue_event :: "u64 aev \<Rightarrow> qev" where
  "queue_event (ACallPush i v) = Push i v"
| "queue_event (ARetPush i) = PushRet i"
| "queue_event (ACallPop i) = Pop i"
| "queue_event (ARetPop i v) = PopRet i v"
| "queue_event ATau = QTau"

inductive lib_queue_step ::
    "('l \<Rightarrow> u64 lib_ev \<Rightarrow> 'l \<Rightarrow> bool) \<Rightarrow> push_mode \<Rightarrow> pop_mode \<Rightarrow> tid set \<Rightarrow> tid set \<Rightarrow> ('l, u64) adapter \<Rightarrow> qev \<Rightarrow> ('l, u64) adapter \<Rightarrow> bool"
  for lib pm qm pushers poppers where
  lib_queue: "adapter_step lib pm qm pushers poppers q e q' \<Longrightarrow> lib_queue_step lib pm qm pushers poppers q (queue_event e) q'"







text \<open>As pools of indices: \<open>get\<close> pops and \<open>put\<close> pushes.\<close>

fun pool_event :: "i32 aev \<Rightarrow> ipev" where
  "pool_event (ACallPush i v) = Put i v"
| "pool_event (ARetPush i) = PutRet i"
| "pool_event (ACallPop i) = Get i"
| "pool_event (ARetPop i v) = Got i v"
| "pool_event ATau = ITau"

inductive lib_pool_step ::
    "('l \<Rightarrow> i32 lib_ev \<Rightarrow> 'l \<Rightarrow> bool) \<Rightarrow> push_mode \<Rightarrow> pop_mode \<Rightarrow> ('l, i32) adapter \<Rightarrow> ipev \<Rightarrow> ('l, i32) adapter \<Rightarrow> bool"
  for lib pm qm where
  lib_pool: "adapter_step lib pm qm UNIV UNIV q e q' \<Longrightarrow> lib_pool_step lib pm qm q (pool_event e) q'"

definition RigtorpPool_step :: "('l \<Rightarrow> i32 lib_ev \<Rightarrow> 'l \<Rightarrow> bool) \<Rightarrow> ('l, i32) adapter \<Rightarrow> ipev \<Rightarrow> ('l, i32) adapter \<Rightarrow> bool" where
  "RigtorpPool_step lib = lib_pool_step lib PushBlocking PopBlocking"

definition BoostStackPool_step :: "('l \<Rightarrow> i32 lib_ev \<Rightarrow> 'l \<Rightarrow> bool) \<Rightarrow> ('l, i32) adapter \<Rightarrow> ipev \<Rightarrow> ('l, i32) adapter \<Rightarrow> bool" where
  "BoostStackPool_step lib = lib_pool_step lib PushRetry PopRetry"

definition MoodyPool_step :: "('l \<Rightarrow> i32 lib_ev \<Rightarrow> 'l \<Rightarrow> bool) \<Rightarrow> ('l, i32) adapter \<Rightarrow> ipev \<Rightarrow> ('l, i32) adapter \<Rightarrow> bool" where
  "MoodyPool_step lib = lib_pool_step lib PushOnce PopRetry"

text \<open>
  The constructors push the indices one after the other, from thread 0; \<open>RigtorpPool\<close> with the blocking call, the others with a call whose
  result they ignore.
\<close>

inductive lib_fill :: "('l \<Rightarrow> 'a lib_ev \<Rightarrow> 'l \<Rightarrow> bool) \<Rightarrow> push_mode \<Rightarrow> 'l \<Rightarrow> 'a list \<Rightarrow> 'l \<Rightarrow> bool" for lib pm where
  fill_none: "lib_fill lib pm l [] l"
| fill_one: "lib l (LibPush 0 v b) l' \<Longrightarrow> b \<or> pm = PushOnce \<Longrightarrow> lib_fill lib pm l' vs l'' \<Longrightarrow> lib_fill lib pm l (v # vs) l''"

definition new_RigtorpPool :: "('l \<Rightarrow> i32 lib_ev \<Rightarrow> 'l \<Rightarrow> bool) \<Rightarrow> 'l \<Rightarrow> nat \<Rightarrow> nat \<Rightarrow> ('l, i32) adapter \<Rightarrow> bool" where
  "new_RigtorpPool lib l0 m sz q \<longleftrightarrow> (\<exists>l. lib_fill lib PushBlocking l0 (index_list sz) l \<and> q = adapter_start m l)"

definition new_BoostStackPool :: "('l \<Rightarrow> i32 lib_ev \<Rightarrow> 'l \<Rightarrow> bool) \<Rightarrow> 'l \<Rightarrow> nat \<Rightarrow> nat \<Rightarrow> ('l, i32) adapter \<Rightarrow> bool" where
  "new_BoostStackPool lib l0 m sz q \<longleftrightarrow> (\<exists>l. lib_fill lib PushOnce l0 (index_list sz) l \<and> q = adapter_start m l)"

definition new_MoodyPool :: "('l \<Rightarrow> i32 lib_ev \<Rightarrow> 'l \<Rightarrow> bool) \<Rightarrow> 'l \<Rightarrow> nat \<Rightarrow> nat \<Rightarrow> ('l, i32) adapter \<Rightarrow> bool" where
  "new_MoodyPool lib l0 m sz q \<longleftrightarrow> (\<exists>l. lib_fill lib PushOnce l0 (index_list sz) l \<and> q = adapter_start m l)"

section \<open>Conservation\<close>

fun apush_of :: "'a aev \<Rightarrow> 'a list" where
  "apush_of (ACallPush i v) = [v]"
| "apush_of _ = []"

fun apop_of :: "'a aev \<Rightarrow> 'a list" where
  "apop_of (ARetPop i v) = [v]"
| "apop_of _ = []"

definition apushed :: "'a aev list \<Rightarrow> 'a multiset" where "apushed tr = mset (concat (map apush_of tr))"
definition apopped :: "'a aev list \<Rightarrow> 'a multiset" where "apopped tr = mset (concat (map apop_of tr))"

lemma aev_simps [simp]:
  "apushed [] = {#}" "apopped [] = {#}" "apushed (tr @ [e]) = apushed tr + mset (apush_of e)" "apopped (tr @ [e]) = apopped tr + mset (apop_of e)"
  by (simp_all add: apushed_def apopped_def)

fun apending :: "'a apc \<Rightarrow> 'a multiset" where
  "apending (APushing v) = {#v#}"
| "apending _ = {#}"

fun apc_ok :: "pop_mode \<Rightarrow> tid set \<Rightarrow> tid set \<Rightarrow> 'a option \<Rightarrow> tid \<Rightarrow> 'a apc \<Rightarrow> bool" where
  "apc_ok qm pushers poppers f i AIdle = True"
| "apc_ok qm pushers poppers f i (APushing v) = (i \<in> pushers)"
| "apc_ok qm pushers poppers f i APopping = (i \<in> poppers)"
| "apc_ok qm pushers poppers f i (ATaken v) = (i \<in> poppers \<and> qm = PopFront \<and> f = Some v)"

context container
begin

definition conserved :: "pop_mode \<Rightarrow> 'a multiset \<Rightarrow> 'a aev list \<Rightarrow> ('l, 'a) adapter \<Rightarrow> bool" where
  "conserved qm M tr q \<longleftrightarrow>
     (\<forall>i < length (apcs q). apc_ok qm pushers poppers (front (alib q)) i (apcs q ! i)) \<and>
     apopped tr + items (alib q) + sum_list (map apending (apcs q)) \<subseteq># M + apushed tr"

lemma apc_ok_front:
  assumes "apc_ok qm pushers poppers f j p" "\<And>v. p = ATaken v \<Longrightarrow> f = Some v \<Longrightarrow> f' = Some v"
  shows "apc_ok qm pushers poppers f' j p"
  using assms by (cases p) auto

text \<open>A step of thread \<open>i\<close>: the others keep their place, the multisets are balanced.\<close>

lemma conservedI:
  assumes "conserved qm M tr q" "i < length (apcs q)" "apcs q' = (apcs q)[i := p]"
    and "apc_ok qm pushers poppers (front (alib q')) i p"
    and "\<And>j v. j < length (apcs q) \<Longrightarrow> j \<noteq> i \<Longrightarrow> apcs q ! j = ATaken v \<Longrightarrow> front (alib q) = Some v \<Longrightarrow> front (alib q') = Some v"
    and "mset (apop_of e) + items (alib q') + apending p \<subseteq># items (alib q) + apending (apcs q ! i) + mset (apush_of e)"
  shows "conserved qm M (tr @ [e]) q'"
proof -
  have ok: "apc_ok qm pushers poppers (front (alib q)) j (apcs q ! j)" if "j < length (apcs q)" for j using assms(1) that by (simp add: conserved_def)
  have "apc_ok qm pushers poppers (front (alib q')) j ((apcs q)[i := p] ! j)" if "j < length (apcs q)" for j
    using assms(4) apc_ok_front [OF ok [OF that]] assms(5) [OF that] that by (cases "j = i") auto
  moreover have "apopped tr + mset (apop_of e) + items (alib q') + sum_list (map apending ((apcs q)[i := p])) \<subseteq># M + apushed tr + mset (apush_of e)"
  proof -
    let ?S = "sum_list (map apending (apcs q))" and ?S' = "sum_list (map apending ((apcs q)[i := p]))"
    have eq: "?S' + apending (apcs q ! i) = ?S + apending p" using sum_list_map_update [OF assms(2), of apending p] .
    have "apopped tr + ?S + (mset (apop_of e) + items (alib q') + apending p) \<subseteq># apopped tr + ?S + (items (alib q) + apending (apcs q ! i) + mset (apush_of e))"
      using assms(6) by simp
    also have "\<dots> = (apopped tr + items (alib q) + ?S) + (apending (apcs q ! i) + mset (apush_of e))" by (simp add: ac_simps)
    also have "\<dots> \<subseteq># (M + apushed tr) + (apending (apcs q ! i) + mset (apush_of e))"
      using assms(1) by (simp add: conserved_def)
    finally have "(apopped tr + mset (apop_of e) + items (alib q') + ?S') + apending (apcs q ! i) \<subseteq># (M + apushed tr + mset (apush_of e)) + apending (apcs q ! i)"
      using eq by (simp add: ac_simps)
    then show ?thesis by simp
  qed
  ultimately show ?thesis using assms(3) by (simp add: conserved_def add.assoc)
qed

lemma conserved_step:
  assumes c: "conserved qm M tr q" and st: "adapter_step lib pm qm pushers poppers q e q'" and single: "qm = PopFront \<Longrightarrow> \<forall>i \<in> poppers. \<forall>j \<in> poppers. i = j"
  shows "conserved qm M (tr @ [e]) q'"
proof -
  have ok: "apc_ok qm pushers poppers (front (alib q)) j (apcs q ! j)" if "j < length (apcs q)" for j using c that by (simp add: conserved_def)
  have alone: "apcs q ! j \<noteq> ATaken v" if "i < length (apcs q)" "apcs q ! i = APopping \<or> apcs q ! i = ATaken w" "j < length (apcs q)" "j \<noteq> i" for i j v w
    using ok [OF that(1)] ok [OF that(3)] that single by auto
  from st show ?thesis
  proof cases
    case (ad_push i v)
    show ?thesis by (rule conservedI [OF c ad_push(3), where p = "APushing v"]) (use ad_push in auto)
  next
    case (ad_pushed i v b l)
    have "i \<in> pushers" using ok [OF ad_pushed(3)] ad_pushed(4) by simp
    show ?thesis
      by (rule conservedI [OF c ad_pushed(3), where p = "AIdle"])
        (use ad_pushed lib_push [OF \<open>i \<in> pushers\<close> ad_pushed(5)] lib_front_kept [OF \<open>i \<in> pushers\<close> ad_pushed(5)] in auto)
  next
    case (ad_push_again i v l)
    have "i \<in> pushers" using ok [OF ad_push_again(3)] ad_push_again(4) by simp
    show ?thesis
      by (rule conservedI [OF c ad_push_again(3), where p = "apcs q ! i", unfolded list_update_id])
        (use ad_push_again \<open>i \<in> pushers\<close> lib_push [OF \<open>i \<in> pushers\<close> ad_push_again(5)] lib_front_kept [OF \<open>i \<in> pushers\<close> ad_push_again(5)] in auto)
  next
    case (ad_pop i)
    show ?thesis by (rule conservedI [OF c ad_pop(3), where p = "APopping"]) (use ad_pop in auto)
  next
    case (ad_popped i v l)
    have "i \<in> poppers" using ok [OF ad_popped(3)] ad_popped(4) by simp
    have "apcs q ! j \<noteq> ATaken w" if "j < length (apcs q)" for j w using ok [OF that] ad_popped(5) by auto
    then show ?thesis
      by (intro conservedI [OF c ad_popped(3), where p = "AIdle"]) (use ad_popped lib_pop [OF \<open>i \<in> poppers\<close> ad_popped(6)] in auto)
  next
    case (ad_pop_again i l)
    have "i \<in> poppers" using ok [OF ad_pop_again(3)] ad_pop_again(4) by simp
    have "apcs q ! j \<noteq> ATaken w" if "j < length (apcs q)" for j w using ok [OF that] ad_pop_again(5) by auto
    then show ?thesis
      by (intro conservedI [OF c ad_pop_again(3), where p = "apcs q ! i", unfolded list_update_id])
        (use ad_pop_again \<open>i \<in> poppers\<close> lib_pop_none [OF \<open>i \<in> poppers\<close> ad_pop_again(6)] in auto)
  next
    case (ad_front i v l)
    have "i \<in> poppers" using ok [OF ad_front(3)] ad_front(4) by simp
    show ?thesis
      by (rule conservedI [OF c ad_front(3), where p = "ATaken v"])
        (use ad_front \<open>i \<in> poppers\<close> lib_front [OF \<open>i \<in> poppers\<close> ad_front(6)] alone [OF ad_front(3)] in auto)
  next
    case (ad_front_again i l)
    have "i \<in> poppers" using ok [OF ad_front_again(3)] ad_front_again(4) by simp
    show ?thesis
      by (rule conservedI [OF c ad_front_again(3), where p = "apcs q ! i", unfolded list_update_id])
        (use ad_front_again \<open>i \<in> poppers\<close> lib_front [OF \<open>i \<in> poppers\<close> ad_front_again(6)] alone [OF ad_front_again(3)] in auto)
  next
    case (ad_erase i v l)
    have i: "i \<in> poppers" "front (alib q) = Some v" using ok [OF ad_erase(3)] ad_erase(4) by auto
    show ?thesis
      by (rule conservedI [OF c ad_erase(3), where p = "AIdle"]) (use ad_erase lib_erase [OF i(1) ad_erase(5) i(2)] alone [OF ad_erase(3)] in auto)
  qed
qed

lemma conserved_start: "conserved qm (items l) [] (adapter_start n l)"
proof -
  have "sum_list (replicate n {#}) = ({#} :: 'a multiset)" by (induction n) simp_all
  then show ?thesis by (simp add: conserved_def adapter_start_def)
qed

lemma conserved_run:
  assumes "lts_run (adapter_step lib pm qm pushers poppers) (adapter_start n l) tr q" "qm = PopFront \<Longrightarrow> \<forall>i \<in> poppers. \<forall>j \<in> poppers. i = j"
  shows "conserved qm (items l) tr q"
  using assms(1)
proof (induction rule: lts_run.induct)
  case run_nil
  show ?case by (rule conserved_start)
next
  case (run_snoc tr q e q')
  then show ?case using conserved_step assms(2) by blast
qed

lemma filled: "lib_fill lib pm l vs l' \<Longrightarrow> 0 \<in> pushers \<Longrightarrow> items l' \<subseteq># items l + mset vs"
proof (induction rule: lib_fill.induct)
  case (fill_one l v b l' vs l'')
  then have "items l'' \<subseteq># items l' + mset vs" "items l' \<subseteq># add_mset v (items l)" using lib_push [of 0 l v b l'] by auto
  then have "items l'' \<subseteq># add_mset v (items l) + mset vs" by (meson subset_mset.dual_order.trans mset_subset_eq_mono_add subset_mset.order_refl)
  then show ?case by simp
qed simp

end


lemma lib_pool_run:
  "lts_run (lib_pool_step lib pm qm) q0 tr q \<Longrightarrow> outstanding tr = Some h \<Longrightarrow>
    \<exists>atr. lts_run (adapter_step lib pm qm UNIV UNIV) q0 atr q \<and> h + apushed atr = apopped atr"
  for lib :: "'l \<Rightarrow> i32 lib_ev \<Rightarrow> 'l \<Rightarrow> bool"
proof (induction arbitrary: h rule: lts_run.induct)
  case run_nil
  then show ?case by (intro exI [of _ "[]"]) (simp add: lts_run.run_nil)
next
  case (run_snoc tr q l q')
  then obtain h0 where h0: "outstanding tr = Some h0" "out_event h0 l = Some h" by (auto simp: bind_eq_Some_conv)
  with run_snoc.IH obtain atr where a: "lts_run (adapter_step lib pm qm UNIV UNIV) q0 atr q" "h0 + apushed atr = apopped atr" by blast
  from run_snoc.hyps(2) obtain e where e: "adapter_step lib pm qm UNIV UNIV q e q'" "l = pool_event e" by cases auto
  have "h + mset (apush_of e) = h0 + mset (apop_of e)" using h0(2) e(2) by (cases e) (auto split: if_splits)
  then have "apushed atr + (h + mset (apush_of e)) = apushed atr + h0 + mset (apop_of e)" by (simp add: add.assoc)
  then have "h + (apushed atr + mset (apush_of e)) = apopped atr + mset (apop_of e)" using a(2) by (simp add: ac_simps)
  with lts_run.run_snoc [OF a(1) e(1)] show ?case by (intro exI [of _ "atr @ [e]"]) simp
qed


lemma adapter_index_provider:
  fixes lib :: "'l \<Rightarrow> i32 lib_ev \<Rightarrow> 'l \<Rightarrow> bool"
  assumes "container lib items front UNIV UNIV" "qm \<noteq> PopFront" "items l0 = {#}"
  shows "index_provider (lib_pool_step lib pm qm) (\<lambda>sz q. \<exists>m l. lib_fill lib pm' l0 (index_list sz) l \<and> q = adapter_start m l)"
proof
  fix sz p tr q h
  assume "\<exists>m l. lib_fill lib pm' l0 (index_list sz) l \<and> p = adapter_start m l" "lts_run (lib_pool_step lib pm qm) p tr q" "outstanding tr = Some h"
  then obtain m l atr where l: "lib_fill lib pm' l0 (index_list sz) l" "lts_run (adapter_step lib pm qm UNIV UNIV) (adapter_start m l) atr q"
    "h + apushed atr = apopped atr"
    using lib_pool_run by blast
  have "container.conserved items front UNIV UNIV qm (items l) atr q"
    using container.conserved_run [OF assms(1) l(2)] assms(2) by simp
  then have "h + apushed atr + (items (alib q) + sum_list (map apending (apcs q))) \<subseteq># items l + apushed atr"
    by (simp add: container.conserved_def [OF assms(1)] l(3) add.assoc)
  then have "apushed atr + (h + (items (alib q) + sum_list (map apending (apcs q)))) \<subseteq># apushed atr + items l"
    by (simp add: ac_simps)
  then have "h + (items (alib q) + sum_list (map apending (apcs q))) \<subseteq># items l" by simp
  then have "h \<subseteq># items l" by (metis mset_subset_eq_add_left subset_mset.order_trans)
  moreover have "items l \<subseteq># mset (index_list sz)" using container.filled [OF assms(1) l(1)] assms(3) by simp
  ultimately show "h \<subseteq># mset (index_list sz)" by (rule subset_mset.order_trans)
qed

section \<open>The deque of the repository's own baseline\<close>

text \<open>
  The sections under the \<open>std::lock_guard\<close> of \<open>MutexDeque\<close> as a container: \<open>push_back\<close> when there is room, and
  \<open>front\<close> with \<open>pop_front\<close> when there is something.
\<close>

inductive deque_section :: "'a list \<Rightarrow> 'a lib_ev \<Rightarrow> 'a list \<Rightarrow> bool" where
  dq_push_back: "length d < CAP \<Longrightarrow> deque_section d (LibPush i v True) (d @ [v])"
| dq_full: "\<not> length d < CAP \<Longrightarrow> deque_section d (LibPush i v False) d"
| dq_pop_front: "deque_section (v # d) (LibPop i (Some v)) d"
| dq_empty: "deque_section [] (LibPop i None) []"
| dq_front: "deque_section d (LibFront i (if d = [] then None else Some (hd d))) d"
| dq_erase: "deque_section (v # d) (LibErase i) d"

inductive_cases deque_sectionE [elim]:
  "deque_section d (LibPush i v b) d'" "deque_section d (LibPop i r) d'" "deque_section d (LibFront i r) d'" "deque_section d (LibErase i) d'"


fun mq_view :: "mqpc \<Rightarrow> u64 apc" where
  "mq_view MqIdle = AIdle"
| "mq_view (MqPush v) = APushing v"
| "mq_view MqPop = APopping"

definition deque_view :: "MutexDeque \<Rightarrow> (u64 list, u64) adapter" where
  "deque_view q = \<lparr>alib = mdeque q, apcs = map mq_view (mqpcs q)\<rparr>"

lemma mq_view_iff [simp]:
  "mq_view p = AIdle \<longleftrightarrow> p = MqIdle" "mq_view p = APushing v \<longleftrightarrow> p = MqPush v" "mq_view p = APopping \<longleftrightarrow> p = MqPop" "mq_view p \<noteq> ATaken v"
  by (cases p; simp)+

lemma mq_view_inj: "inj mq_view"
proof (rule injI)
  show "mq_view x = mq_view y \<Longrightarrow> x = y" for x y by (cases x; cases y) auto
qed

lemma deque_view_inj: "deque_view q = deque_view q' \<longleftrightarrow> q = q'"
  by (cases q; cases q') (simp add: deque_view_def inj_map_eq_map [OF mq_view_inj])

text \<open>\<open>MutexDeque\<close> is the retry adapter around these sections, so it meets the contract for the same reason as the others.\<close>

theorem MutexDeque_is_retry_adapter:
  "MutexDeque_step q e q' \<longleftrightarrow> lib_queue_step deque_section PushRetry PopRetry UNIV UNIV (deque_view q) e (deque_view q')" (is "?L \<longleftrightarrow> ?R")
proof
  have up: "lib_queue_step deque_section PushRetry PopRetry UNIV UNIV a l b"
    if "adapter_step deque_section PushRetry PopRetry UNIV UNIV a e b'" "l = queue_event e" "b' = b" for a e b b' l
    using lib_queue [OF that(1)] that(2,3) by simp
  show ?R if ?L
    using that
  proof cases
    case (md_push i v)
    show ?thesis by (rule up [OF ad_push [where i = i and v = v]]) (use md_push in \<open>simp_all add: deque_view_def map_update\<close>)
  next
    case (md_push_back i v)
    show ?thesis by (rule up [OF ad_pushed [where i = i and v = v and b = True]])
      (use md_push_back in \<open>auto simp: deque_view_def map_update intro: dq_push_back\<close>)
  next
    case (md_full i v)
    show ?thesis by (rule up [OF ad_push_again [where i = i and v = v]]) (use md_full in \<open>auto simp: deque_view_def intro: dq_full\<close>)
  next
    case (md_pop i)
    show ?thesis by (rule up [OF ad_pop [where i = i]]) (use md_pop in \<open>simp_all add: deque_view_def map_update\<close>)
  next
    case (md_pop_front i v vs)
    show ?thesis by (rule up [OF ad_popped [where i = i and v = v and l = vs]])
      (use md_pop_front in \<open>auto simp: deque_view_def map_update intro: dq_pop_front\<close>)
  next
    case (md_empty i)
    show ?thesis by (rule up [OF ad_pop_again [where i = i]]) (use md_empty in \<open>auto simp: deque_view_def intro: dq_empty\<close>)
  qed
next
  have down: "MutexDeque_step q e q'" if "MutexDeque_step q l q1" "e = l" "deque_view q' = deque_view q1" for q1 l
    using that by (simp add: deque_view_inj)
  assume ?R
  then obtain ae where ae: "adapter_step deque_section PushRetry PopRetry UNIV UNIV (deque_view q) ae (deque_view q')" "e = queue_event ae"
    by cases auto
  from ae(1) show ?L
  proof cases
    case (ad_push i v)
    then show ?thesis using ae(2) by (intro down [OF md_push [of i q v]]) (simp_all add: deque_view_def map_update)
  next
    case (ad_pushed i v b l)
    then show ?thesis using ae(2) by (intro down [OF md_push_back [of i q v]]) (auto simp: deque_view_def map_update)
  next
    case (ad_push_again i v l)
    then show ?thesis using ae(2) by (intro down [OF md_full [of i q v]]) (auto simp: deque_view_def)
  next
    case (ad_pop i)
    then show ?thesis using ae(2) by (intro down [OF md_pop [of i q]]) (simp_all add: deque_view_def map_update)
  next
    case (ad_popped i v l)
    then show ?thesis using ae(2) by (intro down [OF md_pop_front [of i q v l]]) (auto simp: deque_view_def map_update)
  next
    case (ad_pop_again i l)
    then show ?thesis using ae(2) by (intro down [OF md_empty [of i q]]) (auto simp: deque_view_def)
  qed (auto simp: deque_view_def)
qed

section \<open>Locks\<close>

text \<open>
  \<open>pthread_spin_lock\<close> and \<open>std::mutex::lock\<close> acquire the lock when it is free, and otherwise wait until it looks free and
  try again: further waiting strategies of the machine of theory \<open>Spinlock\<close>, for which \<open>runLock_accounting\<close> holds as it stands.
\<close>

definition PthreadSpin_wait :: "bool \<Rightarrow> nat \<Rightarrow> nat option" where
  "PthreadSpin_wait flag k = (if flag then Some k else None)"

definition StdMutex_wait :: "bool \<Rightarrow> nat \<Rightarrow> nat option" where
  "StdMutex_wait flag k = (if flag then Some k else None)"

text \<open>The loop of \<open>work\<close>; its sum does not wrap round.\<close>

definition cs_work :: "u32 \<Rightarrow> u64" where
  "cs_work iters = foldl (\<lambda>x i. x + ucast (of_nat i :: u32)) 0 [0..<unat iters]"

lemma cs_work_sum: "unat (cs_work iters) = unat iters * (unat iters - 1) div 2"
proof -
  have le: "n \<le> unat iters \<Longrightarrow> unat (foldl (\<lambda>x i. x + ucast (of_nat i :: u32)) (0 :: u64) [0..<n]) = \<Sum>{..<n}" for n
  proof (induction n)
    case (Suc n)
    have "unat iters < 2 ^ 32" using unsigned_less [of iters] by simp
    then have n: "n < 2 ^ 32" using Suc.prems by simp
    have "(\<Sum>i<n. i) \<le> n * n" using sum_bounded_above [of "{..<n}" "\<lambda>i. i" n] by simp
    also have "\<dots> \<le> (2 ^ 32 - 1) * (2 ^ 32 - 1)" using n by (intro mult_le_mono) auto
    finally have "\<Sum>{..<n} + n < 2 ^ 64" using n by simp
    moreover have "unat (ucast (of_nat n :: u32) :: u64) = n" using n by (simp add: unat_ucast_u64 unat_of_nat)
    ultimately show ?case using Suc by (simp add: unat_word_ariths(1))
  qed simp
  have "\<Sum>{..<n} = n * (n - 1) div 2" for n :: nat
    using gauss_sum_nat [of "n - 1"] by (cases n) (simp_all add: lessThan_Suc_atMost atMost_atLeast0 mult.commute)
  then show ?thesis using le [of "unat iters"] by (simp add: cs_work_def)
qed

text \<open>
  \<open>spinCycles\<close> over the readings of the counter: the first sets the end, the loop runs until a later one reaches it;
  the result is the number of readings below the end, \<open>None\<close> while the loop still runs.
\<close>

fun spin_until :: "u64 \<Rightarrow> u64 list \<Rightarrow> nat option" where
  "spin_until end [] = None"
| "spin_until end (t # ts) = (if t < end then map_option Suc (spin_until end ts) else Some 0)"

fun spinCycles :: "u64 \<Rightarrow> u64 list \<Rightarrow> nat option" where
  "spinCycles c [] = None"
| "spinCycles c (t # ts) = spin_until (t + c) ts"

lemma spin_until_Some:
  "spin_until e ts = Some k \<longleftrightarrow> k < length ts \<and> e \<le> ts ! k \<and> (\<forall>j < k. ts ! j < e)"
proof (induction ts arbitrary: k)
  case (Cons t ts)
  then show ?case by (cases k) (auto simp: less_Suc_eq_0_disj not_less)
qed simp

lemma spinCycles_lasts:
  assumes "spinCycles c (t # ts) = Some k" "unat t + unat c < 2 ^ 64"
  shows "unat t + unat c \<le> unat (ts ! k)" "j < k \<Longrightarrow> unat (ts ! j) < unat t + unat c"
  using assms by (auto simp: spin_until_Some word_le_nat_alt word_less_nat_alt unat_word_ariths(1))

section \<open>Properties\<close>




text \<open>The accounting of \<open>run\<close> on the index pools of other libraries: no index is handed out twice.\<close>

theorem adapter_index_accounting:
  fixes lib :: "'l \<Rightarrow> i32 lib_ev \<Rightarrow> 'l \<Rightarrow> bool"
  assumes lib: "container lib items front UNIV UNIV" "items l0 = {#}" "n < 2 ^ 31"
    and pool: "pstep = RigtorpPool_step lib \<and> new_RigtorpPool lib l0 m n p \<or> pstep = BoostStackPool_step lib \<and> new_BoostStackPool lib l0 m n p \<or>
      pstep = MoodyPool_step lib \<and> new_MoodyPool lib l0 m n p"
    and run: "lts_run (index_run_step pstep threads tot) (index_run_start threads n p) tr s" "set (iphase s) \<subseteq> {IDone}"
  shows "index_run_check threads tot s"
proof -
  have acc: ?thesis if ps: "pstep = lib_pool_step lib pm qm" "qm \<noteq> PopFront" "\<exists>m l. lib_fill lib pm' l0 (index_list n) l \<and> p = adapter_start m l" for pm qm pm'
    using index_provider.index_accounting [OF adapter_index_provider [OF lib(1) ps(2) lib(2), of pm pm'] _ ps(3) lib(3) run(2)] run(1)
    by (simp add: ps(1))
  show ?thesis
    using pool acc [of PushBlocking PopBlocking PushBlocking] acc [of PushRetry PopRetry PushOnce] acc [of PushOnce PopRetry PushOnce]
    unfolding RigtorpPool_step_def BoostStackPool_step_def MoodyPool_step_def new_RigtorpPool_def new_BoostStackPool_def new_MoodyPool_def
    by blast
qed

end
