(* ===== verification/Bench_Whole.thy ===== *)
theory Bench_Whole
  imports Bench_Programs Bench_Adapters
begin


section \<open>Values handed over one by one\<close>



section \<open>The queues hand over\<close>











section \<open>The program\<close>













section \<open>The other programs\<close>

text \<open>The same for the free lists, the locks and the bursts of tasks; \<open>bs\<close> is \<open>BS::thread_pool\<close>, to which its adapter only forwards.\<close>

inductive index_outcome ::
    "(index_adapter \<Rightarrow> 'l \<Rightarrow> i32 lib_ev \<Rightarrow> 'l \<Rightarrow> bool) \<Rightarrow> (index_adapter \<Rightarrow> 'l) \<Rightarrow> index_adapter \<Rightarrow> u32 \<Rightarrow> u64 \<Rightarrow> bool \<Rightarrow> bool"
  for lib l0 where
  io_Astra: "AstraPool_filled 1024 p \<Longrightarrow> set (iphase s) \<subseteq> {IDone} \<Longrightarrow>
    lts_run (index_run_step AstraPool_step t N) (index_run_start t 1024 p) tr s \<Longrightarrow> index_outcome lib l0 AstraIndexPool t N (index_run_check t N s)"
| io_MutexVec: "set (iphase s) \<subseteq> {IDone} \<Longrightarrow>
    lts_run (index_run_step MutexVecPool_step t N) (index_run_start t 1024 (MutexVecPool_start 1024 (unat t))) tr s \<Longrightarrow>
    index_outcome lib l0 MutexVec t N (index_run_check t N s)"
| io_Rigtorp: "new_RigtorpPool (lib RigtorpPool) (l0 RigtorpPool) (unat t) 1024 p \<Longrightarrow> set (iphase s) \<subseteq> {IDone} \<Longrightarrow>
    lts_run (index_run_step (RigtorpPool_step (lib RigtorpPool)) t N) (index_run_start t 1024 p) tr s \<Longrightarrow>
    index_outcome lib l0 RigtorpPool t N (index_run_check t N s)"
| io_Boost: "new_BoostStackPool (lib BoostStackPool) (l0 BoostStackPool) (unat t) 1024 p \<Longrightarrow> set (iphase s) \<subseteq> {IDone} \<Longrightarrow>
    lts_run (index_run_step (BoostStackPool_step (lib BoostStackPool)) t N) (index_run_start t 1024 p) tr s \<Longrightarrow>
    index_outcome lib l0 BoostStackPool t N (index_run_check t N s)"
| io_Moody: "new_MoodyPool (lib MoodyPool) (l0 MoodyPool) (unat t) 1024 p \<Longrightarrow> set (iphase s) \<subseteq> {IDone} \<Longrightarrow>
    lts_run (index_run_step (MoodyPool_step (lib MoodyPool)) t N) (index_run_start t 1024 p) tr s \<Longrightarrow>
    index_outcome lib l0 MoodyPool t N (index_run_check t N s)"

fun lock_wait :: "lock_adapter \<Rightarrow> bool \<Rightarrow> nat \<Rightarrow> nat option" where
  "lock_wait AstraDefaultL = AstraDefault"
| "lock_wait AstraShortWaitL = AstraShortWait"
| "lock_wait TTASL = TTAS"
| "lock_wait PthreadSpin = PthreadSpin_wait"
| "lock_wait StdMutex = StdMutex_wait"

inductive lock_outcome :: "lock_adapter \<Rightarrow> u32 \<Rightarrow> u32 \<Rightarrow> bool \<Rightarrow> bool" where
  lock_finished: "lts_run (runLock_step (lock_wait a) csIters durCycles) (runLock_start t) tr s \<Longrightarrow> set (lphase s) \<subseteq> {LDone} \<Longrightarrow>
    lock_outcome a t csIters (runLock_check s)"

inductive burst_outcome ::
    "('p \<Rightarrow> unit pool_ev \<Rightarrow> 'p \<Rightarrow> bool) \<Rightarrow> ('p \<Rightarrow> bool) \<Rightarrow> (nat \<Rightarrow> 'p) \<Rightarrow> pool_adapter \<Rightarrow> u32 \<Rightarrow> u64 \<Rightarrow> bool \<Rightarrow> bool"
  for bs bs_returned new_bs where
  bo_Astra: "lts_run (burst_step (AstraPool_alive tso kblock) AstraPool_returned N) (burst_start (new_ThreadPool (unat W) 1)) tr s \<Longrightarrow>
    bphase s = BChecked ok \<Longrightarrow> burst_outcome bs bs_returned new_bs AstraTP W N ok"
| bo_Condvar: "lts_run (burst_step CVPool_alive CVPool_returned N) (burst_start (new_CondvarPool (unat W) 1)) tr s \<Longrightarrow>
    bphase s = BChecked ok \<Longrightarrow> burst_outcome bs bs_returned new_bs CVPool W N ok"
| bo_BS: "lts_run (burst_step bs bs_returned N) (burst_start (new_bs (unat W))) tr s \<Longrightarrow>
    bphase s = BChecked ok \<Longrightarrow> burst_outcome bs bs_returned new_bs BSPool W N ok"

lemma meas_passes: "(\<And>m r ok m'. f m = (r, ok, m') \<Longrightarrow> ok) \<Longrightarrow> meas_ok (\<lambda>_. True) (\<lambda>_. 0) (\<lambda>_. True) f"
  by (fastforce simp: meas_ok_def split: prod.splits)

lemma index_outcome_passes:
  assumes lib: "\<And>a. container (lib a) items front UNIV UNIV" "\<And>a. items (l0 a) = {#}" and oc: "index_outcome lib l0 a t N b"
  shows b
proof -
  have sz: "(1024 :: nat) < 2 ^ 31" by simp
  note acc = adapter_index_accounting [OF lib(1) lib(2) sz]
  from oc show ?thesis
  proof cases
    case (io_Astra p s tr)
    then show ?thesis using astrapool.index_accounting [OF io_Astra(5) io_Astra(3) sz] by simp
  next
    case (io_MutexVec s tr)
    then show ?thesis using mutexvec.index_accounting [OF io_MutexVec(4) _ sz] by blast
  qed (use acc in blast)+
qed

theorem other_benchmarks_succeed:
  assumes knobs: "g_scale (e_knobs e) \<noteq> 0" "0 < sint (g_reps (e_knobs e))"
    and lib: "\<And>a. container (lib a) items front UNIV UNIV" "\<And>a. items (l0 a) = {#}" and bs: "task_pool bs (\<lambda>p. \<exists>n. p = new_bs n)"
    and index: "\<And>a t N m r ok m'. run a t N m = (r, ok, m') \<Longrightarrow> index_outcome lib l0 a t N ok"
    and lock: "\<And>a t iters dur m r ok m'. lrun a t iters dur m = (r, ok, m') \<Longrightarrow> lock_outcome a t iters ok"
    and burst: "\<And>a W c N heavy m r ok m'. brst a W c N heavy m = (r, ok, m') \<Longrightarrow> burst_outcome bs bs_returned new_bs a W N ok"
    and wake: "\<And>a n m r ok m'. wk a 4 n m = (r, ok, m') \<Longrightarrow> ok \<and> (n \<noteq> 0 \<longrightarrow> r \<noteq> [])"
  shows "(\<exists>p. index_main fl e clock run m = Some (0, p)) \<and> (\<exists>p. lock_main fl fmt e clock lrun m' = Some (0, p)) \<and>
    (\<exists>p. pool_main fl e clock brst wk m'' = Some (0, p))"
proof (intro conjI)
  have "\<exists>status p. index_main fl e clock run m = Some (status, p) \<and> reports (\<lambda>_. True) (\<lambda>_. 0) status p"
    by (rule index_main_status [OF knobs]) (use index_outcome_passes [OF lib index] in \<open>auto intro!: meas_passes\<close>)
  then show "\<exists>p. index_main fl e clock run m = Some (0, p)" by (auto simp: reports_def)
  have passes: "ok" if "lock_outcome a t iters ok" for a t iters ok
    using that by cases (use runLock_accounting in blast)
  have "meas_ok (\<lambda>_. True) (\<lambda>_. 0) (\<lambda>_. True) (lrun a t iters dur)" for a t iters dur
    by (rule meas_passes) (rule passes [OF lock])
  then have "\<exists>status p. lock_main fl fmt e clock lrun m' = Some (status, p) \<and> reports (\<lambda>_. True) (\<lambda>_. 0) status p"
    by (intro lock_main_status [OF knobs]) auto
  then show "\<exists>p. lock_main fl fmt e clock lrun m' = Some (0, p)" by (auto simp: reports_def)
  have "ok" if "burst_outcome bs bs_returned new_bs a W N ok" "0 < W" for a W N ok
    using that(1)
  proof cases
    case (bo_Astra tso kblock tr s)
    have "0 < unat W" using that(2) by (simp add: word_less_nat_alt)
    then show ?thesis using astratp.accounting [OF _ bo_Astra(2,3)] by blast
  next
    case (bo_Condvar tr s)
    then show ?thesis using cvtp.accounting by blast
  next
    case (bo_BS tr s)
    then show ?thesis using task_pool.accounting [OF bs] by blast
  qed
  then have "meas_ok (\<lambda>_. True) (\<lambda>_. 0) (\<lambda>_. True) (brst a W c N heavy)" if "0 < W" for a W c N heavy
    using that burst by (intro meas_passes) blast
  moreover have "meas_ok (\<lambda>_. True) (\<lambda>_. 0) (\<lambda>r. n \<noteq> 0 \<longrightarrow> r \<noteq> []) (wk a 4 n)" for a n
    using wake [of a n] by (fastforce simp: meas_ok_def split: prod.splits)
  ultimately have "\<exists>status p. pool_main fl e clock brst wk m'' = Some (status, p) \<and> reports (\<lambda>_. True) (\<lambda>_. 0) status p"
    by (intro pool_main_status [OF knobs]) auto
  then show "\<exists>p. pool_main fl e clock brst wk m'' = Some (0, p)" by (auto simp: reports_def)
qed

end
